(* ===== verification/Prelude.thy ===== *)
theory Prelude
  imports Main "HOL-Library.Char_ord" "HOL-Library.List_Lexorder" "HOL-Library.Product_Lexorder"
begin

text \<open>
  Shared vocabulary of the development: Go's 64-bit integers, error values and results,
  decimal text, and the interface \<open>codec\<close> of an encoder with its decoder, which every
  serialised form of the program (numbers, times, JSON, queue payloads) provides.
\<close>

section \<open>Collections of facts\<close>

named_theorems bounds_simps \<open>range facts that arithmetic on machine integers needs\<close>
named_theorems codec_intros \<open>well-formedness conditions of encoders\<close>

section \<open>64-bit integers\<close>

text \<open>Go's \<open>int\<close>, \<open>int64\<close> and \<open>time.Duration\<close>: arithmetic wraps around at 64 bits.\<close>

definition wrap64 :: "int \<Rightarrow> int" where
  "wrap64 x = (x + 2 ^ 63) mod 2 ^ 64 - 2 ^ 63"

definition is_int64 :: "int \<Rightarrow> bool" where
  "is_int64 x \<longleftrightarrow> - (2 ^ 63) \<le> x \<and> x < 2 ^ 63"

lemma wrap64_id: "is_int64 x \<Longrightarrow> wrap64 x = x"
  by (simp add: wrap64_def is_int64_def)

lemma wrap64_range: "is_int64 (wrap64 x)"
  by (simp add: wrap64_def is_int64_def)

lemma wrap64_wrap64 [simp]: "wrap64 (wrap64 x) = wrap64 x"
  by (rule wrap64_id) (rule wrap64_range)

section \<open>Errors and results\<close>

text \<open>
  The sentinel errors of \<open>models/errors.go\<close> are compared by identity, so they are constructors;
  every other error carries its message.
\<close>

datatype error = ErrEventNotFound | ErrOccurrenceNotFound | Errorf string

fun error_text :: "error \<Rightarrow> string" where
  "error_text ErrEventNotFound = ''event not found''"
| "error_text ErrOccurrenceNotFound = ''occurrence not found''"
| "error_text (Errorf s) = s"

type_synonym 'a result = "error + 'a"

text \<open>\<open>fmt.Errorf("context: %w", err)\<close>.\<close>

definition wrap_err :: "string \<Rightarrow> error \<Rightarrow> error" where
  "wrap_err ctx e = Errorf (ctx @ '': '' @ error_text e)"

lemma wrap_err_neq [simp]:
  "wrap_err c e \<noteq> ErrEventNotFound" "wrap_err c e \<noteq> ErrOccurrenceNotFound"
  by (simp_all add: wrap_err_def)

definition is_ok :: "'e + 'a \<Rightarrow> bool" where
  "is_ok r = (case r of Inl _ \<Rightarrow> False | Inr _ \<Rightarrow> True)"

lemma is_ok_simps [simp]: "is_ok (Inr x)" "\<not> is_ok (Inl e)"
  by (simp_all add: is_ok_def)

lemma is_okE: "is_ok r \<Longrightarrow> (\<And>x. r = Inr x \<Longrightarrow> P) \<Longrightarrow> P"
  by (cases r) auto

section \<open>Encoders and decoders\<close>

locale codec =
  fixes enc :: "'a \<Rightarrow> 'b"
    and dec :: "'b \<Rightarrow> 'a option"
    and ok :: "'a \<Rightarrow> bool"
  assumes roundtrip: "ok x \<Longrightarrow> dec (enc x) = Some x"
begin

lemma enc_inject: "ok x \<Longrightarrow> ok y \<Longrightarrow> enc x = enc y \<longleftrightarrow> x = y"
  by (metis option.inject roundtrip)

lemma enc_list: "list_all ok xs \<Longrightarrow> those (map (\<lambda>x. dec (enc x)) xs) = Some xs"
  by (induction xs) (auto simp: roundtrip)

lemma dec_determines: "ok x \<Longrightarrow> dec (enc x) = Some y \<longleftrightarrow> y = x"
  by (auto simp: roundtrip)

end

section \<open>Decimal text\<close>

definition digit :: "nat \<Rightarrow> char" where
  "digit n = char_of (48 + n)"

definition is_digit :: "char \<Rightarrow> bool" where
  "is_digit c \<longleftrightarrow> 48 \<le> (of_char c :: nat) \<and> (of_char c :: nat) \<le> 57"

definition digit_val :: "char \<Rightarrow> nat" where
  "digit_val c = of_char c - 48"

lemma digit_inverse [simp]: "n < 10 \<Longrightarrow> digit_val (digit n) = n"
  by (simp add: digit_def digit_val_def)

lemma is_digit_digit [simp]: "n < 10 \<Longrightarrow> is_digit (digit n)"
  by (simp add: digit_def is_digit_def)

fun show_nat :: "nat \<Rightarrow> string" where
  "show_nat n = (if n < 10 then [digit n] else show_nat (n div 10) @ [digit (n mod 10)])"

declare show_nat.simps [simp del]

definition digits_val :: "string \<Rightarrow> nat" where
  "digits_val s = foldl (\<lambda>a c. 10 * a + digit_val c) 0 s"

lemma digits_val_snoc [simp]: "digits_val (s @ [c]) = 10 * digits_val s + digit_val c"
  by (simp add: digits_val_def)

lemma show_nat_digits: "list_all is_digit (show_nat n)"
proof (induction n rule: show_nat.induct)
  case (1 n)
  then show ?case by (subst show_nat.simps) simp
qed

lemma show_nat_nonempty [simp]: "show_nat n \<noteq> []"
  by (subst show_nat.simps) simp

lemma digits_val_show_nat [simp]: "digits_val (show_nat n) = n"
proof (induction n rule: show_nat.induct)
  case (1 n)
  show ?case
  proof (cases "n < 10")
    case True
    then show ?thesis by (subst show_nat.simps) (simp add: digits_val_def)
  next
    case False
    with 1 show ?thesis by (subst show_nat.simps) simp
  qed
qed

text \<open>\<open>strconv.Itoa\<close>, \<open>%d\<close> of an integer.\<close>

definition show_int :: "int \<Rightarrow> string" where
  "show_int i = (if i < 0 then CHR ''-'' # show_nat (nat (- i)) else show_nat (nat i))"

text \<open>\<open>strconv.ParseInt(s, 10, 64)\<close> and \<open>strconv.Atoi\<close>: an optional sign, at least one digit,
  and a value in range.\<close>

definition parse_unsigned :: "string \<Rightarrow> nat option" where
  "parse_unsigned s = (if s \<noteq> [] \<and> list_all is_digit s then Some (digits_val s) else None)"

definition in_range64 :: "int \<Rightarrow> int option" where
  "in_range64 i = (if is_int64 i then Some i else None)"

fun parse_int :: "string \<Rightarrow> int option" where
  "parse_int [] = None"
| "parse_int (c # s) =
     (if c = CHR ''-'' then
        (case parse_unsigned s of None \<Rightarrow> None | Some n \<Rightarrow> in_range64 (- int n))
      else if c = CHR ''+'' then
        (case parse_unsigned s of None \<Rightarrow> None | Some n \<Rightarrow> in_range64 (int n))
      else (case parse_unsigned (c # s) of None \<Rightarrow> None | Some n \<Rightarrow> in_range64 (int n)))"

lemma parse_unsigned_show_nat [simp]: "parse_unsigned (show_nat n) = Some n"
  by (simp add: parse_unsigned_def show_nat_digits)

lemma not_digit_sign [simp]: "\<not> is_digit (CHR ''-'')" "\<not> is_digit (CHR ''+'')"
  by (simp_all add: is_digit_def)

lemma parse_int_show_int: "is_int64 i \<Longrightarrow> parse_int (show_int i) = Some i"
proof (cases "i < 0")
  case True
  assume "is_int64 i"
  with True show ?thesis by (simp add: show_int_def in_range64_def)
next
  case False
  assume i: "is_int64 i"
  obtain c s where cs: "show_nat (nat i) = c # s"
    by (cases "show_nat (nat i)") auto
  from show_nat_digits [of "nat i"] cs have "is_digit c" by simp
  then have "c \<noteq> CHR ''-''" "c \<noteq> CHR ''+''" by auto
  moreover from cs have "parse_unsigned (c # s) = Some (nat i)"
    by (metis parse_unsigned_show_nat)
  ultimately show ?thesis
    using False i cs by (simp add: show_int_def in_range64_def)
qed

interpretation int_codec: codec show_int parse_int is_int64
  by unfold_locales (rule parse_int_show_int)

text \<open>A decimal number of fixed width, as the fields of a timestamp.\<close>

definition pad :: "nat \<Rightarrow> nat \<Rightarrow> string" where
  "pad w n = replicate (w - length (show_nat n)) (CHR ''0'') @ show_nat n"

lemma digits_val_zeros: "digits_val (replicate k (CHR ''0'') @ s) = digits_val s"
proof (induction k)
  case (Suc k)
  have "foldl (\<lambda>a c. 10 * a + digit_val c) 0 (CHR ''0'' # t) = digits_val t" for t
    by (simp add: digits_val_def digit_val_def)
  with Suc show ?case by (simp add: digits_val_def)
qed simp

lemma digits_val_pad [simp]: "digits_val (pad w n) = n"
  by (simp add: pad_def digits_val_zeros)

lemma pad_digits: "list_all is_digit (pad w n)"
  using show_nat_digits [of n] by (auto simp: pad_def list_all_iff is_digit_def)

lemma length_show_nat: "n < 10 ^ w \<Longrightarrow> 0 < w \<Longrightarrow> length (show_nat n) \<le> w"
proof (induction n arbitrary: w rule: show_nat.induct)
  case (1 n)
  show ?case
  proof (cases "n < 10")
    case True
    with 1 show ?thesis by (subst show_nat.simps) simp
  next
    case False
    then have "w \<noteq> 1" using "1.prems" by auto
    with "1.prems" obtain v where v: "w = Suc v" "0 < v"
      by (cases w) auto
    with "1.prems" have "n div 10 < 10 ^ v" by auto
    with 1 False v have "length (show_nat (n div 10)) \<le> v" by blast
    with False v show ?thesis by (subst show_nat.simps) simp
  qed
qed

lemma length_pad: "n < 10 ^ w \<Longrightarrow> 0 < w \<Longrightarrow> length (pad w n) = w"
  using length_show_nat [of n w] by (simp add: pad_def)

section \<open>Splitting text\<close>

text \<open>\<open>strings.Split(s, sep)\<close> for a separator of one byte.\<close>

fun split_on :: "char \<Rightarrow> string \<Rightarrow> string list" where
  "split_on sep [] = [[]]"
| "split_on sep (c # s) =
     (if c = sep then [] # split_on sep s
      else (case split_on sep s of [] \<Rightarrow> [[c]] | p # ps \<Rightarrow> (c # p) # ps))"

lemma split_on_nonempty [simp]: "split_on sep s \<noteq> []"
  by (induction s) (auto split: list.split)

lemma split_on_other:
  assumes "c \<noteq> sep"
  shows "split_on sep (c # s) = p # ps \<longleftrightarrow> (\<exists>q. p = c # q \<and> split_on sep s = q # ps)"
proof -
  obtain q qs where "split_on sep s = q # qs" using split_on_nonempty [of sep s] by (meson neq_Nil_conv)
  with assms show ?thesis by auto
qed

lemma split_on_one: "split_on sep s = [a] \<longleftrightarrow> s = a \<and> sep \<notin> set a"
proof (induction s arbitrary: a)
  case (Cons c s)
  show ?case
  proof (cases "c = sep")
    case False
    then show ?thesis unfolding split_on_other [OF False] Cons.IH by (cases a) auto
  qed (cases a, simp_all)
qed auto

lemma split_on_two: "split_on sep s = [a, b] \<longleftrightarrow> s = a @ sep # b \<and> sep \<notin> set a \<and> sep \<notin> set b"
proof (induction s arbitrary: a)
  case (Cons c s)
  show ?case
  proof (cases "c = sep")
    case True
    then show ?thesis by (cases a) (simp_all add: split_on_one)
  next
    case False
    then show ?thesis unfolding split_on_other [OF False] Cons.IH by (cases a) auto
  qed
qed simp

section \<open>Lists\<close>

lemma sorted_wrt_take: "sorted_wrt P xs \<Longrightarrow> sorted_wrt P (take n xs)"
  by (metis append_take_drop_id sorted_wrt_append)

lemma set_take_filter: "x \<in> set (take n (filter P xs)) \<Longrightarrow> x \<in> set xs \<and> P x"
  by (auto dest: in_set_takeD)

end
