(* ===== verification/Json.thy ===== *)
theory Json
  imports Prelude
begin

text \<open>
  JSON as Go's \<open>encoding/json\<close> writes and reads it: the syntax tree, the compact encoder with its
  string escapes, a recursive-descent decoder, and the matching of object members to struct fields.
  A number keeps its literal text, as the decoder converts it only when it knows the field's type.
  Strings are byte strings holding valid UTF-8; the decoder's nesting limit is not modelled.
\<close>

datatype json =
    JNull
  | JBool bool
  | JNum string
  | JStr string
  | JArr "json list"
  | JObj "(string \<times> json) list"

section \<open>Encoding\<close>

abbreviation backslash :: char where "backslash \<equiv> CHR 0x5C"
abbreviation dquote :: char where "dquote \<equiv> CHR 0x22"

definition code :: "char \<Rightarrow> nat" where
  "code c = of_char c"

definition hex_digit :: "nat \<Rightarrow> char" where
  "hex_digit n = (if n < 10 then char_of (48 + n) else char_of (87 + n))"

definition escape_char :: "char \<Rightarrow> string" where
  "escape_char c =
     (if c = dquote \<or> c = backslash then [backslash, c]
      else if c = CHR 0x08 then [backslash, CHR ''b'']
      else if c = CHR 0x0C then [backslash, CHR ''f'']
      else if c = CHR 0x0A then [backslash, CHR ''n'']
      else if c = CHR 0x0D then [backslash, CHR ''r'']
      else if c = CHR 0x09 then [backslash, CHR ''t'']
      else if code c < 32 \<or> c = CHR ''<'' \<or> c = CHR ''>'' \<or> c = CHR ''&''
      then [backslash, CHR ''u'', CHR ''0'', CHR ''0'', hex_digit (code c div 16), hex_digit (code c mod 16)]
      else [c])"

text \<open>The line separators U+2028 and U+2029, three bytes each in UTF-8, are escaped as well.\<close>

fun escape :: "string \<Rightarrow> string" where
  "escape [] = []"
| "escape (c # s) =
     (if c = CHR 0xE2 \<and> take 2 s = [CHR 0x80, CHR 0xA8] then backslash # ''u2028'' @ escape (drop 2 s)
      else if c = CHR 0xE2 \<and> take 2 s = [CHR 0x80, CHR 0xA9] then backslash # ''u2029'' @ escape (drop 2 s)
      else escape_char c @ escape s)"

definition quote :: "string \<Rightarrow> string" where
  "quote s = dquote # escape s @ [dquote]"

fun commas :: "string list \<Rightarrow> string" where
  "commas [] = []"
| "commas [x] = x"
| "commas (x # xs) = x @ CHR '','' # commas xs"

fun print_json :: "json \<Rightarrow> string" where
  "print_json JNull = ''null''"
| "print_json (JBool b) = (if b then ''true'' else ''false'')"
| "print_json (JNum l) = l"
| "print_json (JStr s) = quote s"
| "print_json (JArr xs) = CHR ''['' # commas (map print_json xs) @ '']''"
| "print_json (JObj kvs) =
     CHR ''{'' # commas (map (\<lambda>kv. quote (fst kv) @ CHR '':'' # print_json (snd kv)) kvs) @ ''}''"

section \<open>Decoding\<close>

definition is_ws :: "char \<Rightarrow> bool" where
  "is_ws c \<longleftrightarrow> c = CHR '' '' \<or> c = CHR 0x09 \<or> c = CHR 0x0A \<or> c = CHR 0x0D"

definition skip_ws :: "string \<Rightarrow> string" where
  "skip_ws s = dropWhile is_ws s"

definition hex_val :: "char \<Rightarrow> nat option" where
  "hex_val c =
     (if is_digit c then Some (digit_val c)
      else if 97 \<le> code c \<and> code c \<le> 102 then Some (code c - 87)
      else if 65 \<le> code c \<and> code c \<le> 70 then Some (code c - 55)
      else None)"

fun hex4 :: "string \<Rightarrow> nat option" where
  "hex4 (a # b # c # d # s) =
     (case (hex_val a, hex_val b, hex_val c, hex_val d) of
        (Some x, Some y, Some z, Some w) \<Rightarrow> Some (4096 * x + 256 * y + 16 * z + w)
      | _ \<Rightarrow> None)"
| "hex4 _ = None"

definition utf8 :: "nat \<Rightarrow> string" where
  "utf8 u =
     (if u < 128 then [char_of u]
      else if u < 2048 then [char_of (192 + u div 64), char_of (128 + u mod 64)]
      else if u < 65536 then
        [char_of (224 + u div 4096), char_of (128 + u div 64 mod 64), char_of (128 + u mod 64)]
      else [char_of (240 + u div 262144), char_of (128 + u div 4096 mod 64),
            char_of (128 + u div 64 mod 64), char_of (128 + u mod 64)])"

text \<open>A surrogate must be followed by its partner; alone it decodes to U+FFFD.\<close>

definition low_surrogate :: "string \<Rightarrow> nat option" where
  "low_surrogate s =
     (if take 2 s = [backslash, CHR ''u''] then
        (case hex4 (drop 2 s) of Some v \<Rightarrow> if 56320 \<le> v \<and> v < 57344 then Some v else None | None \<Rightarrow> None)
      else None)"

definition simple_escape :: "char \<Rightarrow> char option" where
  "simple_escape e =
     (if e = dquote \<or> e = backslash \<or> e = CHR ''/'' then Some e
      else if e = CHR ''b'' then Some (CHR 0x08) else if e = CHR ''f'' then Some (CHR 0x0C)
      else if e = CHR ''n'' then Some (CHR 0x0A) else if e = CHR ''r'' then Some (CHR 0x0D)
      else if e = CHR ''t'' then Some (CHR 0x09) else None)"

definition prepend :: "string \<Rightarrow> (string \<times> string) option \<Rightarrow> (string \<times> string) option" where
  "prepend p r = (case r of None \<Rightarrow> None | Some (a, b) \<Rightarrow> Some (p @ a, b))"

text \<open>The characters of a string literal up to its closing quote, and what follows it.\<close>

function string_body :: "string \<Rightarrow> (string \<times> string) option" where
  "string_body [] = None"
| "string_body (c # s) =
     (if c = dquote then Some ([], s)
      else if c = backslash then
        (case s of
           [] \<Rightarrow> None
         | e # r \<Rightarrow>
             if e = CHR ''u'' then
               (case hex4 r of
                  None \<Rightarrow> None
                | Some u \<Rightarrow>
                    if 55296 \<le> u \<and> u < 57344 then
                      (case (if u < 56320 then low_surrogate (drop 4 r) else None) of
                         Some v \<Rightarrow> prepend (utf8 (65536 + (u - 55296) * 1024 + (v - 56320))) (string_body (drop 10 r))
                       | None \<Rightarrow> prepend (utf8 65533) (string_body (drop 4 r)))
                    else prepend (utf8 u) (string_body (drop 4 r)))
             else (case simple_escape e of None \<Rightarrow> None | Some x \<Rightarrow> prepend [x] (string_body r)))
      else if code c < 32 then None
      else prepend [c] (string_body s))"
  by pat_completeness auto
termination
  by (relation "measure length") auto

declare string_body.simps(2) [simp del]

section \<open>Numbers\<close>

definition number_char :: "char \<Rightarrow> bool" where
  "number_char c \<longleftrightarrow> is_digit c \<or> c \<in> {CHR ''-'', CHR ''+'', CHR ''.'', CHR ''e'', CHR ''E''}"

definition digits1 :: "string \<Rightarrow> bool" where
  "digits1 s \<longleftrightarrow> s \<noteq> [] \<and> list_all is_digit s"

definition valid_exponent :: "string \<Rightarrow> bool" where
  "valid_exponent s =
     (case s of
        [] \<Rightarrow> True
      | e # r \<Rightarrow> (e = CHR ''e'' \<or> e = CHR ''E'') \<and>
                 (case r of [] \<Rightarrow> False
                  | c # t \<Rightarrow> if c = CHR ''+'' \<or> c = CHR ''-'' then digits1 t else digits1 r))"

definition valid_fraction :: "string \<Rightarrow> bool" where
  "valid_fraction s =
     (case s of
        [] \<Rightarrow> True
      | c # r \<Rightarrow> if c = CHR ''.'' then
                   takeWhile is_digit r \<noteq> [] \<and> valid_exponent (dropWhile is_digit r)
                 else valid_exponent s)"

definition valid_unsigned :: "string \<Rightarrow> bool" where
  "valid_unsigned s =
     (case s of
        [] \<Rightarrow> False
      | c # r \<Rightarrow> is_digit c \<and>
                 (if c = CHR ''0'' then valid_fraction r else valid_fraction (dropWhile is_digit r)))"

definition valid_number :: "string \<Rightarrow> bool" where
  "valid_number s =
     (case s of [] \<Rightarrow> False | c # r \<Rightarrow> if c = CHR ''-'' then valid_unsigned r else valid_unsigned s)"

definition number :: "string \<Rightarrow> (json \<times> string) option" where
  "number s =
     (let l = takeWhile number_char s
      in if valid_number l then Some (JNum l, dropWhile number_char s) else None)"

section \<open>Values\<close>

text \<open>Recursive descent; each call spends a unit of fuel, and \<open>2 * length s + 2\<close> units are enough
  for a text of length \<open>length s\<close>.\<close>

fun json_value :: "nat \<Rightarrow> string \<Rightarrow> (json \<times> string) option"
  and json_elements :: "nat \<Rightarrow> string \<Rightarrow> (json list \<times> string) option"
  and json_members :: "nat \<Rightarrow> string \<Rightarrow> ((string \<times> json) list \<times> string) option" where
  "json_value 0 s = None"
| "json_value (Suc f) s =
     (case skip_ws s of
        [] \<Rightarrow> None
      | c # r \<Rightarrow>
          if c = dquote then (case string_body r of None \<Rightarrow> None | Some (t, r2) \<Rightarrow> Some (JStr t, r2))
          else if c = CHR ''['' then
            (case skip_ws r of
               [] \<Rightarrow> None
             | d # r2 \<Rightarrow>
                 if d = CHR '']'' then Some (JArr [], r2)
                 else (case json_elements f r of None \<Rightarrow> None | Some (xs, r3) \<Rightarrow> Some (JArr xs, r3)))
          else if c = CHR ''{'' then
            (case skip_ws r of
               [] \<Rightarrow> None
             | d # r2 \<Rightarrow>
                 if d = CHR ''}'' then Some (JObj [], r2)
                 else (case json_members f r of None \<Rightarrow> None | Some (kvs, r3) \<Rightarrow> Some (JObj kvs, r3)))
          else if c = CHR ''n'' then (if take 3 r = ''ull'' then Some (JNull, drop 3 r) else None)
          else if c = CHR ''t'' then (if take 3 r = ''rue'' then Some (JBool True, drop 3 r) else None)
          else if c = CHR ''f'' then (if take 4 r = ''alse'' then Some (JBool False, drop 4 r) else None)
          else number (c # r))"
| "json_elements 0 s = None"
| "json_elements (Suc f) s =
     (case json_value f s of
        None \<Rightarrow> None
      | Some (x, r) \<Rightarrow>
          (case skip_ws r of
             [] \<Rightarrow> None
           | c # r2 \<Rightarrow>
               if c = CHR '','' then
                 (case json_elements f r2 of None \<Rightarrow> None | Some (xs, r3) \<Rightarrow> Some (x # xs, r3))
               else if c = CHR '']'' then Some ([x], r2)
               else None))"
| "json_members 0 s = None"
| "json_members (Suc f) s =
     (case skip_ws s of
        [] \<Rightarrow> None
      | q # r0 \<Rightarrow>
          if q \<noteq> dquote then None
          else (case string_body r0 of
                  None \<Rightarrow> None
                | Some (k, r1) \<Rightarrow>
                    (case skip_ws r1 of
                       [] \<Rightarrow> None
                     | co # r2 \<Rightarrow>
                         if co \<noteq> CHR '':'' then None
                         else (case json_value f r2 of
                                 None \<Rightarrow> None
                               | Some (x, r) \<Rightarrow>
                                   (case skip_ws r of
                                      [] \<Rightarrow> None
                                    | c # r3 \<Rightarrow>
                                        if c = CHR '','' then
                                          (case json_members f r3 of
                                             None \<Rightarrow> None
                                           | Some (kvs, r4) \<Rightarrow> Some ((k, x) # kvs, r4))
                                        else if c = CHR ''}'' then Some ([(k, x)], r3)
                                        else None)))))"

definition parse_json :: "string \<Rightarrow> json option" where
  "parse_json s =
     (case json_value (2 * length s + 2) s of
        None \<Rightarrow> None
      | Some (j, r) \<Rightarrow> if skip_ws r = [] then Some j else None)"

section \<open>Encoding then decoding\<close>

text \<open>A tree whose number literals follow the grammar.\<close>

fun wf_json :: "json \<Rightarrow> bool" where
  "wf_json (JNum l) = (valid_number l \<and> list_all number_char l)"
| "wf_json (JArr xs) = list_all wf_json xs"
| "wf_json (JObj kvs) = list_all (\<lambda>kv. wf_json (snd kv)) kvs"
| "wf_json _ = True"

lemma code_hex_digit: "n < 16 \<Longrightarrow> hex_val (hex_digit n) = Some n"
  by (auto simp: hex_val_def hex_digit_def is_digit_def digit_val_def code_def)

lemma code_less [simp]: "code c < 256"
  by (simp add: code_def)

lemma char_of_code [simp]: "char_of (code c) = c"
  by (simp add: code_def)

lemma code_eq_iff: "code c = code d \<longleftrightarrow> c = d"
  by (simp add: code_def)

lemma string_body_plain:
  "c \<noteq> dquote \<Longrightarrow> c \<noteq> backslash \<Longrightarrow> 32 \<le> code c \<Longrightarrow> string_body (c # s) = prepend [c] (string_body s)"
  by (subst string_body.simps(2)) simp

lemma string_body_simple:
  "simple_escape e = Some x \<Longrightarrow> string_body (backslash # e # s) = prepend [x] (string_body s)"
  by (subst string_body.simps(2)) (auto simp: simple_escape_def split: if_splits)

lemma string_body_hex:
  "hex4 r = Some u \<Longrightarrow> u < 55296 \<Longrightarrow> string_body (backslash # CHR ''u'' # r) = prepend (utf8 u) (string_body (drop 4 r))"
  by (subst string_body.simps(2)) simp

lemma hex4_code:
  "code c < 128 \<Longrightarrow> hex4 (CHR ''0'' # CHR ''0'' # hex_digit (code c div 16) # hex_digit (code c mod 16) # s) = Some (code c)"
  by (simp add: code_hex_digit) (simp add: hex_val_def is_digit_def digit_val_def)

lemma string_body_escape_char: "string_body (escape_char c @ s) = prepend [c] (string_body s)"
proof -
  consider (q) "c = dquote \<or> c = backslash"
    | (b) "c \<in> {CHR 0x08, CHR 0x0C, CHR 0x0A, CHR 0x0D, CHR 0x09}"
    | (u) "c \<notin> {dquote, backslash, CHR 0x08, CHR 0x0C, CHR 0x0A, CHR 0x0D, CHR 0x09}"
        "code c < 32 \<or> c \<in> {CHR ''<'', CHR ''>'', CHR ''&''}"
    | (p) "c \<notin> {dquote, backslash}" "32 \<le> code c" "c \<notin> {CHR ''<'', CHR ''>'', CHR ''&''}"
    by fastforce
  then show ?thesis
  proof cases
    case q
    then show ?thesis by (auto simp: escape_char_def string_body_simple simple_escape_def)
  next
    case b
    then show ?thesis by (auto simp: escape_char_def string_body_simple simple_escape_def)
  next
    case u
    then have "escape_char c = [backslash, CHR ''u'', CHR ''0'', CHR ''0'', hex_digit (code c div 16), hex_digit (code c mod 16)]"
      by (simp add: escape_char_def)
    moreover have c: "code c < 128" using u(2) by (auto simp: code_def)
    ultimately show ?thesis by (simp add: string_body_hex [OF hex4_code [OF c]] utf8_def)
  next
    case p
    have "code (CHR 0x08) = 8" "code (CHR 0x0C) = 12" "code (CHR 0x0A) = 10" "code (CHR 0x0D) = 13"
      "code (CHR 0x09) = 9" by (simp_all add: code_def)
    with p(2) have n: "c \<noteq> CHR 0x08" "c \<noteq> CHR 0x0C" "c \<noteq> CHR 0x0A" "c \<noteq> CHR 0x0D" "c \<noteq> CHR 0x09"
      by fastforce+
    from p have "escape_char c = [c]" unfolding escape_char_def by (simp add: n)
    with p show ?thesis by (simp add: string_body_plain)
  qed
qed

lemma string_body_escape: "string_body (escape t @ dquote # s) = Some (t, s)"
proof (induction t rule: escape.induct)
  case 1
  show ?case by (simp add: string_body.simps(2))
next
  case (2 c t)
  have bytes: "char_of (226::nat) = CHR 0xE2" "char_of (128::nat) = CHR 0x80"
    "char_of (168::nat) = CHR 0xA8" "char_of (169::nat) = CHR 0xA9"
    using char_of_char [where 'a = nat, of "CHR 0xE2"] char_of_char [where 'a = nat, of "CHR 0x80"]
      char_of_char [where 'a = nat, of "CHR 0xA8"] char_of_char [where 'a = nat, of "CHR 0xA9"] by simp_all
  have sep: "string_body (backslash # CHR ''u'' # ''202'' @ d # r) = prepend [CHR 0xE2, CHR 0x80, x] (string_body r)"
    if "(d, x) \<in> {(CHR ''8'', CHR 0xA8), (CHR ''9'', CHR 0xA9)}" for d x r
    using that by (auto simp: string_body_hex hex_val_def is_digit_def digit_val_def utf8_def bytes)
  show ?case
  proof -
    have two: "take 2 t = [a, b] \<longleftrightarrow> t = a # b # drop 2 t" for a b
      by (cases t; cases "tl t") auto
    consider (a) r where "c = CHR 0xE2" "t = CHR 0x80 # CHR 0xA8 # r"
      | (b) r where "c = CHR 0xE2" "t = CHR 0x80 # CHR 0xA9 # r"
      | (n) "\<not> (c = CHR 0xE2 \<and> take 2 t = [CHR 0x80, CHR 0xA8])" "\<not> (c = CHR 0xE2 \<and> take 2 t = [CHR 0x80, CHR 0xA9])"
      unfolding two by blast
    then show ?thesis
    proof cases
      case a
      with 2(1) sep [of "CHR ''8''" "CHR 0xA8"] show ?thesis by (simp add: prepend_def)
    next
      case b
      with 2(2) sep [of "CHR ''9''" "CHR 0xA9"] show ?thesis by (simp add: prepend_def)
    next
      case n
      have "escape (c # t) = escape_char c @ escape t" using n by auto
      with 2(3) n show ?thesis by (simp add: string_body_escape_char prepend_def)
    qed
  qed
qed

text \<open>What may follow a number literal.\<close>

definition ends_number :: "string \<Rightarrow> bool" where
  "ends_number s \<longleftrightarrow> s = [] \<or> \<not> number_char (hd s)"

lemma ends_number_simps [simp]:
  "ends_number []" "ends_number (CHR '','' # s)" "ends_number (CHR '']'' # s)" "ends_number (CHR ''}'' # s)"
  by (simp_all add: ends_number_def number_char_def is_digit_def)

lemma number_app:
  assumes "valid_number l" "list_all number_char l" "ends_number s"
  shows "number (l @ s) = Some (JNum l, s)"
proof -
  have "takeWhile number_char (l @ s) = l" "dropWhile number_char (l @ s) = s"
    using assms(2,3) by (cases s; simp add: ends_number_def takeWhile_append dropWhile_append list_all_iff)+
  with assms(1) show ?thesis by (simp add: number_def)
qed

lemma skip_ws_head [simp]: "\<not> is_ws c \<Longrightarrow> skip_ws (c # s) = c # s"
  by (simp add: skip_ws_def)

lemma not_ws_marks [simp]:
  "\<not> is_ws dquote" "\<not> is_ws (CHR ''['')" "\<not> is_ws (CHR '']'')" "\<not> is_ws (CHR ''{'')" "\<not> is_ws (CHR ''}'')"
  "\<not> is_ws (CHR '':'')" "\<not> is_ws (CHR '','')" "\<not> is_ws (CHR ''n'')" "\<not> is_ws (CHR ''t'')" "\<not> is_ws (CHR ''f'')"
  by (simp_all add: is_ws_def)

lemma valid_number_head:
  "valid_number (c # l) \<Longrightarrow> is_digit c \<or> c = CHR ''-''"
  by (auto simp: valid_number_def valid_unsigned_def split: if_splits)

lemma number_cons:
  assumes "valid_number l"
  obtains c r where "l = c # r" "is_digit c \<or> c = CHR ''-''"
proof (cases l)
  case Nil
  with assms show ?thesis by (simp add: valid_number_def)
next
  case (Cons c r)
  with assms valid_number_head have "is_digit c \<or> c = CHR ''-''" by blast
  with Cons that show ?thesis by blast
qed

lemma number_head_neq:
  assumes "is_digit c \<or> c = CHR ''-''"
  shows "\<not> is_ws c" "c \<noteq> dquote" "c \<noteq> CHR ''[''" "c \<noteq> CHR '']''" "c \<noteq> CHR ''{''" "c \<noteq> CHR ''}''"
    "c \<noteq> CHR ''n''" "c \<noteq> CHR ''t''" "c \<noteq> CHR ''f''"
  using assms by (auto simp: is_ws_def is_digit_def)

lemma print_json_head:
  "wf_json j \<Longrightarrow> \<exists>c r. print_json j = c # r \<and> \<not> is_ws c \<and> c \<noteq> CHR '']'' \<and> c \<noteq> CHR ''}''"
proof (cases j)
  case (JNum l)
  moreover assume "wf_json j"
  ultimately obtain c r where "l = c # r" "is_digit c \<or> c = CHR ''-''"
    using number_cons [of l] by auto
  with JNum number_head_neq [of c] show ?thesis by simp
qed (auto simp: quote_def)

abbreviation decodes :: "json \<Rightarrow> bool" where
  "decodes j \<equiv> \<forall>f rest. 2 * length (print_json j) \<le> f \<longrightarrow> ends_number rest \<longrightarrow>
     json_value f (print_json j @ rest) = Some (j, rest)"

lemma json_elements_print:
  assumes "xs \<noteq> []" "\<forall>x \<in> set xs. decodes x \<and> wf_json x" "2 * length (commas (map print_json xs)) + 1 \<le> f"
  shows "json_elements f (commas (map print_json xs) @ CHR '']'' # rest) = Some (xs, rest)"
  using assms
proof (induction xs arbitrary: f rest)
  case (Cons x xs)
  obtain g where g: "f = Suc g" using Cons.prems(3) by (cases f) auto
  obtain c r where c: "print_json x = c # r" using print_json_head [of x] Cons.prems(2) by auto
  show ?case
  proof (cases xs)
    case Nil
    with Cons.prems g show ?thesis by simp
  next
    case (Cons y ys)
    with Cons.prems g c Cons.IH [of g rest] show ?thesis by simp
  qed
qed simp

abbreviation print_member :: "string \<times> json \<Rightarrow> string" where
  "print_member kv \<equiv> quote (fst kv) @ CHR '':'' # print_json (snd kv)"

lemma json_members_print:
  assumes "kvs \<noteq> []" "\<forall>kv \<in> set kvs. decodes (snd kv) \<and> wf_json (snd kv)"
    "2 * length (commas (map print_member kvs)) + 1 \<le> f"
  shows "json_members f (commas (map print_member kvs) @ CHR ''}'' # rest) = Some (kvs, rest)"
  using assms
proof (induction kvs arbitrary: f rest)
  case (Cons kv kvs)
  obtain g where g: "f = Suc g" using Cons.prems(3) by (cases f) auto
  have q: "string_body (escape k @ dquote # s) = Some (k, s)" for k s by (rule string_body_escape)
  show ?case
  proof (cases kvs)
    case Nil
    with Cons.prems g show ?thesis by (simp add: quote_def q)
  next
    case (Cons y ys)
    with Cons.prems g Cons.IH [of g rest] show ?thesis by (simp add: quote_def q)
  qed
qed simp

lemma json_value_print: "wf_json j \<Longrightarrow> decodes j"
proof (induction j)
  case (JNum l)
  show ?case
  proof (intro allI impI)
    fix f rest assume f: "2 * length (print_json (JNum l)) \<le> f" and e: "ends_number rest"
    obtain c r where l: "l = c # r" "is_digit c \<or> c = CHR ''-''"
      using JNum number_cons [of l] by auto
    obtain g where g: "f = Suc g" using f l by (cases f) auto
    have "number (l @ rest) = Some (JNum l, rest)" using JNum e by (intro number_app) auto
    with l number_head_neq [OF l(2)] show "json_value f (print_json (JNum l) @ rest) = Some (JNum l, rest)"
      by (simp add: g)
  qed
next
  case (JArr xs)
  show ?case
  proof (intro allI impI)
    fix f rest assume f: "2 * length (print_json (JArr xs)) \<le> f" and e: "ends_number rest"
    obtain g where g: "f = Suc g" using f by (cases f) auto
    show "json_value f (print_json (JArr xs) @ rest) = Some (JArr xs, rest)"
    proof (cases xs)
      case (Cons x ys)
      have all: "\<forall>x \<in> set xs. decodes x \<and> wf_json x" using JArr by (auto simp: list_all_iff)
      have "json_elements g (commas (map print_json xs) @ CHR '']'' # rest) = Some (xs, rest)"
        by (rule json_elements_print) (use all f g Cons in auto)
      moreover obtain c r where "commas (map print_json xs) = c # r" "\<not> is_ws c" "c \<noteq> CHR '']''"
        using print_json_head [of x] all Cons by (cases ys) auto
      ultimately show ?thesis by (simp add: g)
    qed (simp add: g)
  qed
next
  case (JObj kvs)
  show ?case
  proof (intro allI impI)
    fix f rest assume f: "2 * length (print_json (JObj kvs)) \<le> f" and e: "ends_number rest"
    obtain g where g: "f = Suc g" using f by (cases f) auto
    show "json_value f (print_json (JObj kvs) @ rest) = Some (JObj kvs, rest)"
    proof (cases kvs)
      case (Cons kv ys)
      have all: "\<forall>kv \<in> set kvs. decodes (snd kv) \<and> wf_json (snd kv)"
        using JObj by (fastforce simp: list_all_iff)
      have "json_members g (commas (map print_member kvs) @ CHR ''}'' # rest) = Some (kvs, rest)"
        by (rule json_members_print) (use all f g Cons in auto)
      moreover obtain r where "commas (map print_member kvs) = dquote # r"
        using Cons by (cases ys) (auto simp: quote_def)
      ultimately show ?thesis by (simp add: g)
    qed (simp add: g)
  qed
next
  case (JStr t)
  show ?case
  proof (intro allI impI)
    fix f rest assume "2 * length (print_json (JStr t)) \<le> f"
    then obtain g where "f = Suc g" by (cases f) (auto simp: quote_def)
    then show "json_value f (print_json (JStr t) @ rest) = Some (JStr t, rest)"
      by (simp add: quote_def string_body_escape)
  qed
next
  case JNull
  show ?case
  proof (intro allI impI)
    fix f rest assume "2 * length (print_json JNull) \<le> f"
    then obtain g where "f = Suc g" by (cases f) auto
    then show "json_value f (print_json JNull @ rest) = Some (JNull, rest)" by simp
  qed
next
  case (JBool b)
  show ?case
  proof (intro allI impI)
    fix f rest assume "2 * length (print_json (JBool b)) \<le> f"
    then obtain g where "f = Suc g" by (cases f) (auto split: if_splits)
    then show "json_value f (print_json (JBool b) @ rest) = Some (JBool b, rest)" by simp
  qed
qed

lemma parse_print_json: "wf_json j \<Longrightarrow> parse_json (print_json j) = Some j"
proof -
  assume "wf_json j"
  from json_value_print [OF this] have "json_value f (print_json j @ []) = Some (j, [])"
    if "2 * length (print_json j) \<le> f" for f using that by (blast intro: ends_number_simps(1))
  from this [of "2 * length (print_json j) + 2"] show ?thesis
    by (simp add: parse_json_def skip_ws_def del: json_value.simps)
qed

interpretation json_codec: codec print_json parse_json wf_json
  by unfold_locales (rule parse_print_json)
section \<open>What the decoder accepts\<close>

lemma number_wf: "number s = Some (j, r) \<Longrightarrow> wf_json j"
  by (auto simp: number_def Let_def list_all_iff split: if_splits dest: set_takeWhileD)

text \<open>Every tree that the decoder builds has numbers of the grammar only.\<close>

lemma json_value_wf:
  "json_value f s = Some (j, r) \<Longrightarrow> wf_json j"
  "json_elements f s = Some (js, r) \<Longrightarrow> list_all wf_json js"
  "json_members f s = Some (kvs, r) \<Longrightarrow> list_all (\<lambda>kv. wf_json (snd kv)) kvs"
proof (induction f s and f s and f s arbitrary: j r and js r and kvs r rule: json_value_json_elements_json_members.induct)
  case (2 f s)
  then show ?case
    by (auto split: list.splits if_splits option.splits prod.splits dest: number_wf)
next
  case (4 f s)
  then show ?case
    by (auto split: list.splits if_splits option.splits prod.splits)
next
  case (6 f s)
  then show ?case
    by (auto split: list.splits if_splits option.splits prod.splits)
qed simp_all

end
