(* ===== verification/GoTime.thy ===== *)
theory GoTime
  imports Prelude
begin

text \<open>
  The part of Go's standard package \<open>time\<close> that the program uses. An \<open>instant\<close> is the number of
  nanoseconds since the Unix epoch; the location of a \<open>time.Time\<close> enters only where civil fields
  are read, as the offset of a fixed zone in seconds east of UTC (0 for \<open>time.UTC\<close>).
\<close>

section \<open>Instants and durations\<close>

type_synonym instant = int
type_synonym duration = int

definition nanosecond :: int where "nanosecond = 1"
definition second :: int where "second = 1000000000"
definition minute :: int where "minute = 60000000000"
definition hour :: int where "hour = 3600000000000"
definition day_ns :: int where "day_ns = 86400000000000"

lemmas unit_defs = second_def minute_def hour_def day_ns_def

text \<open>\<open>t.Unix()\<close>.\<close>

definition unix :: "instant \<Rightarrow> int" where
  "unix t = t div second"

text \<open>The zero \<open>time.Time\<close>, January 1 of year 1.\<close>

definition zero_time :: instant where
  "zero_time = -62135596800 * second"

definition is_zero :: "instant \<Rightarrow> bool" where
  "is_zero t \<longleftrightarrow> t = zero_time"

text \<open>\<open>t.Add(d)\<close>: exact for every duration on a representable instant.\<close>

definition add_dur :: "instant \<Rightarrow> duration \<Rightarrow> instant" where
  "add_dur t d = t + d"

text \<open>\<open>time.Duration(n) * unit\<close>: a 64-bit product.\<close>

definition dur_mul :: "int \<Rightarrow> duration \<Rightarrow> duration" where
  "dur_mul n d = wrap64 (n * d)"

section \<open>The proleptic Gregorian calendar\<close>

definition leap :: "int \<Rightarrow> bool" where
  "leap y \<longleftrightarrow> y mod 4 = 0 \<and> (y mod 100 \<noteq> 0 \<or> y mod 400 = 0)"

text \<open>Days before January 1 of a year, counted from January 1 of year 1.\<close>

definition year_start :: "int \<Rightarrow> int" where
  "year_start y = 365 * (y - 1) + (y - 1) div 4 - (y - 1) div 100 + (y - 1) div 400"

text \<open>Days before a month (0 for January to 11; 12 is the next year) in its year.\<close>

definition month_off :: "bool \<Rightarrow> int \<Rightarrow> int" where
  "month_off l m =
     (if m \<le> 0 then 0 else if m = 1 then 31 else
      (if l then 1 else 0) +
      (if m = 2 then 59 else if m = 3 then 90 else if m = 4 then 120 else if m = 5 then 151
       else if m = 6 then 181 else if m = 7 then 212 else if m = 8 then 243
       else if m = 9 then 273 else if m = 10 then 304 else if m = 11 then 334 else 365))"

text \<open>The first day of a month, given by the number of months since January of year 0.\<close>

definition month_start :: "int \<Rightarrow> int" where
  "month_start k = year_start (k div 12) + month_off (leap (k div 12)) (k mod 12)"

text \<open>The day number of a civil date, with \<open>time.Date\<close>'s normalisation: a month outside 1 to 12
  moves the year, a day outside the month moves the date.\<close>

definition day_number :: "int \<Rightarrow> int \<Rightarrow> int \<Rightarrow> int" where
  "day_number y m d = month_start (12 * y + m - 1) + d - 1"

text \<open>The year of a day number and the day in that year, by 400-, 100-, 4- and 1-year cycles.\<close>

definition year_yday :: "int \<Rightarrow> int \<times> int" where
  "year_yday n =
     (let a = n div 146097; r1 = n mod 146097;
          c = min 3 (r1 div 36524); r2 = r1 - 36524 * c;
          q = r2 div 1461; r3 = r2 mod 1461;
          e = min 3 (r3 div 365)
      in (400 * a + 100 * c + 4 * q + e + 1, r3 - 365 * e))"

fun month_search :: "bool \<Rightarrow> int \<Rightarrow> nat \<Rightarrow> nat" where
  "month_search l yd 0 = 0"
| "month_search l yd (Suc m) = (if month_off l (int (Suc m)) \<le> yd then Suc m else month_search l yd m)"

definition month_of :: "bool \<Rightarrow> int \<Rightarrow> int" where
  "month_of l yd = int (month_search l yd 11)"

text \<open>Year, month (1 to 12) and day of month.\<close>

definition civil :: "int \<Rightarrow> int \<times> int \<times> int" where
  "civil n = (let (y, yd) = year_yday n; m = month_of (leap y) yd
              in (y, m + 1, yd - month_off (leap y) m + 1))"

subsection \<open>Month lengths\<close>

lemma year_start_Suc: "year_start (y + 1) = year_start y + 365 + (if leap y then 1 else 0)"
proof -
  have d: "y div k = (y - 1) div k + (if y mod k = 0 then 1 else 0)" if "0 < k" for k :: int
  proof (cases "y mod k = 0")
    case True
    then have "y - 1 = k * (y div k - 1) + (k - 1)"
      using div_mult_mod_eq [of y k] by (simp add: algebra_simps)
    then have "(y - 1) div k = y div k - 1"
      by (rule int_div_pos_eq) (use that in auto)
    with True show ?thesis by simp
  next
    case False
    have eq: "y - 1 = k * (y div k) + (y mod k - 1)" by simp
    have "0 < y mod k" "y mod k < k"
      using False that pos_mod_sign [of k y] pos_mod_bound [of k y] by linarith+
    then have "(y - 1) div k = y div k" by (intro int_div_pos_eq [OF eq]) auto
    with False show ?thesis by simp
  qed
  define q r P where "q k = y div k" and "r k = (y - 1) div k" and "P k \<longleftrightarrow> y mod k = 0" for k
  have d': "q 4 = r 4 + (if P 4 then 1 else 0)" "q 100 = r 100 + (if P 100 then 1 else 0)"
    "q 400 = r 400 + (if P 400 then 1 else 0)"
    unfolding q_def r_def P_def by (rule d; simp)+
  have "P a" if "P b" "a dvd b" for a b
    using that unfolding P_def by (meson dvd_trans mod_0_imp_dvd dvd_imp_mod_0)
  then have imp: "P 400 \<longrightarrow> P 100" "P 100 \<longrightarrow> P 4" by auto
  have ys: "year_start (y + 1) = 365 * y + q 4 - q 100 + q 400"
    "year_start y = 365 * (y - 1) + r 4 - r 100 + r 400"
    by (simp_all add: year_start_def q_def r_def)
  have l: "leap y \<longleftrightarrow> P 4 \<and> (\<not> P 100 \<or> P 400)" by (simp add: leap_def P_def)
  show ?thesis unfolding ys l d'
    using imp by (cases "P 4"; cases "P 100"; cases "P 400") simp_all
qed

lemma month_cases:
  "0 \<le> m \<Longrightarrow> m \<le> 11 \<Longrightarrow> m = 0 \<or> m = 1 \<or> m = 2 \<or> m = 3 \<or> m = 4 \<or> m = 5 \<or> m = 6 \<or> m = 7
     \<or> m = 8 \<or> m = 9 \<or> m = 10 \<or> m = (11::int)"
  by arith

lemma month_off_Suc: "0 \<le> m \<Longrightarrow> m \<le> 11 \<Longrightarrow> month_off l m + 28 \<le> month_off l (m + 1) \<and> month_off l (m + 1) \<le> month_off l m + 31"
  by (drule (1) month_cases) (auto simp: month_off_def)

lemma month_start_Suc:
  "28 \<le> month_start (k + 1) - month_start k" "month_start (k + 1) - month_start k \<le> 31"
proof -
  define y m where "y = k div 12" and "m = k mod 12"
  have m: "0 \<le> m" "m \<le> 11" by (simp_all add: m_def)
  have k: "k = 12 * y + m" by (simp add: y_def m_def)
  have "28 \<le> month_start (k + 1) - month_start k \<and> month_start (k + 1) - month_start k \<le> 31"
  proof (cases "m = 11")
    case True
    then have "(k + 1) div 12 = y + 1" "(k + 1) mod 12 = 0"
      using k by (auto intro!: int_div_pos_eq [where r = 0] int_mod_pos_eq [where q = "y + 1"])
    with True show ?thesis
      by (simp add: month_start_def flip: y_def m_def)
         (simp add: year_start_Suc month_off_def)
  next
    case False
    with m have *: "(k + 1) div 12 = y" "(k + 1) mod 12 = m + 1"
      using k by (auto intro!: int_div_pos_eq [where r = "m + 1"] int_mod_pos_eq [where q = y])
    with month_off_Suc [OF m, of "leap y"] show ?thesis
      by (simp add: month_start_def flip: y_def m_def)
  qed
  then show "28 \<le> month_start (k + 1) - month_start k" "month_start (k + 1) - month_start k \<le> 31"
    by auto
qed

lemma month_start_add:
  "28 * int n \<le> month_start (k + int n) - month_start k"
  "month_start (k + int n) - month_start k \<le> 31 * int n"
proof (induction n)
  case (Suc n)
  case 1
  from Suc month_start_Suc [of "k + int n"] show ?case by (simp add: algebra_simps)
  case 2
  from Suc month_start_Suc [of "k + int n"] show ?case by (simp add: algebra_simps)
qed simp_all

subsection \<open>Civil dates and day numbers are inverse\<close>

definition days_in :: "int \<Rightarrow> int \<Rightarrow> int" where
  "days_in y m = month_off (leap y) m - month_off (leap y) (m - 1)"

definition valid_date :: "int \<Rightarrow> int \<Rightarrow> int \<Rightarrow> bool" where
  "valid_date y m d \<longleftrightarrow> 1 \<le> m \<and> m \<le> 12 \<and> 1 \<le> d \<and> d \<le> days_in y m"

lemma year_yday:
  assumes "year_yday n = (y, yd)"
  shows "year_start y + yd = n" "0 \<le> yd" "yd < 365 + (if leap y then 1 else 0)"
proof -
  define a r1 where "a = n div 146097" and "r1 = n mod 146097"
  define c where "c = min 3 (r1 div 36524)"
  define r2 where "r2 = r1 - 36524 * c"
  define q r3 where "q = r2 div 1461" and "r3 = r2 mod 1461"
  define e where "e = min 3 (r3 div 365)"
  have y: "y = 400 * a + 100 * c + 4 * q + e + 1" and yd: "yd = r3 - 365 * e"
  proof -
    have "year_yday n = (400 * a + 100 * c + 4 * q + e + 1, r3 - 365 * e)"
      unfolding year_yday_def Let_def a_def r1_def c_def r2_def q_def r3_def e_def by (rule refl)
    with assms show "y = 400 * a + 100 * c + 4 * q + e + 1" "yd = r3 - 365 * e" by simp_all
  qed
  have n: "n = 146097 * a + r1" and r1: "0 \<le> r1" "r1 < 146097"
    by (simp_all add: a_def r1_def)
  have c: "0 \<le> c" "c \<le> 3" and r2: "0 \<le> r2" "c < 3 \<longrightarrow> r2 < 36524" "r2 \<le> 36524"
  proof -
    define z w where "z = r1 div 36524" and "w = r1 mod 36524"
    have "r1 = 36524 * z + w" "0 \<le> w" "w < 36524" "0 \<le> z"
      using r1 by (simp_all add: z_def w_def pos_imp_zdiv_nonneg_iff)
    with r1 show "0 \<le> c" "c \<le> 3" "0 \<le> r2" "c < 3 \<longrightarrow> r2 < 36524" "r2 \<le> 36524"
      unfolding c_def r2_def z_def [symmetric] min_def by auto
  qed
  have r3: "0 \<le> r3" "r3 < 1461" "r2 = 1461 * q + r3"
    unfolding q_def r3_def by auto
  have q: "0 \<le> q" "q \<le> 24" using r2 unfolding q_def by auto
  have q24: "c < 3 \<longrightarrow> q = 24 \<longrightarrow> r3 < 1460" using r2 r3 by auto
  have e: "0 \<le> e" "e \<le> 3" and yd': "0 \<le> r3 - 365 * e" "e < 3 \<longrightarrow> r3 - 365 * e < 365"
    "r3 - 365 * e \<le> 365" "e = 3 \<longrightarrow> r3 = 1460 \<longrightarrow> r3 - 365 * e = 365"
    using r3 unfolding e_def by (auto simp: min_def)
  have d4: "(y - 1) div 4 = 100 * a + 25 * c + q"
    by (rule int_div_pos_eq [where r = e]) (use y e in auto)
  have d100: "(y - 1) div 100 = 4 * a + c"
    by (rule int_div_pos_eq [where r = "4 * q + e"]) (use y e q in auto)
  have d400: "(y - 1) div 400 = a"
    by (rule int_div_pos_eq [where r = "100 * c + 4 * q + e"]) (use y e q c in auto)
  show "year_start y + yd = n"
    unfolding year_start_def d4 d100 d400 using n y yd r3 r2_def by simp
  show "0 \<le> yd" using yd yd' by simp
  have "leap y" if "yd = 365"
  proof -
    from that yd yd' e have e3: "e = 3" and "r3 = 1460" by auto
    with q24 c have "q \<noteq> 24 \<or> c = 3" by auto
    moreover have "y mod 4 = 0"
      by (rule int_mod_pos_eq [where q = "100 * a + 25 * c + q + 1"]) (use y e3 in auto)
    moreover have "y mod 100 = 4 * q + 4" if "q \<noteq> 24"
      by (rule int_mod_pos_eq [where q = "4 * a + c"]) (use y e3 q that in auto)
    moreover have "y mod 400 = 0" if "q = 24 \<and> c = 3"
      by (rule int_mod_pos_eq [where q = "a + 1"]) (use y e3 that in auto)
    ultimately show ?thesis unfolding leap_def using q by force
  qed
  moreover have "yd \<le> 365" using yd yd' by simp
  ultimately show "yd < 365 + (if leap y then 1 else 0)" by (cases "yd = 365") auto
qed

lemma month_off_mono: "0 \<le> i \<Longrightarrow> i < j \<Longrightarrow> j \<le> 12 \<Longrightarrow> month_off l i + 28 \<le> month_off l j"
proof (induction "nat (j - i)" arbitrary: j)
  case (Suc k)
  have "month_off l i + 28 \<le> month_off l (j - 1) \<or> i = j - 1"
    using Suc(1) [of "j - 1"] Suc(2-) by auto
  with month_off_Suc [of "j - 1" l] Suc(2-) show ?case by auto
qed simp

lemma month_off_bounds [simp]: "month_off l 0 = 0" "month_off l 12 = 365 + (if l then 1 else 0)"
  by (simp_all add: month_off_def)

lemma month_off_range: "0 \<le> month_off l m" "month_off l m \<le> 366"
  by (simp_all add: month_off_def)

lemma month_search:
  assumes "0 \<le> yd"
  shows "month_search l yd k \<le> k" "month_off l (int (month_search l yd k)) \<le> yd"
    "month_search l yd k < j \<Longrightarrow> j \<le> k \<Longrightarrow> yd < month_off l (int j)"
  using assms
proof (induction k)
  case (Suc k)
  { case 1 then show ?case using Suc by (simp add: le_SucI) }
  { case 2 then show ?case using Suc by simp }
  { case 3 then show ?case using Suc by (cases "j = Suc k") (auto split: if_splits) }
qed (auto simp: month_off_def)

lemma month_of:
  assumes "0 \<le> yd" "yd < 365 + (if l then 1 else 0)"
  shows "0 \<le> month_of l yd" "month_of l yd \<le> 11"
    "month_off l (month_of l yd) \<le> yd" "yd < month_off l (month_of l yd + 1)"
proof -
  let ?k = "month_search l yd 11"
  from month_search [OF assms(1), of l 11] have k: "?k \<le> 11" "month_off l (int ?k) \<le> yd" by auto
  then show "0 \<le> month_of l yd" "month_of l yd \<le> 11" "month_off l (month_of l yd) \<le> yd"
    by (simp_all add: month_of_def)
  show "yd < month_off l (month_of l yd + 1)"
  proof (cases "?k = 11")
    case True
    with assms show ?thesis by (simp add: month_of_def)
  next
    case False
    with k have "Suc ?k \<le> 11" by simp
    from month_search(3) [OF assms(1) lessI this] show ?thesis
      by (simp add: month_of_def add.commute)
  qed
qed

lemma month_of_unique:
  assumes "0 \<le> m" "m \<le> 11" "month_off l m \<le> yd" "yd < month_off l (m + 1)"
  shows "month_of l yd = m"
proof -
  have yd: "0 \<le> yd" "yd < 365 + (if l then 1 else 0)"
    using month_off_mono [of 0 m l] month_off_mono [of "m + 1" 12 l] assms
    by (cases "m = 0"; cases "m = 11"; auto)+
  note k = month_of [OF yd]
  have "\<not> month_of l yd < m"
    using month_off_mono [of "month_of l yd + 1" m l] k assms by (cases "month_of l yd + 1 = m") auto
  moreover have "\<not> m < month_of l yd"
    using month_off_mono [of "m + 1" "month_of l yd" l] k assms by (cases "m + 1 = month_of l yd") auto
  ultimately show ?thesis by simp
qed

lemma day_number_month:
  "1 \<le> m \<Longrightarrow> m \<le> 12 \<Longrightarrow> day_number y m d = year_start y + month_off (leap y) (m - 1) + d - 1"
proof -
  assume "1 \<le> m" "m \<le> 12"
  then have "(12 * y + m - 1) div 12 = y" "(12 * y + m - 1) mod 12 = m - 1"
    by (auto intro!: int_div_pos_eq [where r = "m - 1"] int_mod_pos_eq [where q = y])
  then show ?thesis by (simp add: day_number_def month_start_def)
qed

lemma civil:
  assumes "civil n = (y, m, d)"
  shows "valid_date y m d" "day_number y m d = n"
proof -
  obtain y' yd where yy: "year_yday n = (y', yd)" by fastforce
  note yy' = year_yday [OF yy] and mo = month_of [OF year_yday(2,3) [OF yy]]
  from assms yy have e: "y' = y" "m = month_of (leap y) yd + 1"
    "d = yd - month_off (leap y) (month_of (leap y) yd) + 1"
    by (auto simp: civil_def Let_def)
  show "valid_date y m d" using mo e by (simp add: valid_date_def days_in_def add.commute)
  show "day_number y m d = n" using mo e yy' by (simp add: day_number_month)
qed

lemma year_start_mono: "y \<le> z \<Longrightarrow> year_start y + 365 * (z - y) \<le> year_start z"
proof (induction "nat (z - y)" arbitrary: z)
  case (Suc k)
  from Suc(2) have "k = nat (z - 1 - y)" "y \<le> z - 1" by auto
  from Suc(1) [OF this] have "year_start y + 365 * (z - 1 - y) \<le> year_start (z - 1)" by simp
  moreover have "year_start z = year_start (z - 1) + 365 + (if leap (z - 1) then 1 else 0)"
    using year_start_Suc [of "z - 1"] by simp
  ultimately show ?case by (simp split: if_splits)
qed simp

lemma year_yday_unique:
  assumes "0 \<le> yd" "yd < 365 + (if leap y then 1 else 0)"
  shows "year_yday (year_start y + yd) = (y, yd)"
proof -
  obtain y' yd' where yy: "year_yday (year_start y + yd) = (y', yd')" by fastforce
  note e = year_yday [OF yy]
  have "\<not> y' < y" using year_start_mono [of "y' + 1" y] year_start_Suc [of y'] e assms by auto
  moreover have "\<not> y < y'" using year_start_mono [of "y + 1" y'] year_start_Suc [of y] e assms by auto
  ultimately have "y' = y" by simp
  with e yy show ?thesis by simp
qed

lemma civil_day_number:
  assumes "valid_date y m d"
  shows "civil (day_number y m d) = (y, m, d)"
proof -
  let ?yd = "month_off (leap y) (m - 1) + d - 1"
  have m: "1 \<le> m" "m \<le> 12" and d: "1 \<le> d" "d \<le> month_off (leap y) m - month_off (leap y) (m - 1)"
    using assms by (auto simp: valid_date_def days_in_def)
  have yd: "0 \<le> ?yd" "?yd < 365 + (if leap y then 1 else 0)"
    using month_off_mono [of 0 "m - 1" "leap y"] month_off_mono [of m 12 "leap y"] m d
    by (cases "m = 1"; cases "m = 12"; auto)+
  have "month_of (leap y) ?yd = m - 1" by (rule month_of_unique) (use m d in auto)
  moreover have "day_number y m d = year_start y + ?yd" using m by (simp add: day_number_month)
  ultimately show ?thesis using year_yday_unique [OF yd]
    by (simp add: civil_def)
qed

section \<open>Clock fields, \<open>time.Date\<close> and \<open>AddDate\<close>\<close>

definition unix_epoch_day :: int where
  "unix_epoch_day = 719162"

definition local_secs :: "int \<Rightarrow> instant \<Rightarrow> int" where
  "local_secs off t = unix t + off"

definition date_of :: "int \<Rightarrow> instant \<Rightarrow> int \<times> int \<times> int" where
  "date_of off t = civil (local_secs off t div 86400 + unix_epoch_day)"

definition second_of_day :: "int \<Rightarrow> instant \<Rightarrow> int" where
  "second_of_day off t = local_secs off t mod 86400"

definition hour_of :: "int \<Rightarrow> instant \<Rightarrow> int" where
  "hour_of off t = second_of_day off t div 3600"

definition minute_of :: "int \<Rightarrow> instant \<Rightarrow> int" where
  "minute_of off t = second_of_day off t mod 3600 div 60"

definition second_of :: "int \<Rightarrow> instant \<Rightarrow> int" where
  "second_of off t = second_of_day off t mod 60"

definition nanosecond_of :: "instant \<Rightarrow> int" where
  "nanosecond_of t = t mod second"

text \<open>\<open>t.Weekday()\<close>, 0 for Sunday: January 1 of year 1 was a Monday.\<close>

definition weekday :: "int \<Rightarrow> instant \<Rightarrow> int" where
  "weekday off t = (local_secs off t div 86400 + unix_epoch_day + 1) mod 7"

text \<open>\<open>time.Date\<close> in a zone \<open>off\<close> seconds east of UTC. The seconds are an \<open>int64\<close>.\<close>

definition go_date :: "int \<Rightarrow> int \<Rightarrow> int \<Rightarrow> int \<Rightarrow> int \<Rightarrow> int \<Rightarrow> int \<Rightarrow> int \<Rightarrow> instant" where
  "go_date off y m d h mi s ns =
     wrap64 ((day_number y m d - unix_epoch_day) * 86400 + h * 3600 + mi * 60 + s + ns div second - off)
       * second + ns mod second"

text \<open>\<open>t.AddDate(years, months, days)\<close>.\<close>

definition add_date :: "int \<Rightarrow> instant \<Rightarrow> int \<Rightarrow> int \<Rightarrow> int \<Rightarrow> instant" where
  "add_date off t years months days =
     (let (y, m, d) = date_of off t
      in go_date off (wrap64 (y + years)) (wrap64 (m + months)) (wrap64 (d + days))
           (hour_of off t) (minute_of off t) (second_of off t) (nanosecond_of t))"

text \<open>Instants within about 31,000 years of the epoch: far beyond any date the program meets, and
  far inside what \<open>int64\<close> seconds hold.\<close>

definition sane :: "instant \<Rightarrow> bool" where
  "sane t \<longleftrightarrow> - (10 ^ 12) \<le> unix t \<and> unix t \<le> 10 ^ 12"

lemma unix_split: "t = unix t * second + nanosecond_of t" "0 \<le> nanosecond_of t" "nanosecond_of t < second"
  by (simp_all add: unix_def nanosecond_of_def second_def)

lemma second_of_day_split:
  "hour_of off t * 3600 + minute_of off t * 60 + second_of off t = second_of_day off t"
proof -
  let ?x = "second_of_day off t"
  have "?x mod 60 = ?x mod 3600 mod 60" by (simp add: mod_mod_cancel)
  then show ?thesis
    using div_mult_mod_eq [of ?x 3600] div_mult_mod_eq [of "?x mod 3600" 60]
    unfolding hour_of_def minute_of_def second_of_def by linarith
qed

lemma year_bound:
  assumes "civil n = (y, m, d)" "\<bar>n\<bar> \<le> 10 ^ 8"
  shows "\<bar>y\<bar> \<le> 10 ^ 6"
proof -
  note c = civil [OF assms(1)]
  then have m: "1 \<le> m" "m \<le> 12" "1 \<le> d" "d \<le> days_in y m" by (auto simp: valid_date_def)
  have n: "n = year_start y + month_off (leap y) (m - 1) + d - 1"
    using c(2) day_number_month [OF m(1,2)] by simp
  have off: "0 \<le> month_off (leap y) (m - 1)" "month_off (leap y) m \<le> 366"
    using month_off_range m by auto
  have lo: "year_start y \<le> n" and hi: "n < year_start y + 366"
    using n off m by (auto simp: days_in_def)
  have "year_start 1 = 0" by (simp add: year_start_def)
  then have "1 \<le> y \<Longrightarrow> 365 * (y - 1) \<le> n" "y \<le> 1 \<Longrightarrow> n \<le> 366 - 365 * (1 - y)"
    using year_start_mono [of 1 y] year_start_mono [of y 1] lo hi by auto
  with assms(2) show ?thesis by (cases "1 \<le> y") auto
qed

lemma civil_days_bound: "civil n = (y, m, d) \<Longrightarrow> 1 \<le> m \<and> m \<le> 12 \<and> 1 \<le> d \<and> d \<le> 31"
  using civil [of n y m d] month_off_Suc [of "m - 1" "leap y"]
  by (auto simp: valid_date_def days_in_def)

lemma month_start_add_int:
  assumes "0 \<le> k"
  shows "28 * k \<le> month_start (j + k) - month_start j" "month_start (j + k) - month_start j \<le> 31 * k"
  using month_start_add [where n = "nat k" and k = j] assms by auto

text \<open>\<open>AddDate\<close> in UTC moves the instant by whole days: the days of the months passed, plus the days
  asked for.\<close>

lemma add_date_utc:
  assumes t: "sane t" and d: "date_of 0 t = (y, m, d)"
    and b: "0 \<le> 12 * years + months" "12 * years + months \<le> 10 ^ 11" "\<bar>years\<bar> \<le> 10 ^ 10"
      "\<bar>months\<bar> \<le> 10 ^ 10" "\<bar>days\<bar> \<le> 10 ^ 12"
  shows "add_date 0 t years months days =
    t + (month_start (12 * (y + years) + (m + months) - 1) - month_start (12 * y + m - 1) + days) * day_ns"
proof -
  define n where "n = unix t div 86400 + unix_epoch_day"
  have c: "civil n = (y, m, d)" using d by (simp add: date_of_def local_secs_def n_def)
  have n: "\<bar>n\<bar> \<le> 10 ^ 8" using t by (auto simp: n_def unix_epoch_day_def sane_def)
  note yb = year_bound [OF c n] and mb = civil_days_bound [OF c]
  have w: "wrap64 (y + years) = y + years" "wrap64 (m + months) = m + months" "wrap64 (d + days) = d + days"
    using yb mb b by (auto intro!: wrap64_id simp: is_int64_def)
  define K where "K = month_start (12 * (y + years) + (m + months) - 1) - month_start (12 * y + m - 1)"
  have K: "\<bar>K\<bar> \<le> 31 * 10 ^ 11"
    using month_start_add_int [OF b(1), of "12 * y + m - 1"] b(1,2)
    by (simp add: K_def algebra_simps)
  have dn: "day_number (y + years) (m + months) (d + days) = n + K + days"
    using civil(2) [OF c] by (simp add: day_number_def K_def)
  have u: "(n - unix_epoch_day) * 86400 + second_of_day 0 t = unix t"
    by (simp add: n_def second_of_day_def local_secs_def)
  have "is_int64 (unix t + (K + days) * 86400)"
    using t K b(5) by (auto simp: is_int64_def sane_def)
  moreover have "(n + K + days - unix_epoch_day) * 86400 + second_of_day 0 t = unix t + (K + days) * 86400"
    using u by (simp add: algebra_simps)
  ultimately have "wrap64 ((n + K + days - unix_epoch_day) * 86400 + second_of_day 0 t)
      = unix t + (K + days) * 86400"
    by (simp only: wrap64_id)
  then have "add_date 0 t years months days = (unix t + (K + days) * 86400) * second + nanosecond_of t"
    using d w dn second_of_day_split [of 0 t] unix_split(2,3) [of t]
    by (simp add: add_date_def go_date_def add.assoc)
  also have "\<dots> = t + (K + days) * day_ns"
    using unix_split(1) [of t] by (simp add: second_def day_ns_def algebra_simps)
  finally show ?thesis by (simp add: K_def)
qed

lemma add_days:
  assumes "sane t" "\<bar>k\<bar> \<le> 10 ^ 12"
  shows "add_date 0 t 0 0 k = t + k * day_ns"
proof -
  obtain y m d where "date_of 0 t = (y, m, d)" by (cases "date_of 0 t")
  from add_date_utc [OF assms(1) this, of 0 0 k] assms(2) show ?thesis by simp
qed

lemma add_months:
  assumes "sane t" "0 \<le> k" "k \<le> 10 ^ 10"
  shows "t + 28 * k * day_ns \<le> add_date 0 t 0 k 0" "add_date 0 t 0 k 0 \<le> t + 31 * k * day_ns"
proof -
  obtain y m d where "date_of 0 t = (y, m, d)" by (cases "date_of 0 t")
  from add_date_utc [OF assms(1) this, of 0 k 0] assms(2,3)
    month_start_add_int [OF assms(2), of "12 * y + m - 1"]
  show "t + 28 * k * day_ns \<le> add_date 0 t 0 k 0" "add_date 0 t 0 k 0 \<le> t + 31 * k * day_ns"
    by (simp_all add: day_ns_def algebra_simps)
qed

lemma add_years:
  assumes "sane t" "0 \<le> k" "k \<le> 8 * 10 ^ 8"
  shows "add_date 0 t k 0 0 = add_date 0 t 0 (12 * k) 0"
proof -
  obtain y m d where "date_of 0 t = (y, m, d)" by (cases "date_of 0 t")
  from add_date_utc [OF assms(1) this, of k 0 0] add_date_utc [OF assms(1) this, of 0 "12 * k" 0] assms(2,3)
  show ?thesis by (simp add: distrib_left add.assoc add.left_commute add.commute)
qed

end
