(* ===== verification/Rfc3339.thy ===== *)
theory Rfc3339
  imports GoTime "HOL-Library.Monad_Syntax"
begin

text \<open>
  RFC 3339 timestamps as Go's \<open>time\<close> prints and parses them: \<open>Format(time.RFC3339)\<close> and
  \<open>time.Parse(time.RFC3339, _)\<close>, and the JSON form of \<open>time.Time\<close>, which Go's decoder accepts with the
  same grammar. Printing then parsing is the identity, in the precision printed.
\<close>

section \<open>Printing\<close>

definition format_zone :: "int \<Rightarrow> string" where
  "format_zone off =
     (if off = 0 then ''Z''
      else (if off < 0 then ''-'' else ''+'') @ pad 2 (nat (\<bar>off\<bar> div 60 div 60)) @ '':''
        @ pad 2 (nat (\<bar>off\<bar> div 60 mod 60)))"

definition format_secs :: "int \<Rightarrow> instant \<Rightarrow> string" where
  "format_secs off t =
     (let (y, m, d) = date_of off t in
      pad 4 (nat y) @ ''-'' @ pad 2 (nat m) @ ''-'' @ pad 2 (nat d) @ ''T''
      @ pad 2 (nat (hour_of off t)) @ '':'' @ pad 2 (nat (minute_of off t)) @ '':''
      @ pad 2 (nat (second_of off t)))"

definition format_rfc3339 :: "int \<Rightarrow> instant \<Rightarrow> string" where
  "format_rfc3339 off t = format_secs off t @ format_zone off"

text \<open>The fraction of \<open>time.RFC3339Nano\<close>: nine digits without the trailing zeros.\<close>

fun strip_zeros :: "nat \<Rightarrow> nat \<Rightarrow> string" where
  "strip_zeros 0 n = []"
| "strip_zeros (Suc w) n =
     (if n = 0 then [] else digit (n div 10 ^ w) # strip_zeros w (n mod 10 ^ w))"

definition format_fraction :: "int \<Rightarrow> string" where
  "format_fraction ns = (if ns = 0 then [] else CHR ''.'' # strip_zeros 9 (nat ns))"

definition format_nano :: "int \<Rightarrow> instant \<Rightarrow> string" where
  "format_nano off t = format_secs off t @ format_fraction (nanosecond_of t) @ format_zone off"

section \<open>Parsing\<close>

fun lit :: "char \<Rightarrow> string \<Rightarrow> string option" where
  "lit c [] = None"
| "lit c (x # s) = (if x = c then Some s else None)"

text \<open>\<open>getnum\<close>: two digits, or one where the layout allows it.\<close>

fun getnum :: "bool \<Rightarrow> string \<Rightarrow> (int \<times> string) option" where
  "getnum fixed [] = None"
| "getnum fixed (a # s) =
     (if \<not> is_digit a then None
      else case s of
        [] \<Rightarrow> if fixed then None else Some (int (digit_val a), s)
      | b # r \<Rightarrow>
          if is_digit b then Some (10 * int (digit_val a) + int (digit_val b), r)
          else if fixed then None else Some (int (digit_val a), s))"

definition get_year :: "string \<Rightarrow> (int \<times> string) option" where
  "get_year s =
     (if 4 \<le> length s \<and> list_all is_digit (take 4 s) then Some (int (digits_val (take 4 s)), drop 4 s)
      else None)"

definition ranged :: "int \<Rightarrow> int \<Rightarrow> int \<Rightarrow> int option" where
  "ranged lo hi x = (if lo \<le> x \<and> x \<le> hi then Some x else None)"

text \<open>A fraction after the seconds, with any number of digits; nine count.\<close>

definition get_fraction :: "string \<Rightarrow> int \<times> string" where
  "get_fraction s =
     (case s of
        c # d # r \<Rightarrow>
          if (c = CHR ''.'' \<or> c = CHR '','') \<and> is_digit d then
            (let ds = takeWhile is_digit (d # r); k = take 9 ds
             in (int (digits_val k * 10 ^ (9 - length k)), dropWhile is_digit (d # r)))
          else (0, s)
      | _ \<Rightarrow> (0, s))"

definition get_zone :: "string \<Rightarrow> (int \<times> string) option" where
  "get_zone s =
     (case s of
        [] \<Rightarrow> None
      | c # r \<Rightarrow>
          if c = CHR ''Z'' then Some (0, r)
          else if c = CHR ''+'' \<or> c = CHR ''-'' then
            do { (hh, r1) \<leftarrow> getnum True r; _ \<leftarrow> ranged 0 24 hh; r2 \<leftarrow> lit (CHR '':'') r1;
                 (mm, r3) \<leftarrow> getnum True r2; _ \<leftarrow> ranged 0 60 mm;
                 Some ((if c = CHR ''-'' then -1 else 1) * (hh * 3600 + mm * 60), r3) }
          else None)"

definition parse_rfc3339 :: "string \<Rightarrow> instant option" where
  "parse_rfc3339 s0 =
     do { (y, s1) \<leftarrow> get_year s0; s2 \<leftarrow> lit (CHR ''-'') s1;
          (m, s3) \<leftarrow> getnum True s2; _ \<leftarrow> ranged 1 12 m; s4 \<leftarrow> lit (CHR ''-'') s3;
          (d, s5) \<leftarrow> getnum True s4; s6 \<leftarrow> lit (CHR ''T'') s5;
          (h, s7) \<leftarrow> getnum False s6; _ \<leftarrow> ranged 0 23 h; s8 \<leftarrow> lit (CHR '':'') s7;
          (mi, s9) \<leftarrow> getnum True s8; _ \<leftarrow> ranged 0 59 mi; s10 \<leftarrow> lit (CHR '':'') s9;
          (sec, s11) \<leftarrow> getnum True s10; _ \<leftarrow> ranged 0 59 sec;
          (let (ns, s12) = get_fraction s11 in
           do { (off, s13) \<leftarrow> get_zone s12;
                _ \<leftarrow> ranged 1 (days_in y m) d;
                (if s13 = [] then Some (go_date off y m d h mi sec ns) else None) }) }"

text \<open>\<open>time.Time.MarshalJSON\<close> refuses a year outside 0 to 9999.\<close>

definition year_of :: "int \<Rightarrow> instant \<Rightarrow> int" where
  "year_of off t = fst (date_of off t)"

definition marshal_time :: "instant \<Rightarrow> string option" where
  "marshal_time t = (if 0 \<le> year_of 0 t \<and> year_of 0 t \<le> 9999 then Some (format_nano 0 t) else None)"

section \<open>Printing then parsing\<close>

lemma lit_Cons [simp]: "lit c (c # s) = Some s"
  by simp

lemma digit_zero: "digit 0 = CHR ''0''"
  using char_of_char [where 'a = nat, of "CHR ''0''"] by (simp add: digit_def)

lemma pad2: "n < 100 \<Longrightarrow> pad 2 n = [digit (n div 10), digit (n mod 10)]"
proof -
  assume n: "n < 100"
  show ?thesis
  proof (cases "n < 10")
    case True
    then show ?thesis by (simp add: pad_def show_nat.simps [of n] digit_zero)
  next
    case False
    with n have "n div 10 < 10" by auto
    with False show ?thesis
      by (simp add: pad_def show_nat.simps [of n] show_nat.simps [of "n div 10"])
  qed
qed

lemma getnum_pad2 [simp]: "0 \<le> i \<Longrightarrow> i < 100 \<Longrightarrow> getnum f (pad 2 (nat i) @ s) = Some (i, s)"
proof -
  assume i: "0 \<le> i" "i < 100"
  have "10 * int (nat i div 10) + int (nat i mod 10) = int (nat i)"
    using mult_div_mod_eq [of 10 "nat i"] by (metis of_nat_add of_nat_mult of_nat_numeral)
  with i show ?thesis by (simp add: pad2)
qed

lemma get_year_pad4 [simp]: "0 \<le> y \<Longrightarrow> y \<le> 9999 \<Longrightarrow> get_year (pad 4 (nat y) @ s) = Some (y, s)"
  using length_pad [of "nat y" 4] pad_digits [of 4 "nat y"] by (simp add: get_year_def)

lemma ranged_simp [simp]: "lo \<le> x \<Longrightarrow> x \<le> hi \<Longrightarrow> ranged lo hi x = Some x"
  by (simp add: ranged_def)

lemma clock_bounds:
  "0 \<le> hour_of off t" "hour_of off t \<le> 23" "0 \<le> minute_of off t" "minute_of off t \<le> 59"
  "0 \<le> second_of off t" "second_of off t \<le> 59"
  unfolding hour_of_def minute_of_def second_of_def second_of_day_def by simp_all


lemma strip_zeros_digits: "n < 10 ^ w \<Longrightarrow> list_all is_digit (strip_zeros w n)"
proof (induction w arbitrary: n)
  case (Suc w)
  then have "n div 10 ^ w < 10" by (simp add: less_mult_imp_div_less)
  with Suc show ?case by simp
qed simp

lemma strip_zeros_length: "length (strip_zeros w n) \<le> w"
  by (induction w arbitrary: n) auto

lemma digits_val_Cons: "digits_val (c # s) = digit_val c * 10 ^ length s + digits_val s"
proof (induction s rule: rev_induct)
  case (snoc x xs)
  then show ?case by (simp flip: append_Cons)
qed (simp add: digits_val_def)

lemma strip_zeros_val: "n < 10 ^ w \<Longrightarrow> digits_val (strip_zeros w n) * 10 ^ (w - length (strip_zeros w n)) = n"
proof (induction w arbitrary: n)
  case (Suc w)
  show ?case
  proof (cases "n = 0")
    case True
    then show ?thesis by (simp add: digits_val_def)
  next
    case False
    let ?r = "strip_zeros w (n mod 10 ^ w)"
    have "n div 10 ^ w < 10" using Suc.prems by (simp add: less_mult_imp_div_less)
    moreover have "digits_val ?r * 10 ^ (w - length ?r) = n mod 10 ^ w" by (rule Suc.IH) simp
    moreover have "(10::nat) ^ length ?r * 10 ^ (w - length ?r) = 10 ^ w"
      using strip_zeros_length [of w "n mod 10 ^ w"] by (simp flip: power_add)
    ultimately show ?thesis using False div_mult_mod_eq [of n "10 ^ w"]
      by (simp add: digits_val_Cons add_mult_distrib mult.assoc)
  qed
qed (simp add: digits_val_def)

definition zone_head :: "string \<Rightarrow> bool" where
  "zone_head s \<longleftrightarrow> s \<noteq> [] \<and> \<not> is_digit (hd s) \<and> hd s \<noteq> CHR ''.'' \<and> hd s \<noteq> CHR '',''"

lemma get_fraction_format:
  assumes "0 \<le> ns" "ns < second" "zone_head s"
  shows "get_fraction (format_fraction ns @ s) = (ns, s)"
proof (cases "ns = 0")
  case True
  with assms(3) show ?thesis
    by (auto simp: format_fraction_def get_fraction_def zone_head_def split: list.splits)
next
  case False
  let ?n = "nat ns" and ?z = "strip_zeros 9 (nat ns)"
  have n: "?n < 10 ^ 9" "?n \<noteq> 0" using assms(1,2) False by (auto simp: second_def)
  have z: "list_all is_digit ?z" "length ?z \<le> 9" "digits_val ?z * 10 ^ (9 - length ?z) = ?n"
    using strip_zeros_digits [OF n(1)] strip_zeros_length strip_zeros_val [OF n(1)] by auto
  have "w \<noteq> 0 \<Longrightarrow> k \<noteq> 0 \<Longrightarrow> strip_zeros w k \<noteq> []" for w k by (cases w) auto
  from this [of 9 ?n] n(2) obtain d r where dr: "?z = d # r" by (cases ?z) auto
  obtain c t where s: "s = c # t" "\<not> is_digit c" using assms(3) by (cases s) (auto simp: zone_head_def)
  have tw: "takeWhile is_digit (?z @ s) = ?z" "dropWhile is_digit (?z @ s) = s"
    using z(1) s by (simp_all add: takeWhile_append dropWhile_append list_all_iff)
  have "format_fraction ns @ s = CHR ''.'' # d # r @ s" using False dr by (simp add: format_fraction_def)
  moreover have "is_digit d" using z(1) dr by simp
  moreover have "int (digits_val ?z * 10 ^ (9 - length ?z)) = ns" using z(3) assms(1) by simp
  ultimately show ?thesis using tw z(2) dr by (simp add: get_fraction_def Let_def)
qed

lemma zone_head_format [simp]: "zone_head (format_zone off @ s)"
  by (simp add: zone_head_def format_zone_def is_digit_def)

definition whole_minutes :: "int \<Rightarrow> bool" where
  "whole_minutes off \<longleftrightarrow> off mod 60 = 0 \<and> \<bar>off\<bar> < 86400"

lemma get_zone_format:
  assumes "whole_minutes off"
  shows "get_zone (format_zone off @ s) = Some (off, s)"
proof (cases "off = 0")
  case False
  define H M where "H = \<bar>off\<bar> div 60 div 60" and "M = \<bar>off\<bar> div 60 mod 60"
  have f: "format_zone off = (if off < 0 then ''-'' else ''+'') @ pad 2 (nat H) @ '':'' @ pad 2 (nat M)"
    using False unfolding format_zone_def H_def M_def by simp
  have "\<bar>off\<bar> div 60 < 1440" using assms unfolding whole_minutes_def by linarith
  then have h: "0 \<le> H" "H \<le> 23" "0 \<le> M" "M \<le> 59" unfolding H_def M_def by auto
  have "\<bar>off\<bar> mod 60 = 0" using assms by (auto simp: whole_minutes_def abs_if)
  then have "H * 3600 + M * 60 = \<bar>off\<bar>"
    using div_mult_mod_eq [of "\<bar>off\<bar>" 60] div_mult_mod_eq [of "\<bar>off\<bar> div 60" 60]
    unfolding H_def M_def by linarith
  with h show ?thesis unfolding f by (cases "off < 0") (simp_all add: get_zone_def)
qed (simp add: format_zone_def get_zone_def)

lemma go_date_fields:
  assumes "date_of off t = (y, m, d)" "is_int64 (unix t)" "0 \<le> ns" "ns < second"
  shows "go_date off y m d (hour_of off t) (minute_of off t) (second_of off t) ns = unix t * second + ns"
proof -
  have "day_number y m d = local_secs off t div 86400 + unix_epoch_day"
    using assms(1) civil(2) by (simp add: date_of_def)
  moreover have "local_secs off t div 86400 * 86400 + second_of_day off t - off = unix t"
    by (simp add: local_secs_def second_of_day_def)
  ultimately show ?thesis using assms(2-4) second_of_day_split [of off t]
    by (simp add: go_date_def wrap64_id add.assoc)
qed

text \<open>The instants that \<open>time\<close> prints with a four-digit year.\<close>

definition printable :: "int \<Rightarrow> instant \<Rightarrow> bool" where
  "printable off t \<longleftrightarrow> 0 \<le> year_of off t \<and> year_of off t \<le> 9999 \<and> is_int64 (unix t) \<and> whole_minutes off"

lemma parse_format:
  assumes p: "printable off t" and ns: "0 \<le> ns" "ns < second"
  shows "parse_rfc3339 (format_secs off t @ format_fraction ns @ format_zone off) = Some (unix t * second + ns)"
proof -
  obtain y m d where ymd: "date_of off t = (y, m, d)" by (cases "date_of off t")
  have v: "valid_date y m d" using ymd civil(1) by (simp add: date_of_def)
  have b: "0 \<le> y" "y \<le> 9999" "1 \<le> m" "m \<le> 12" "1 \<le> d" "d \<le> 31" "d \<le> days_in y m"
    using p ymd v civil_days_bound [of _ y m d] by (auto simp: printable_def year_of_def date_of_def valid_date_def)
  have z: "get_zone (format_zone off) = Some (off, [])"
    using get_zone_format [of off "[]"] p by (simp add: printable_def)
  have f: "get_fraction (format_fraction ns @ format_zone off) = (ns, format_zone off)"
    using get_fraction_format [OF ns zone_head_format [of off "[]"]] by simp
  have g: "go_date off y m d (hour_of off t) (minute_of off t) (second_of off t) ns = unix t * second + ns"
    using go_date_fields [OF ymd _ ns] p by (simp add: printable_def)
  show ?thesis
    using b clock_bounds [of off t] by (simp add: format_secs_def ymd parse_rfc3339_def z f g)
qed

lemma parse_format_nano: "printable off t \<Longrightarrow> parse_rfc3339 (format_nano off t) = Some t"
  using parse_format [of off t "nanosecond_of t"] unix_split [of t] by (simp add: format_nano_def)

lemma parse_format_rfc3339: "printable off t \<Longrightarrow> parse_rfc3339 (format_rfc3339 off t) = Some (unix t * second)"
  using parse_format [of off t 0] by (simp add: format_rfc3339_def format_fraction_def second_def)

interpretation time_codec: codec "format_nano 0" parse_rfc3339 "printable 0"
  by unfold_locales (rule parse_format_nano)

end
