(* ===== verification/Struct_Fields.thy ===== *)
theory Struct_Fields
  imports Json Rfc3339
begin

text \<open>
  How \<open>encoding/json\<close> fills a Go struct from an object: a member goes to the field of that name, or
  to one that differs only in the case of ASCII letters; a \<open>null\<close> leaves a plain field alone and
  clears a pointer; a later member overwrites an earlier one. A value of the wrong kind fails the
  whole decoding (\<open>None\<close>; the text of the decoder's error is not modelled).
\<close>

definition lower_char :: "char \<Rightarrow> char" where
  "lower_char c = (if 65 \<le> code c \<and> code c \<le> 90 then char_of (code c + 32) else c)"

definition lower :: "string \<Rightarrow> string" where
  "lower s = map lower_char s"

definition field_of :: "string list \<Rightarrow> string \<Rightarrow> string option" where
  "field_of names k =
     (if List.member names k then Some k else find (\<lambda>n. lower n = lower k) names)"

definition values_of :: "string list \<Rightarrow> string \<Rightarrow> (string \<times> json) list \<Rightarrow> json list" where
  "values_of names n kvs = map snd (filter (\<lambda>kv. field_of names (fst kv) = Some n) kvs)"

definition decode_field :: "(json \<Rightarrow> 'a option) \<Rightarrow> 'a \<Rightarrow> json list \<Rightarrow> 'a option" where
  "decode_field dec dflt vs =
     foldl (\<lambda>acc v. case acc of None \<Rightarrow> None | Some a \<Rightarrow> if v = JNull then Some a else dec v) (Some dflt) vs"

definition decode_ptr :: "(json \<Rightarrow> 'a option) \<Rightarrow> json list \<Rightarrow> 'a option option" where
  "decode_ptr dec vs =
     foldl (\<lambda>acc v. case acc of None \<Rightarrow> None
                    | Some a \<Rightarrow> if v = JNull then Some None else map_option Some (dec v)) (Some None) vs"

text \<open>A field of an unmarshalling type such as \<open>json.RawMessage\<close> takes the value as it is.\<close>

definition decode_raw :: "json list \<Rightarrow> json option" where
  "decode_raw vs = (if vs = [] then None else Some (last vs))"

section \<open>Plain values\<close>

fun dec_string :: "json \<Rightarrow> string option" where
  "dec_string (JStr s) = Some s"
| "dec_string _ = None"

fun dec_int :: "json \<Rightarrow> int option" where
  "dec_int (JNum l) = parse_int l"
| "dec_int _ = None"

fun dec_time :: "json \<Rightarrow> instant option" where
  "dec_time (JStr s) = parse_rfc3339 s"
| "dec_time _ = None"

text \<open>The elements of a slice start from the zero value, which a \<open>null\<close> keeps.\<close>

fun dec_list :: "(json \<Rightarrow> 'a option) \<Rightarrow> 'a \<Rightarrow> json \<Rightarrow> 'a list option" where
  "dec_list dec z (JArr vs) = those (map (\<lambda>v. if v = JNull then Some z else dec v) vs)"
| "dec_list dec z _ = None"

definition enc_int :: "int \<Rightarrow> json" where
  "enc_int i = JNum (show_int i)"

definition enc_strings :: "string list \<Rightarrow> json" where
  "enc_strings ss = JArr (map JStr ss)"

definition enc_ints :: "int list \<Rightarrow> json" where
  "enc_ints is = JArr (map enc_int is)"

lemma those_map_Some [simp]: "those (map (\<lambda>x. Some (f x)) xs) = Some (map f xs)"
  by (induction xs) auto

lemma dec_list_strings [simp]: "dec_list dec_string z (enc_strings ss) = Some ss"
  by (simp add: enc_strings_def comp_def)

lemma dec_enc_int [simp]: "is_int64 i \<Longrightarrow> dec_int (enc_int i) = Some i"
  by (simp add: enc_int_def parse_int_show_int)

lemma enc_not_null [simp]: "enc_int i \<noteq> JNull" "enc_strings ss \<noteq> JNull" "enc_ints is \<noteq> JNull"
  by (simp_all add: enc_int_def enc_strings_def enc_ints_def)

lemma dec_list_ints [simp]: "list_all is_int64 is \<Longrightarrow> dec_list dec_int z (enc_ints is) = Some is"
  by (induction "is") (auto simp: enc_ints_def)

lemma show_nat_head: "0 < n \<Longrightarrow> hd (show_nat n) \<noteq> CHR ''0''"
proof (induction n rule: show_nat.induct)
  case (1 n)
  have "digit k \<noteq> CHR ''0''" if "k < 10" "0 < k" for k
    using that by (metis digit_inverse digit_zero less_numeral_extra(3) zero_less_numeral)
  with 1 show ?case by (subst show_nat.simps) auto
qed

lemma show_nat_unsigned: "valid_unsigned (show_nat n)"
proof -
  obtain c r where cr: "show_nat n = c # r" by (cases "show_nat n") auto
  have d: "is_digit c" "list_all is_digit r" using show_nat_digits [of n] cr by auto
  have dw: "dropWhile is_digit r = []" using d(2) by (simp add: list_all_iff)
  show ?thesis
  proof (cases "c = CHR ''0''")
    case True
    with show_nat_head [of n] cr have "n = 0" by auto
    with cr have "r = []" by (simp add: show_nat.simps [of 0])
    with True cr show ?thesis by (simp add: valid_unsigned_def valid_fraction_def is_digit_def)
  next
    case False
    have "valid_fraction (dropWhile is_digit r)" unfolding dw by (simp add: valid_fraction_def)
    with False d cr show ?thesis by (simp add: valid_unsigned_def)
  qed
qed

lemma show_nat_chars: "list_all number_char (show_nat n)"
  using show_nat_digits [of n] by (auto simp: list_all_iff number_char_def)

lemma wf_enc_int [simp]: "wf_json (enc_int i)"
proof (cases "i < 0")
  case True
  then show ?thesis using show_nat_unsigned show_nat_chars
    by (simp add: enc_int_def show_int_def valid_number_def number_char_def)
next
  case False
  obtain c r where cr: "show_nat (nat i) = c # r" by (cases "show_nat (nat i)") auto
  then have "is_digit c" using show_nat_digits [of "nat i"] by simp
  then have "c \<noteq> CHR ''-''" by auto
  with False cr show ?thesis using show_nat_unsigned [of "nat i"] show_nat_chars [of "nat i"]
    by (simp add: enc_int_def show_int_def valid_number_def)
qed

lemma wf_enc_lists [simp]: "wf_json (enc_strings ss)" "wf_json (enc_ints is)"
  by (simp_all add: enc_strings_def enc_ints_def list_all_iff)

section \<open>Members written under the fields' own names\<close>

lemma field_of_exact [simp]: "List.member names k \<Longrightarrow> field_of names k = Some k"
  by (simp add: field_of_def)

lemma values_of_own:
  assumes "list_all (\<lambda>kv. List.member names (fst kv)) kvs"
  shows "values_of names n kvs = map snd (filter (\<lambda>kv. fst kv = n) kvs)"
proof -
  have "filter (\<lambda>kv. field_of names (fst kv) = Some n) kvs = filter (\<lambda>kv. fst kv = n) kvs"
    using assms by (intro filter_cong) (auto simp: list_all_iff simp del: List.member_iff)
  then show ?thesis by (simp add: values_of_def)
qed

lemma decode_field_simps [simp]:
  "decode_field dec d [] = Some d"
  "decode_field dec d [v] = (if v = JNull then Some d else dec v)"
  by (simp_all add: decode_field_def)

lemma decode_ptr_simps [simp]:
  "decode_ptr dec [] = Some None"
  "decode_ptr dec [v] = (if v = JNull then Some None else map_option Some (dec v))"
  by (simp_all add: decode_ptr_def)

lemma decode_raw_simps [simp]: "decode_raw [] = None" "decode_raw [v] = Some v"
  by (simp_all add: decode_raw_def)

end
