(* ===== verification/Models.thy ===== *)
theory Models
  imports Struct_Fields
begin

text \<open>
  \<open>internal/models\<close>: events, their recurrence rules and actions, occurrences, and the schedule
  entries kept in Redis, with the JSON forms in which they are stored. A \<open>uuid.UUID\<close> is its canonical
  text; parsing one (package \<open>google/uuid\<close>) is a parameter. A \<open>json.RawMessage\<close> or \<open>datatypes.JSON\<close>
  is its syntax tree.
\<close>

type_synonym uuid = string

section \<open>Actions\<close>

text \<open>\<open>models.ActionType\<close> is a string type with these constants.\<close>

definition ActionTypeWebhook :: string where "ActionTypeWebhook = ''webhook''"
definition ActionTypeWebsocket :: string where "ActionTypeWebsocket = ''websocket''"
definition ActionTypeAPICall :: string where "ActionTypeAPICall = ''apicall''"

lemmas action_type_defs = ActionTypeWebhook_def ActionTypeWebsocket_def ActionTypeAPICall_def

record webhook_params =
  wh_url :: string

record websocket_params =
  ws_client_name :: string

record apicall_params =
  api_method :: string
  api_headers :: "(string \<times> string) list"
  api_body :: "json option"
  api_url :: string

text \<open>\<open>Params\<close> is \<open>None\<close> for a nil \<open>json.RawMessage\<close>.\<close>

record action =
  act_type :: string
  act_params :: "json option"

definition zero_action :: action where
  "zero_action = \<lparr>act_type = [], act_params = None\<rparr>"

text \<open>Decoding a struct from a JSON value: \<open>null\<close> leaves it alone, anything but an object fails.\<close>

fun dec_struct :: "((string \<times> json) list \<Rightarrow> 'a option) \<Rightarrow> 'a \<Rightarrow> json \<Rightarrow> 'a option" where
  "dec_struct f z (JObj kvs) = f kvs"
| "dec_struct f z JNull = Some z"
| "dec_struct f z _ = None"

definition enc_webhook_params :: "webhook_params \<Rightarrow> json" where
  "enc_webhook_params p = JObj [(''url'', JStr (wh_url p))]"

definition dec_webhook_params :: "json \<Rightarrow> webhook_params option" where
  "dec_webhook_params j =
     dec_struct (\<lambda>kvs. do { u \<leftarrow> decode_field dec_string [] (values_of [''url''] ''url'' kvs);
                            Some \<lparr>wh_url = u\<rparr> }) \<lparr>wh_url = []\<rparr> j"

definition enc_websocket_params :: "websocket_params \<Rightarrow> json" where
  "enc_websocket_params p = JObj [(''client_name'', JStr (ws_client_name p))]"

definition dec_websocket_params :: "json \<Rightarrow> websocket_params option" where
  "dec_websocket_params j =
     dec_struct (\<lambda>kvs. do { c \<leftarrow> decode_field dec_string [] (values_of [''client_name''] ''client_name'' kvs);
                            Some \<lparr>ws_client_name = c\<rparr> }) \<lparr>ws_client_name = []\<rparr> j"

text \<open>A map of strings: later members overwrite earlier ones.\<close>

fun put :: "string \<Rightarrow> string \<Rightarrow> (string \<times> string) list \<Rightarrow> (string \<times> string) list" where
  "put k v [] = [(k, v)]"
| "put k v ((a, b) # m) = (if a = k then (k, v) # m else (a, b) # put k v m)"

fun dec_string_map :: "json \<Rightarrow> (string \<times> string) list option" where
  "dec_string_map (JObj kvs) =
     foldl (\<lambda>acc kv. case acc of None \<Rightarrow> None
                     | Some m \<Rightarrow> map_option (\<lambda>v. put (fst kv) v m)
                                  (if snd kv = JNull then Some [] else dec_string (snd kv))) (Some []) kvs"
| "dec_string_map _ = None"

definition apicall_fields :: "string list" where
  "apicall_fields = [''method'', ''headers'', ''body'', ''url'']"

definition dec_apicall_params :: "json \<Rightarrow> apicall_params option" where
  "dec_apicall_params j =
     dec_struct (\<lambda>kvs. let v = (\<lambda>n. values_of apicall_fields n kvs) in
        do { m \<leftarrow> decode_field dec_string [] (v ''method'');
             h \<leftarrow> decode_field dec_string_map [] (v ''headers'');
             u \<leftarrow> decode_field dec_string [] (v ''url'');
             Some \<lparr>api_method = m, api_headers = h, api_body = decode_raw (v ''body''), api_url = u\<rparr> })
       \<lparr>api_method = [], api_headers = [], api_body = None, api_url = []\<rparr> j"

definition raw_json :: "json option \<Rightarrow> json" where
  "raw_json r = (case r of None \<Rightarrow> JNull | Some j \<Rightarrow> j)"

definition action_fields :: "string list" where
  "action_fields = [''type'', ''params'']"

definition enc_action :: "action \<Rightarrow> json" where
  "enc_action a = JObj [(''type'', JStr (act_type a)), (''params'', raw_json (act_params a))]"

definition dec_action :: "json \<Rightarrow> action option" where
  "dec_action j =
     dec_struct (\<lambda>kvs. do { t \<leftarrow> decode_field dec_string [] (values_of action_fields ''type'' kvs);
                            Some \<lparr>act_type = t, act_params = decode_raw (values_of action_fields ''params'' kvs)\<rparr> })
       zero_action j"

subsection \<open>Database values\<close>

text \<open>What a \<open>driver.Valuer\<close> gives to the driver and a \<open>sql.Scanner\<close> takes from it.\<close>

datatype driver_value = DNil | DBytes string | DString string | DOther

text \<open>\<open>(*Action).Value\<close>, \<open>(*Action).Scan\<close>; \<open>None\<close> is the nil pointer.\<close>

definition Action_Value :: "action option \<Rightarrow> driver_value" where
  "Action_Value a = (case a of None \<Rightarrow> DNil | Some x \<Rightarrow> DBytes (print_json (enc_action x)))"

definition json_error :: error where
  "json_error = Errorf ''json: cannot decode''"

definition unmarshal :: "(json \<Rightarrow> 'a option) \<Rightarrow> string \<Rightarrow> 'a result" where
  "unmarshal dec s =
     (case parse_json s of
        None \<Rightarrow> Inl json_error
      | Some j \<Rightarrow> (case dec j of None \<Rightarrow> Inl json_error | Some x \<Rightarrow> Inr x))"

fun Action_Scan :: "driver_value \<Rightarrow> action result" where
  "Action_Scan DNil = Inr zero_action"
| "Action_Scan (DBytes b) = unmarshal dec_action b"
| "Action_Scan _ = Inl (Errorf ''type assertion to []byte failed for Action scan'')"

definition decode_params :: "string \<Rightarrow> (json \<Rightarrow> 'a option) \<Rightarrow> json option \<Rightarrow> 'a result" where
  "decode_params ctx dec p =
     (case p of
        None \<Rightarrow> Inl (wrap_err ctx json_error)
      | Some j \<Rightarrow> (case dec j of None \<Rightarrow> Inl (wrap_err ctx json_error) | Some x \<Rightarrow> Inr x))"

definition GetWebhookParams :: "action \<Rightarrow> webhook_params result" where
  "GetWebhookParams a =
     (if act_type a \<noteq> ActionTypeWebhook then Inl (Errorf (''action type is not '' @ [CHR 0x27] @ ActionTypeWebhook @ [CHR 0x27]))
      else decode_params ''failed to unmarshal webhook params'' dec_webhook_params (act_params a))"

definition GetWebsocketParams :: "action \<Rightarrow> websocket_params result" where
  "GetWebsocketParams a =
     (if act_type a \<noteq> ActionTypeWebsocket then Inl (Errorf (''action type is not '' @ [CHR 0x27] @ ActionTypeWebsocket @ [CHR 0x27]))
      else decode_params ''failed to unmarshal websocket params'' dec_websocket_params (act_params a))"

section \<open>Recurrence rules\<close>

record schedule_config =
  frequency :: string
  interval :: int
  by_day :: "string list"
  by_month :: "int list"
  by_month_day :: "int list"
  count_limit :: "int option"
  until_text :: "string option"

definition zero_schedule_config :: schedule_config where
  "zero_schedule_config = \<lparr>frequency = [], interval = 0, by_day = [], by_month = [], by_month_day = [],
     count_limit = None, until_text = None\<rparr>"

definition schedule_config_fields :: "string list" where
  "schedule_config_fields =
     [''frequency'', ''interval'', ''by_day'', ''by_month'', ''by_month_day'', ''count'', ''until'']"

text \<open>\<open>omitempty\<close> leaves an empty slice or a nil pointer out.\<close>

definition omit :: "bool \<Rightarrow> 'a \<Rightarrow> 'a list" where
  "omit none x = (if none then [] else [x])"

definition enc_schedule_config :: "schedule_config \<Rightarrow> json" where
  "enc_schedule_config s = JObj
     ([(''frequency'', JStr (frequency s)), (''interval'', enc_int (interval s))]
      @ omit (by_day s = []) (''by_day'', enc_strings (by_day s))
      @ omit (by_month s = []) (''by_month'', enc_ints (by_month s))
      @ omit (by_month_day s = []) (''by_month_day'', enc_ints (by_month_day s))
      @ (case count_limit s of None \<Rightarrow> [] | Some c \<Rightarrow> [(''count'', enc_int c)])
      @ (case until_text s of None \<Rightarrow> [] | Some u \<Rightarrow> [(''until'', JStr u)]))"

definition dec_schedule_config :: "json \<Rightarrow> schedule_config option" where
  "dec_schedule_config j =
     dec_struct (\<lambda>kvs. let v = (\<lambda>n. values_of schedule_config_fields n kvs) in
        do { f \<leftarrow> decode_field dec_string [] (v ''frequency'');
             i \<leftarrow> decode_field dec_int 0 (v ''interval'');
             bd \<leftarrow> decode_field (dec_list dec_string []) [] (v ''by_day'');
             bm \<leftarrow> decode_field (dec_list dec_int 0) [] (v ''by_month'');
             bmd \<leftarrow> decode_field (dec_list dec_int 0) [] (v ''by_month_day'');
             c \<leftarrow> decode_ptr dec_int (v ''count'');
             u \<leftarrow> decode_ptr dec_string (v ''until'');
             Some \<lparr>frequency = f, interval = i, by_day = bd, by_month = bm, by_month_day = bmd,
                   count_limit = c, until_text = u\<rparr> })
       zero_schedule_config j"

definition ScheduleConfig_Value :: "schedule_config option \<Rightarrow> driver_value" where
  "ScheduleConfig_Value s = (case s of None \<Rightarrow> DNil | Some x \<Rightarrow> DBytes (print_json (enc_schedule_config x)))"

fun ScheduleConfig_Scan :: "driver_value \<Rightarrow> schedule_config result" where
  "ScheduleConfig_Scan DNil = Inr zero_schedule_config"
| "ScheduleConfig_Scan (DBytes b) = unmarshal dec_schedule_config b"
| "ScheduleConfig_Scan (DString b) = unmarshal dec_schedule_config b"
| "ScheduleConfig_Scan DOther = Inl (Errorf ''failed to scan ScheduleConfig'')"

section \<open>Events\<close>

definition EventStatusActive :: string where "EventStatusActive = ''active''"
definition EventStatusInactive :: string where "EventStatusInactive = ''inactive''"
definition EventStatusPaused :: string where "EventStatusPaused = ''paused''"
definition EventStatusDeleted :: string where "EventStatusDeleted = ''deleted''"

lemmas event_status_defs =
  EventStatusActive_def EventStatusInactive_def EventStatusPaused_def EventStatusDeleted_def

text \<open>\<open>ev_tags\<close> is \<open>None\<close> for a nil \<open>pq.StringArray\<close>.\<close>

record event =
  ev_id :: uuid
  ev_name :: string
  ev_description :: string
  ev_start_time :: instant
  ev_webhook :: string
  ev_action :: "action option"
  ev_metadata :: json
  ev_schedule :: "schedule_config option"
  ev_tags :: "string list option"
  ev_status :: string
  ev_hmac_secret :: "string option"
  ev_created_at :: instant
  ev_updated_at :: "instant option"

section \<open>Occurrences and queue entries\<close>

definition OccurrenceStatusPending :: string where "OccurrenceStatusPending = ''pending''"
definition OccurrenceStatusScheduled :: string where "OccurrenceStatusScheduled = ''scheduled''"
definition OccurrenceStatusDispatched :: string where "OccurrenceStatusDispatched = ''dispatched''"
definition OccurrenceStatusCompleted :: string where "OccurrenceStatusCompleted = ''completed''"
definition OccurrenceStatusFailed :: string where "OccurrenceStatusFailed = ''failed''"

lemmas occurrence_status_defs =
  OccurrenceStatusPending_def OccurrenceStatusScheduled_def OccurrenceStatusDispatched_def
  OccurrenceStatusCompleted_def OccurrenceStatusFailed_def

record occurrence =
  oc_id :: int
  oc_occurrence_id :: uuid
  oc_event_id :: uuid
  oc_scheduled_at :: instant
  oc_status :: string
  oc_attempt_count :: int
  oc_timestamp :: instant
  oc_status_code :: int
  oc_response_body :: string
  oc_error_message :: string
  oc_started_at :: instant
  oc_completed_at :: instant

text \<open>\<open>models.Schedule\<close> embeds the occurrence and adds the event's fields.\<close>

record schedule = occurrence +
  sc_name :: string
  sc_description :: string
  sc_webhook :: string
  sc_metadata :: json
  sc_tags :: "string list option"

definition schedule_fields :: "string list" where
  "schedule_fields =
     [''id'', ''occurrence_id'', ''event_id'', ''scheduled_at'', ''status'', ''attempt_count'', ''timestamp'',
      ''status_code'', ''response_body'', ''error_message'', ''started_at'', ''completed_at'',
      ''name'', ''description'', ''webhook'', ''metadata'', ''tags'']"

definition enc_tags :: "string list option \<Rightarrow> json" where
  "enc_tags ts = (case ts of None \<Rightarrow> JNull | Some ss \<Rightarrow> enc_strings ss)"

text \<open>\<open>json.Marshal(event)\<close>: every field is written, a nil pointer as \<open>null\<close>.\<close>

definition enc_opt :: "('a \<Rightarrow> json) \<Rightarrow> 'a option \<Rightarrow> json" where
  "enc_opt enc x = (case x of None \<Rightarrow> JNull | Some a \<Rightarrow> enc a)"

definition enc_event :: "event \<Rightarrow> json option" where
  "enc_event ev =
     do { st \<leftarrow> marshal_time (ev_start_time ev); ca \<leftarrow> marshal_time (ev_created_at ev);
          ua \<leftarrow> (case ev_updated_at ev of None \<Rightarrow> Some JNull | Some t \<Rightarrow> map_option JStr (marshal_time t));
          Some (JObj
            [(''id'', JStr (ev_id ev)), (''name'', JStr (ev_name ev)), (''description'', JStr (ev_description ev)),
             (''start_time'', JStr st), (''webhook'', JStr (ev_webhook ev)),
             (''action'', enc_opt enc_action (ev_action ev)), (''metadata'', ev_metadata ev),
             (''schedule'', enc_opt enc_schedule_config (ev_schedule ev)), (''tags'', enc_tags (ev_tags ev)),
             (''status'', JStr (ev_status ev)), (''hmac_secret'', enc_opt JStr (ev_hmac_secret ev)),
             (''created_at'', JStr ca), (''updated_at'', ua)]) }"

definition marshal_event :: "event \<Rightarrow> string result" where
  "marshal_event ev =
     (case enc_event ev of None \<Rightarrow> Inl (Errorf ''json: unsupported time'') | Some j \<Rightarrow> Inr (print_json j))"

definition enc_schedule :: "schedule \<Rightarrow> json option" where
  "enc_schedule s =
     do { sa \<leftarrow> marshal_time (oc_scheduled_at s); ts \<leftarrow> marshal_time (oc_timestamp s);
          st \<leftarrow> marshal_time (oc_started_at s); co \<leftarrow> marshal_time (oc_completed_at s);
          Some (JObj
            [(''id'', enc_int (oc_id s)), (''occurrence_id'', JStr (oc_occurrence_id s)),
             (''event_id'', JStr (oc_event_id s)), (''scheduled_at'', JStr sa), (''status'', JStr (oc_status s)),
             (''attempt_count'', enc_int (oc_attempt_count s)), (''timestamp'', JStr ts),
             (''status_code'', enc_int (oc_status_code s)), (''response_body'', JStr (oc_response_body s)),
             (''error_message'', JStr (oc_error_message s)), (''started_at'', JStr st),
             (''completed_at'', JStr co), (''name'', JStr (sc_name s)),
             (''description'', JStr (sc_description s)), (''webhook'', JStr (sc_webhook s)),
             (''metadata'', sc_metadata s), (''tags'', enc_tags (sc_tags s))]) }"

text \<open>\<open>json.Marshal(sched)\<close>: it fails only on a time whose year has more than four digits.\<close>

definition marshal_schedule :: "schedule \<Rightarrow> string result" where
  "marshal_schedule s =
     (case enc_schedule s of None \<Rightarrow> Inl (Errorf ''json: unsupported time'') | Some j \<Rightarrow> Inr (print_json j))"

fun dec_uuid :: "(string \<Rightarrow> uuid option) \<Rightarrow> json \<Rightarrow> uuid option" where
  "dec_uuid up (JStr s) = up s"
| "dec_uuid up _ = None"

definition nil_uuid :: uuid where
  "nil_uuid = ''00000000-0000-0000-0000-000000000000''"

definition zero_schedule :: schedule where
  "zero_schedule = \<lparr>oc_id = 0, oc_occurrence_id = nil_uuid, oc_event_id = nil_uuid, oc_scheduled_at = zero_time,
     oc_status = [], oc_attempt_count = 0, oc_timestamp = zero_time, oc_status_code = 0, oc_response_body = [],
     oc_error_message = [], oc_started_at = zero_time, oc_completed_at = zero_time,
     sc_name = [], sc_description = [], sc_webhook = [], sc_metadata = JNull, sc_tags = None\<rparr>"

definition dec_schedule :: "(string \<Rightarrow> uuid option) \<Rightarrow> json \<Rightarrow> schedule option" where
  "dec_schedule up j =
     dec_struct (\<lambda>kvs. let v = (\<lambda>n. values_of schedule_fields n kvs) in
        do { i \<leftarrow> decode_field dec_int 0 (v ''id'');
             oi \<leftarrow> decode_field (dec_uuid up) nil_uuid (v ''occurrence_id'');
             ei \<leftarrow> decode_field (dec_uuid up) nil_uuid (v ''event_id'');
             sa \<leftarrow> decode_field dec_time zero_time (v ''scheduled_at'');
             st \<leftarrow> decode_field dec_string [] (v ''status'');
             ac \<leftarrow> decode_field dec_int 0 (v ''attempt_count'');
             ts \<leftarrow> decode_field dec_time zero_time (v ''timestamp'');
             sc \<leftarrow> decode_field dec_int 0 (v ''status_code'');
             rb \<leftarrow> decode_field dec_string [] (v ''response_body'');
             em \<leftarrow> decode_field dec_string [] (v ''error_message'');
             sta \<leftarrow> decode_field dec_time zero_time (v ''started_at'');
             co \<leftarrow> decode_field dec_time zero_time (v ''completed_at'');
             na \<leftarrow> decode_field dec_string [] (v ''name'');
             de \<leftarrow> decode_field dec_string [] (v ''description'');
             we \<leftarrow> decode_field dec_string [] (v ''webhook'');
             ta \<leftarrow> decode_ptr (dec_list dec_string []) (v ''tags'');
             Some \<lparr>oc_id = i, oc_occurrence_id = oi, oc_event_id = ei, oc_scheduled_at = sa, oc_status = st,
                   oc_attempt_count = ac, oc_timestamp = ts, oc_status_code = sc, oc_response_body = rb,
                   oc_error_message = em, oc_started_at = sta, oc_completed_at = co,
                   sc_name = na, sc_description = de, sc_webhook = we,
                   sc_metadata = raw_json (decode_raw (v ''metadata'')), sc_tags = ta\<rparr> })
       zero_schedule j"

definition unmarshal_schedule :: "(string \<Rightarrow> uuid option) \<Rightarrow> string \<Rightarrow> schedule result" where
  "unmarshal_schedule up s = unmarshal (dec_schedule up) s"

section \<open>Round trips\<close>

lemma unmarshal_print: "wf_json j \<Longrightarrow> dec j = Some x \<Longrightarrow> unmarshal dec (print_json j) = Inr x"
  by (simp add: unmarshal_def parse_print_json)

lemma webhook_params_roundtrip [simp]: "dec_webhook_params (enc_webhook_params p) = Some p"
  by (simp add: dec_webhook_params_def enc_webhook_params_def values_of_own)

lemma websocket_params_roundtrip [simp]: "dec_websocket_params (enc_websocket_params p) = Some p"
  by (simp add: dec_websocket_params_def enc_websocket_params_def values_of_own)

lemma wf_enc_params [simp]: "wf_json (enc_webhook_params p)" "wf_json (enc_websocket_params q)"
  by (simp_all add: enc_webhook_params_def enc_websocket_params_def)

text \<open>A nil \<open>Params\<close> is written as \<open>null\<close> and comes back as that raw value.\<close>

definition ok_action :: "action \<Rightarrow> bool" where
  "ok_action a \<longleftrightarrow> (\<exists>j. act_params a = Some j \<and> wf_json j)"

lemma wf_enc_action: "ok_action a \<Longrightarrow> wf_json (enc_action a)"
  by (auto simp: ok_action_def enc_action_def raw_json_def)

lemma action_roundtrip: "ok_action a \<Longrightarrow> dec_action (enc_action a) = Some a"
  by (auto simp: ok_action_def dec_action_def enc_action_def action_fields_def values_of_own raw_json_def)

definition ok_schedule_config :: "schedule_config \<Rightarrow> bool" where
  "ok_schedule_config s \<longleftrightarrow> is_int64 (interval s) \<and> list_all is_int64 (by_month s)
     \<and> list_all is_int64 (by_month_day s) \<and> (case count_limit s of None \<Rightarrow> True | Some c \<Rightarrow> is_int64 c)"

lemma schedule_config_roundtrip: "ok_schedule_config s \<Longrightarrow> dec_schedule_config (enc_schedule_config s) = Some s"
  by (auto simp: ok_schedule_config_def dec_schedule_config_def enc_schedule_config_def
      schedule_config_fields_def values_of_own omit_def split: option.splits)

lemma wf_enc_schedule_config [simp]: "wf_json (enc_schedule_config s)"
  by (simp add: enc_schedule_config_def omit_def split: option.splits)

text \<open>Queue entries: integers in range, times with four-digit years, canonical identifiers.\<close>

definition ok_schedule :: "(string \<Rightarrow> uuid option) \<Rightarrow> schedule \<Rightarrow> bool" where
  "ok_schedule up s \<longleftrightarrow>
     is_int64 (oc_id s) \<and> is_int64 (oc_attempt_count s) \<and> is_int64 (oc_status_code s)
     \<and> printable 0 (oc_scheduled_at s) \<and> printable 0 (oc_timestamp s)
     \<and> printable 0 (oc_started_at s) \<and> printable 0 (oc_completed_at s)
     \<and> up (oc_occurrence_id s) = Some (oc_occurrence_id s) \<and> up (oc_event_id s) = Some (oc_event_id s)
     \<and> wf_json (sc_metadata s)"

lemma marshal_time_printable: "printable 0 t \<Longrightarrow> marshal_time t = Some (format_nano 0 t)"
  by (simp add: marshal_time_def printable_def)

lemma wf_enc_tags [simp]: "wf_json (enc_tags ts)"
  by (simp add: enc_tags_def split: option.splits)

lemma decode_tags [simp]: "decode_ptr (dec_list dec_string []) [enc_tags ts] = Some ts"
  by (simp add: enc_tags_def split: option.splits)

lemma values_of_zip:
  assumes "distinct names" "length vs = length names" "i < length names"
  shows "values_of names (names ! i) (zip names vs) = [vs ! i]"
proof -
  have "values_of names (names ! i) (zip names vs) = map snd (filter (\<lambda>kv. fst kv = names ! i) (zip names vs))"
    by (rule values_of_own) (auto simp: list_all_iff dest: set_zip_leftD)
  also have "\<dots> = [vs ! i]"
    using assms
  proof (induction names vs arbitrary: i rule: list_induct2')
    case (4 x xs y ys)
    have none: "filter (\<lambda>kv. fst kv = x) (zip xs ys) = []"
      using 4(2) by (auto simp: filter_empty_conv dest: set_zip_leftD)
    show ?case
    proof (cases i)
      case 0
      with none show ?thesis by simp
    next
      case (Suc k)
      with 4 have "xs ! k \<noteq> x" by (auto simp: in_set_conv_nth)
      with Suc 4 show ?thesis by (simp add: eq_commute [of x])
    qed
  qed auto
  finally show ?thesis .
qed

lemma schedule_fields_nth:
  "schedule_fields ! 0 = ''id''" "schedule_fields ! Suc 0 = ''occurrence_id''" "schedule_fields ! 2 = ''event_id''"
  "schedule_fields ! 3 = ''scheduled_at''" "schedule_fields ! 4 = ''status''" "schedule_fields ! 5 = ''attempt_count''"
  "schedule_fields ! 6 = ''timestamp''" "schedule_fields ! 7 = ''status_code''" "schedule_fields ! 8 = ''response_body''"
  "schedule_fields ! 9 = ''error_message''" "schedule_fields ! 10 = ''started_at''" "schedule_fields ! 11 = ''completed_at''"
  "schedule_fields ! 12 = ''name''" "schedule_fields ! 13 = ''description''" "schedule_fields ! 14 = ''webhook''"
  "schedule_fields ! 15 = ''metadata''" "schedule_fields ! 16 = ''tags''"
  by (simp_all add: schedule_fields_def)

lemma schedule_json_roundtrip:
  assumes "ok_schedule up s"
  obtains j where "enc_schedule s = Some j" "wf_json j" "dec_schedule up j = Some s"
proof -
  note ok = assms [unfolded ok_schedule_def]
  define vs where "vs = [enc_int (oc_id s), JStr (oc_occurrence_id s), JStr (oc_event_id s),
    JStr (format_nano 0 (oc_scheduled_at s)), JStr (oc_status s), enc_int (oc_attempt_count s),
    JStr (format_nano 0 (oc_timestamp s)), enc_int (oc_status_code s), JStr (oc_response_body s),
    JStr (oc_error_message s), JStr (format_nano 0 (oc_started_at s)), JStr (format_nano 0 (oc_completed_at s)),
    JStr (sc_name s), JStr (sc_description s), JStr (sc_webhook s), sc_metadata s, enc_tags (sc_tags s)]"
  have e: "enc_schedule s = Some (JObj (zip schedule_fields vs))"
    using ok by (simp add: enc_schedule_def marshal_time_printable schedule_fields_def vs_def)
  have d: "distinct schedule_fields" by (simp add: schedule_fields_def)
  have l: "length schedule_fields = 17" by (simp add: schedule_fields_def)
  note v = values_of_zip [OF d, of vs]
  have "wf_json (JObj (zip schedule_fields vs))"
    using ok by (simp add: schedule_fields_def vs_def)
  moreover have "dec_schedule up (JObj (zip schedule_fields vs)) = Some s"
    using v [of 0] v [of 1] v [of 2] v [of 3] v [of 4] v [of 5] v [of 6] v [of 7] v [of 8] v [of 9]
      v [of 10] v [of 11] v [of 12] v [of 13] v [of 14] v [of 15] v [of 16] ok
    unfolding l dec_schedule_def
    by (simp add: vs_def parse_format_nano raw_json_def schedule_fields_nth del: decode_ptr_simps(2))
  ultimately show ?thesis using that e by blast
qed

lemma marshal_schedule_ok:
  assumes "ok_schedule up s"
  obtains d where "marshal_schedule s = Inr d" "unmarshal_schedule up d = Inr s"
proof -
  obtain j where j: "enc_schedule s = Some j" "wf_json j" "dec_schedule up j = Some s"
    by (rule schedule_json_roundtrip [OF assms])
  have "marshal_schedule s = Inr (print_json j)" using j(1) by (simp add: marshal_schedule_def)
  moreover have "unmarshal_schedule up (print_json j) = Inr s"
    unfolding unmarshal_schedule_def by (intro unmarshal_print j(2,3))
  ultimately show ?thesis by (rule that)
qed

text \<open>The forms in which the program stores its data are all codecs.\<close>

definition opt_result :: "'a result \<Rightarrow> 'a option" where
  "opt_result r = (case r of Inl _ \<Rightarrow> None | Inr x \<Rightarrow> Some x)"

interpretation webhook_codec: codec enc_webhook_params dec_webhook_params "\<lambda>_. True"
  by unfold_locales simp

interpretation websocket_codec: codec enc_websocket_params dec_websocket_params "\<lambda>_. True"
  by unfold_locales simp

interpretation action_codec: codec "\<lambda>a. Action_Value (Some a)" "\<lambda>v. opt_result (Action_Scan v)" ok_action
  by unfold_locales
     (simp add: Action_Value_def opt_result_def unmarshal_print wf_enc_action action_roundtrip)

interpretation schedule_config_codec:
  codec "\<lambda>s. ScheduleConfig_Value (Some s)" "\<lambda>v. opt_result (ScheduleConfig_Scan v)" ok_schedule_config
  by unfold_locales
     (simp add: ScheduleConfig_Value_def opt_result_def unmarshal_print schedule_config_roundtrip)

interpretation queue_codec:
  codec "\<lambda>s. opt_result (marshal_schedule s)" "\<lambda>d. Option.bind d (\<lambda>x. opt_result (unmarshal_schedule up x))"
    "ok_schedule up" for up
  by unfold_locales (erule marshal_schedule_ok, simp add: opt_result_def)

section \<open>Tokens\<close>

definition AccessLevelRead :: string where "AccessLevelRead = ''read''"
definition AccessLevelWrite :: string where "AccessLevelWrite = ''write''"
definition AccessLevelReadWrite :: string where "AccessLevelReadWrite = ''read_write''"
definition AccessLevelAdmin :: string where "AccessLevelAdmin = ''admin''"

lemmas access_level_defs =
  AccessLevelRead_def AccessLevelWrite_def AccessLevelReadWrite_def AccessLevelAdmin_def

definition TokenTypeJWT :: string where "TokenTypeJWT = ''jwt''"

record token =
  tok_sub :: string
  tok_access :: string
  tok_scope :: "string list"
  tok_expires_at :: instant

section \<open>Properties\<close>

text \<open>A queue entry survives Redis: \<open>json.Marshal\<close> of a schedule with representable fields succeeds, and
  \<open>json.Unmarshal\<close> of its text gives the same schedule back.\<close>

theorem queue_entry_roundtrip:
  assumes "ok_schedule up s"
  shows "\<exists>d. marshal_schedule s = Inr d \<and> unmarshal_schedule up d = Inr s"
  using marshal_schedule_ok [OF assms] by metis

theorem queue_entry_roundtrip_witness:
  "\<exists>d. marshal_schedule (zero_schedule\<lparr>oc_attempt_count := 2, sc_name := ''nightly job''\<rparr>) = Inr d
     \<and> unmarshal_schedule Some d = Inr (zero_schedule\<lparr>oc_attempt_count := 2, sc_name := ''nightly job''\<rparr>)"
proof (rule queue_entry_roundtrip)
  have "printable 0 zero_time" by code_simp
  then show "ok_schedule Some (zero_schedule\<lparr>oc_attempt_count := 2, sc_name := ''nightly job''\<rparr>)"
    by (simp add: ok_schedule_def zero_schedule_def is_int64_def)
qed

text \<open>C37. What the \<open>driver.Valuer\<close>s of recurrence rules and actions give to the database, their \<open>sql.Scanner\<close>s
  read back; a nil pointer is NULL, and NULL scans as the zero value.\<close>

theorem database_values_roundtrip:
  assumes "ok_schedule_config s" "ok_action a"
  shows "ScheduleConfig_Scan (ScheduleConfig_Value (Some s)) = Inr s \<and> Action_Scan (Action_Value (Some a)) = Inr a
    \<and> ScheduleConfig_Scan (ScheduleConfig_Value None) = Inr zero_schedule_config \<and> Action_Scan (Action_Value None) = Inr zero_action"
  using assms
  by (simp add: ScheduleConfig_Value_def Action_Value_def unmarshal_print schedule_config_roundtrip
      wf_enc_action action_roundtrip)

theorem database_values_roundtrip_witness:
  "ScheduleConfig_Scan (ScheduleConfig_Value (Some (zero_schedule_config\<lparr>frequency := ''weekly'', by_day := [''MO'']\<rparr>)))
     = Inr (zero_schedule_config\<lparr>frequency := ''weekly'', by_day := [''MO'']\<rparr>)"
  using database_values_roundtrip [of "zero_schedule_config\<lparr>frequency := ''weekly'', by_day := [''MO'']\<rparr>"
      "\<lparr>act_type = ActionTypeWebhook, act_params = Some (JObj [])\<rparr>"]
  by (simp add: ok_schedule_config_def zero_schedule_config_def is_int64_def ok_action_def)

end
