(* ===== verification/Requests.thy ===== *)
theory Requests
  imports Models
begin

text \<open>
  The API's data: the request bodies of \<open>internal/models/event.go\<close> as \<open>encoding/json\<close> decodes them, and what
  the handlers reply. A reply is its status with its body before encoding.
\<close>

section \<open>Replies\<close>

record event_response =
  re_id :: uuid
  re_name :: string
  re_description :: string
  re_start_time :: instant
  re_webhook :: string
  re_action :: "action option"
  re_metadata :: json
  re_schedule :: "schedule_config option"
  re_tags :: "string list option"
  re_status :: string
  re_hmac_secret :: "string option"
  re_created_at :: instant
  re_updated_at :: "instant option"

definition ToEventResponse :: "event \<Rightarrow> event_response" where
  "ToEventResponse e =
     \<lparr>re_id = ev_id e, re_name = ev_name e, re_description = ev_description e, re_start_time = ev_start_time e,
      re_webhook = ev_webhook e, re_action = ev_action e, re_metadata = ev_metadata e, re_schedule = ev_schedule e,
      re_tags = ev_tags e, re_status = ev_status e, re_hmac_secret = ev_hmac_secret e,
      re_created_at = ev_created_at e, re_updated_at = ev_updated_at e\<rparr>"

record paginated_response =
  pg_data :: "occurrence list"
  pg_page :: int
  pg_limit :: int
  pg_total :: int

record create_token_response =
  ctr_token :: string
  ctr_type :: string
  ctr_sub :: string
  ctr_access :: string
  ctr_scope :: "string list"
  ctr_expires_at :: instant

text \<open>The reply of the status endpoint.\<close>

record token_info =
  ti_sub :: string
  ti_access :: string
  ti_scope :: "string list"
  ti_exp :: int

record jwt_info =
  ji_issuer :: string
  ji_algorithm :: string
  ji_default_exp_seconds :: int
  ji_token_info :: token_info

record hmac_info =
  hi_algorithm :: string
  hi_signature_header :: string
  hi_default_secret :: string
  hi_event_override_supported :: bool

record status_response =
  sr_status :: string
  sr_uptime_seconds :: int
  sr_version :: string
  sr_jwt :: jwt_info
  sr_hmac :: hmac_info

datatype body =
    NoBody
  | StatusBody status_response
  | HealthBody string
  | ErrorBody string
  | EventResponseBody event_response
  | EventBody event
  | EventsBody "event list"
  | OccurrenceBody occurrence
  | OccurrencesBody "occurrence list"
  | PageBody paginated_response
  | TokenBody create_token_response

datatype response = Reply (reply_status: int) (reply_body: body)

section \<open>Request bodies\<close>

text \<open>The decoder of a body reads one JSON value and leaves what follows it.\<close>

definition decode_body :: "string \<Rightarrow> json option" where
  "decode_body s = map_option fst (json_value (2 * length s + 2) s)"

definition bind_json :: "(json \<Rightarrow> 'a option) \<Rightarrow> ('a \<Rightarrow> bool) \<Rightarrow> string \<Rightarrow> 'a result" where
  "bind_json dec required s =
     (case decode_body s of
        None \<Rightarrow> Inl json_error
      | Some j \<Rightarrow> (case dec j of
          None \<Rightarrow> Inl json_error
        | Some x \<Rightarrow> if required x then Inr x else Inl (Errorf ''Field validation failed on the required tag'')))"

record create_request =
  cr_name :: string
  cr_description :: "string option"
  cr_start_time :: instant
  cr_webhook :: "string option"
  cr_action :: "action option"
  cr_metadata :: "json option"
  cr_schedule :: "schedule_config option"
  cr_tags :: "string list option"
  cr_hmac_secret :: "string option"

definition create_fields :: "string list" where
  "create_fields = [''name'', ''description'', ''start_time'', ''webhook'', ''action'', ''metadata'', ''schedule'', ''tags'',
     ''hmac_secret'']"

definition dec_create_request :: "json \<Rightarrow> create_request option" where
  "dec_create_request j =
     dec_struct (\<lambda>kvs. let v = (\<lambda>n. values_of create_fields n kvs) in
        do { n \<leftarrow> decode_field dec_string [] (v ''name'');
             de \<leftarrow> decode_ptr dec_string (v ''description'');
             st \<leftarrow> decode_field dec_time zero_time (v ''start_time'');
             wh \<leftarrow> decode_ptr dec_string (v ''webhook'');
             ac \<leftarrow> decode_ptr dec_action (v ''action'');
             sc \<leftarrow> decode_ptr dec_schedule_config (v ''schedule'');
             tg \<leftarrow> decode_ptr (dec_list dec_string []) (v ''tags'');
             hs \<leftarrow> decode_ptr dec_string (v ''hmac_secret'');
             Some \<lparr>cr_name = n, cr_description = de, cr_start_time = st, cr_webhook = wh, cr_action = ac,
                   cr_metadata = decode_raw (v ''metadata''), cr_schedule = sc, cr_tags = tg, cr_hmac_secret = hs\<rparr> })
       \<lparr>cr_name = [], cr_description = None, cr_start_time = zero_time, cr_webhook = None, cr_action = None,
        cr_metadata = None, cr_schedule = None, cr_tags = None, cr_hmac_secret = None\<rparr> j"

definition bind_create :: "string \<Rightarrow> create_request result" where
  "bind_create s = bind_json dec_create_request (\<lambda>r. cr_name r \<noteq> [] \<and> \<not> is_zero (cr_start_time r)) s"

record update_request =
  ur_name :: "string option"
  ur_description :: "string option"
  ur_start_time :: "instant option"
  ur_webhook :: "string option"
  ur_action :: "action option"
  ur_metadata :: "json option"
  ur_schedule :: "schedule_config option"
  ur_tags :: "string list option"
  ur_status :: "string option"
  ur_hmac_secret :: "string option"

definition update_fields :: "string list" where
  "update_fields = [''name'', ''description'', ''start_time'', ''webhook'', ''action'', ''metadata'', ''schedule'', ''tags'',
     ''status'', ''hmac_secret'']"

definition zero_update_request :: update_request where
  "zero_update_request = \<lparr>ur_name = None, ur_description = None, ur_start_time = None, ur_webhook = None, ur_action = None,
     ur_metadata = None, ur_schedule = None, ur_tags = None, ur_status = None, ur_hmac_secret = None\<rparr>"

definition dec_update_request :: "json \<Rightarrow> update_request option" where
  "dec_update_request j =
     dec_struct (\<lambda>kvs. let v = (\<lambda>n. values_of update_fields n kvs) in
        do { n \<leftarrow> decode_ptr dec_string (v ''name'');
             de \<leftarrow> decode_ptr dec_string (v ''description'');
             st \<leftarrow> decode_ptr dec_time (v ''start_time'');
             wh \<leftarrow> decode_ptr dec_string (v ''webhook'');
             ac \<leftarrow> decode_ptr dec_action (v ''action'');
             sc \<leftarrow> decode_ptr dec_schedule_config (v ''schedule'');
             tg \<leftarrow> decode_ptr (dec_list dec_string []) (v ''tags'');
             stt \<leftarrow> decode_ptr dec_string (v ''status'');
             hs \<leftarrow> decode_ptr dec_string (v ''hmac_secret'');
             Some \<lparr>ur_name = n, ur_description = de, ur_start_time = st, ur_webhook = wh, ur_action = ac,
                   ur_metadata = decode_raw (v ''metadata''), ur_schedule = sc, ur_tags = tg, ur_status = stt, ur_hmac_secret = hs\<rparr> })
       zero_update_request j"

definition bind_update :: "string \<Rightarrow> update_request result" where
  "bind_update s = bind_json dec_update_request (\<lambda>_. True) s"

text \<open>\<open>models.CreateTokenRequest\<close>; every field is required.\<close>

record create_token_request =
  tr_type :: string
  tr_sub :: string
  tr_access :: string
  tr_scope :: "string list option"
  tr_expires_at :: instant

definition token_fields :: "string list" where
  "token_fields = [''type'', ''sub'', ''access'', ''scope'', ''expires_at'']"

definition dec_token_request :: "json \<Rightarrow> create_token_request option" where
  "dec_token_request j =
     dec_struct (\<lambda>kvs. let v = (\<lambda>n. values_of token_fields n kvs) in
        do { t \<leftarrow> decode_field dec_string [] (v ''type'');
             s \<leftarrow> decode_field dec_string [] (v ''sub'');
             a \<leftarrow> decode_field dec_string [] (v ''access'');
             sc \<leftarrow> decode_ptr (dec_list dec_string []) (v ''scope'');
             x \<leftarrow> decode_field dec_time zero_time (v ''expires_at'');
             Some \<lparr>tr_type = t, tr_sub = s, tr_access = a, tr_scope = sc, tr_expires_at = x\<rparr> })
       \<lparr>tr_type = [], tr_sub = [], tr_access = [], tr_scope = None, tr_expires_at = zero_time\<rparr> j"

definition bind_token :: "string \<Rightarrow> create_token_request result" where
  "bind_token s = bind_json dec_token_request (\<lambda>r. tr_type r \<noteq> [] \<and> tr_sub r \<noteq> [] \<and> tr_access r \<noteq> []
     \<and> tr_scope r \<noteq> None \<and> \<not> is_zero (tr_expires_at r)) s"

end
