(* ===== verification/Redis.thy ===== *)
theory Redis
  imports Prelude
begin

text \<open>
  The Redis commands the program issues, with their documented effect on the data they touch: sorted
  sets, hashes, lists and strings. A key is used with one kind of value only, so each kind has its own
  map. The server is not part of the program: this semantics is what the theorems assume of it
  (\<open>Services.svc_ok\<close>), while the scripts it runs (scheduler, dispatcher) are written in these commands.
\<close>

section \<open>Sorted sets\<close>

text \<open>A member with its score. Scores are Unix seconds, which a float64 holds exactly.\<close>

datatype zitem = ZItem (zscore: int) (zmember: string)

text \<open>Redis orders a sorted set by score, then by the bytes of the member.\<close>

instantiation zitem :: linorder
begin

definition less_eq_zitem :: "zitem \<Rightarrow> zitem \<Rightarrow> bool" where
  "less_eq_zitem a b \<longleftrightarrow> zscore a < zscore b \<or> (zscore a = zscore b \<and> zmember a \<le> zmember b)"

definition less_zitem :: "zitem \<Rightarrow> zitem \<Rightarrow> bool" where
  "less_zitem a b \<longleftrightarrow> zscore a < zscore b \<or> (zscore a = zscore b \<and> zmember a < zmember b)"

instance
  by standard (auto simp: less_eq_zitem_def less_zitem_def zitem.expand)

end

type_synonym zset = "zitem list"

definition zrem :: "string \<Rightarrow> zset \<Rightarrow> zset" where
  "zrem m zs = filter (\<lambda>z. zmember z \<noteq> m) zs"

definition zadd :: "int \<Rightarrow> string \<Rightarrow> zset \<Rightarrow> zset" where
  "zadd s m zs = insort (ZItem s m) (zrem m zs)"

definition zmembers :: "zset \<Rightarrow> string list" where
  "zmembers zs = map zmember zs"

definition zrange_by_score :: "int option \<Rightarrow> int \<Rightarrow> zset \<Rightarrow> string list" where
  "zrange_by_score lo hi zs =
     map zmember (filter (\<lambda>z. (case lo of None \<Rightarrow> True | Some l \<Rightarrow> l \<le> zscore z) \<and> zscore z \<le> hi) zs)"

text \<open>A well-formed sorted set: in order, one score for a member.\<close>

definition zset_ok :: "zset \<Rightarrow> bool" where
  "zset_ok zs \<longleftrightarrow> sorted zs \<and> distinct (zmembers zs)"

lemma set_zrem [simp]: "set (zrem m zs) = {z \<in> set zs. zmember z \<noteq> m}"
  by (auto simp: zrem_def)

lemma zmembers_zrem: "zmembers (zrem m zs) = filter (\<lambda>x. x \<noteq> m) (zmembers zs)"
  by (induction zs) (auto simp: zmembers_def zrem_def)

lemma set_zmembers_zrem [simp]: "set (zmembers (zrem m zs)) = set (zmembers zs) - {m}"
  by (auto simp: zmembers_zrem)

lemma set_zadd [simp]: "set (zadd s m zs) = insert (ZItem s m) {z \<in> set zs. zmember z \<noteq> m}"
  by (simp add: zadd_def set_insort_key)

lemma set_zmembers_zadd [simp]: "set (zmembers (zadd s m zs)) = insert m (set (zmembers zs))"
  unfolding zmembers_def set_map set_zadd by force

lemma zrem_ok [codec_intros]: "zset_ok zs \<Longrightarrow> zset_ok (zrem m zs)"
  by (auto simp: zset_ok_def zmembers_zrem) (simp add: zrem_def sorted_wrt_filter)

lemma distinct_members_insort:
  "distinct (zmember z # map zmember zs) \<Longrightarrow> distinct (map zmember (insort z zs))"
proof (induction zs)
  case (Cons a zs)
  have "set (map zmember (insort z zs)) = insert (zmember z) (zmember ` set zs)"
    by (simp add: set_insort_key)
  with Cons show ?case by (auto simp: set_insort_key)
qed simp

lemma zadd_ok [codec_intros]: "zset_ok zs \<Longrightarrow> zset_ok (zadd s m zs)"
  using zrem_ok [of zs m] set_zmembers_zrem [of m zs] distinct_members_insort [of "ZItem s m" "zrem m zs"]
  by (auto simp: zset_ok_def zadd_def sorted_insort zmembers_def)

lemma zrem_absent: "m \<notin> set (zmembers zs) \<Longrightarrow> zrem m zs = zs"
  by (auto simp: zrem_def zmembers_def filter_id_conv)

lemma zrem_idem [simp]: "zrem m (zrem m zs) = zrem m zs"
  by (simp add: zrem_def)

lemma insort_present: "sorted zs \<Longrightarrow> z \<in> set zs \<Longrightarrow> distinct zs \<Longrightarrow> insort z (filter (\<lambda>y. y \<noteq> z) zs) = zs"
proof (induction zs)
  case (Cons a zs)
  show ?case
  proof (cases "a = z")
    case True
    with Cons.prems have "filter (\<lambda>y. y \<noteq> z) zs = zs" by (auto simp: filter_id_conv)
    with True Cons.prems show ?thesis by (simp add: insort_is_Cons)
  next
    case False
    with Cons have "insort z (filter (\<lambda>y. y \<noteq> z) zs) = zs" by simp
    moreover have "\<not> z \<le> a" using Cons.prems False by auto
    ultimately show ?thesis using False by simp
  qed
qed simp

text \<open>Adding a member again with the score it has changes nothing.\<close>

lemma zadd_present:
  assumes "zset_ok zs" "ZItem s m \<in> set zs"
  shows "zadd s m zs = zs"
proof -
  have "zrem m zs = filter (\<lambda>y. y \<noteq> ZItem s m) zs"
    unfolding zrem_def
  proof (rule filter_cong)
    fix y assume y: "y \<in> set zs"
    have "inj_on zmember (set zs)" using assms(1) by (simp add: zset_ok_def zmembers_def distinct_map)
    from inj_onD [OF this _ y assms(2)] show "(zmember y \<noteq> m) = (y \<noteq> ZItem s m)" by auto
  qed simp
  moreover have "distinct zs" using assms(1) by (auto simp: zset_ok_def zmembers_def distinct_map)
  ultimately show ?thesis using assms by (simp add: zadd_def insort_present zset_ok_def)
qed

section \<open>The keyspace\<close>

record rdata =
  rd_zsets :: "string \<Rightarrow> zset"
  rd_hashes :: "string \<Rightarrow> (string \<rightharpoonup> string)"
  rd_lists :: "string \<Rightarrow> string list"
  rd_strings :: "string \<rightharpoonup> string"

definition no_rdata :: rdata where
  "no_rdata = \<lparr>rd_zsets = \<lambda>_. [], rd_hashes = \<lambda>_. Map.empty, rd_lists = \<lambda>_. [], rd_strings = Map.empty\<rparr>"

definition upd_zset :: "string \<Rightarrow> (zset \<Rightarrow> zset) \<Rightarrow> rdata \<Rightarrow> rdata" where
  "upd_zset k f d = d\<lparr>rd_zsets := (rd_zsets d)(k := f (rd_zsets d k))\<rparr>"

definition upd_hash :: "string \<Rightarrow> ((string \<rightharpoonup> string) \<Rightarrow> (string \<rightharpoonup> string)) \<Rightarrow> rdata \<Rightarrow> rdata" where
  "upd_hash k f d = d\<lparr>rd_hashes := (rd_hashes d)(k := f (rd_hashes d k))\<rparr>"

definition upd_list :: "string \<Rightarrow> (string list \<Rightarrow> string list) \<Rightarrow> rdata \<Rightarrow> rdata" where
  "upd_list k f d = d\<lparr>rd_lists := (rd_lists d)(k := f (rd_lists d k))\<rparr>"

lemma upd_zset_simps [simp]:
  "rd_zsets (upd_zset k f d) = (rd_zsets d)(k := f (rd_zsets d k))"
  "rd_hashes (upd_zset k f d) = rd_hashes d" "rd_lists (upd_zset k f d) = rd_lists d"
  "rd_strings (upd_zset k f d) = rd_strings d"
  by (simp_all add: upd_zset_def)

lemma upd_hash_simps [simp]:
  "rd_zsets (upd_hash k g d) = rd_zsets d"
  "rd_hashes (upd_hash k g d) = (rd_hashes d)(k := g (rd_hashes d k))"
  "rd_lists (upd_hash k g d) = rd_lists d" "rd_strings (upd_hash k g d) = rd_strings d"
  by (simp_all add: upd_hash_def)

lemma upd_list_simps [simp]:
  "rd_zsets (upd_list k h d) = rd_zsets d" "rd_hashes (upd_list k h d) = rd_hashes d"
  "rd_lists (upd_list k h d) = (rd_lists d)(k := h (rd_lists d k))"
  "rd_strings (upd_list k h d) = rd_strings d"
  by (simp_all add: upd_list_def)

section \<open>Commands\<close>

datatype rreply = RNil | RBool bool | RInt int | RStr string | RArr "string list"

text \<open>
  \<open>EVAL\<close> runs a script atomically: a script is the function that its commands compose to.
  \<open>SET\<close> has an optional time to live in nanoseconds, after which the server may drop the key.
\<close>

datatype rcmd =
    HEXISTS string string
  | HGET string string
  | HSET string string string
  | HDEL string string
  | ZADD string int string
  | ZREM string string
  | ZRANGE_ALL string
  | RPUSH string string
  | LPOP string
  | BRPOP string
  | GETKEY string
  | SETKEY string string "int option"
  | EVAL "rdata \<Rightarrow> rreply \<times> rdata"

definition opt_reply :: "string option \<Rightarrow> rreply" where
  "opt_reply r = (case r of None \<Rightarrow> RNil | Some s \<Rightarrow> RStr s)"

fun redis_sem :: "rcmd \<Rightarrow> rdata \<Rightarrow> rreply \<times> rdata" where
  "redis_sem (HEXISTS k f) d = (RBool (rd_hashes d k f \<noteq> None), d)"
| "redis_sem (HGET k f) d = (opt_reply (rd_hashes d k f), d)"
| "redis_sem (HSET k f v) d =
     (RInt (if rd_hashes d k f = None then 1 else 0), upd_hash k (\<lambda>h. h(f \<mapsto> v)) d)"
| "redis_sem (HDEL k f) d =
     (RInt (if rd_hashes d k f = None then 0 else 1), upd_hash k (\<lambda>h. h(f := None)) d)"
| "redis_sem (ZADD k s m) d =
     (RInt (if List.member (zmembers (rd_zsets d k)) m then 0 else 1), upd_zset k (zadd s m) d)"
| "redis_sem (ZREM k m) d =
     (RInt (if List.member (zmembers (rd_zsets d k)) m then 1 else 0), upd_zset k (zrem m) d)"
| "redis_sem (ZRANGE_ALL k) d = (RArr (zmembers (rd_zsets d k)), d)"
| "redis_sem (RPUSH k v) d = (RInt (int (length (rd_lists d k)) + 1), upd_list k (\<lambda>l. l @ [v]) d)"
| "redis_sem (LPOP k) d =
     (case rd_lists d k of [] \<Rightarrow> (RNil, d) | v # _ \<Rightarrow> (RStr v, upd_list k tl d))"
| "redis_sem (BRPOP k) d =
     (case rd_lists d k of [] \<Rightarrow> (RNil, d)
      | _ # _ \<Rightarrow> (RArr [k, last (rd_lists d k)], upd_list k butlast d))"
| "redis_sem (GETKEY k) d = (opt_reply (rd_strings d k), d)"
| "redis_sem (SETKEY k v ttl) d = (RStr ''OK'', d\<lparr>rd_strings := (rd_strings d)(k \<mapsto> v)\<rparr>)"
| "redis_sem (EVAL script) d = script d"

text \<open>What a command leaves in place, whatever its reply.\<close>

definition call :: "rcmd \<Rightarrow> rdata \<Rightarrow> rdata" where
  "call c d = snd (redis_sem c d)"

lemma call_simps [simp]:
  "call (HEXISTS k f) d = d" "call (HGET k f) d = d"
  "call (HSET k f v) d = upd_hash k (\<lambda>h. h(f \<mapsto> v)) d"
  "call (HDEL k f) d = upd_hash k (\<lambda>h. h(f := None)) d"
  "call (ZADD k s m) d = upd_zset k (zadd s m) d" "call (ZREM k m) d = upd_zset k (zrem m) d"
  "call (RPUSH k v) d = upd_list k (\<lambda>l. l @ [v]) d" "call (ZRANGE_ALL k) d = d" "call (GETKEY k) d = d"
  by (simp_all add: call_def)

definition rdata_ok :: "rdata \<Rightarrow> bool" where
  "rdata_ok d \<longleftrightarrow> (\<forall>k. zset_ok (rd_zsets d k))"

lemma rdata_ok_upd [codec_intros]:
  "rdata_ok d \<Longrightarrow> (\<And>z. zset_ok z \<Longrightarrow> zset_ok (f z)) \<Longrightarrow> rdata_ok (upd_zset k f d)"
  "rdata_ok d \<Longrightarrow> rdata_ok (upd_hash k g d)" "rdata_ok d \<Longrightarrow> rdata_ok (upd_list k h d)"
  by (simp_all add: rdata_ok_def)
section \<open>Plain keys\<close>

text \<open>The plain keys of Redis (the limiter's and the archiver's) may change; what the deliveries rest on stays.\<close>

definition strings_only :: "rdata \<Rightarrow> rdata \<Rightarrow> bool" where
  "strings_only d d' \<longleftrightarrow> (\<exists>m. d' = d\<lparr>rd_strings := m\<rparr>)"

lemma strings_only_refl [simp]: "strings_only d d"
  by (auto simp: strings_only_def intro: exI [of _ "rd_strings d"])

lemma strings_only_zsets: "strings_only d d' \<Longrightarrow> rdata_ok d' = rdata_ok d"
  by (auto simp: strings_only_def rdata_ok_def)

end
