(* ===== verification/Sql.thy ===== *)
theory Sql
  imports Models "HOL-Library.Multiset"
begin

text \<open>
  The tables of \<open>migrations/001\<close> and \<open>002\<close>, and the statements the repositories and the archiver send,
  with the effect their SQL text has. PostgreSQL is not part of the program: what it does to a
  \<open>jsonb\<close> value or a \<open>timestamptz\<close> is a parameter (\<open>pg\<close>), as are its clock and the order in which it
  returns rows that \<open>ORDER BY\<close> does not separate; that it executes these statements is what the
  theorems assume of it (\<open>Services.svc_ok\<close>).
\<close>

section \<open>Rows and tables\<close>

record event_row =
  er_id :: uuid
  er_name :: string
  er_description :: string
  er_start_time :: instant
  er_webhook :: string
  er_metadata :: json
  er_schedule :: "json option"
  er_tags :: "string list"
  er_status :: string
  er_hmac_secret :: "string option"
  er_created_at :: instant
  er_updated_at :: "instant option"
  er_action :: "json option"

record dbdata =
  db_events :: "event_row list"
  db_occs :: "occurrence list"
  db_next_occ :: int
  db_archived_events :: "event_row list"
  db_archived_occs :: "occurrence list"
  db_lock :: "int set"

definition no_dbdata :: dbdata where
  "no_dbdata = \<lparr>db_events = [], db_occs = [], db_next_occ = 1, db_archived_events = [],
     db_archived_occs = [], db_lock = {}\<rparr>"

text \<open>\<open>db_lock\<close> holds the advisory locks that other sessions have.\<close>

text \<open>What a \<open>jsonb\<close> column and a \<open>timestamptz\<close> column keep of a value.\<close>

record pg =
  pg_jsonb :: "json \<Rightarrow> json"
  pg_time :: "instant \<Rightarrow> instant"

section \<open>Statements\<close>

text \<open>One constructor for a statement of the source, with its arguments. \<open>None\<close> is an SQL NULL.\<close>

datatype stmt =
    InsertEvent uuid string string "json option" instant json string "string list option" string instant "instant option" "json option"
  | InsertEventPlain uuid string string instant string json "json option" "string list option" string "string option"
  | SelectEvent uuid
  | SelectEvents
  | SelectEventsByTags "string list"
  | SelectEventsByStatus string
  | SelectEventsFiltered string "string list" "instant option" "instant option"
  | UpdateEventRow string string "json option" instant json string "string list option" string "instant option" "json option" uuid
  | SelectEventId uuid
  | TouchEvent instant uuid
  | DeleteEventRow uuid
  | DeleteOldEventRows instant string
  | DeleteOldOccurrenceRows instant string string
  | InsertOccurrence occurrence
  | SelectOccurrence int
  | SelectOccurrencesByEvent uuid
  | CountOccurrencesByTags "string list"
  | SelectOccurrencesByTags "string list" int int
  | ExistsOccurrence uuid instant
  | SelectLatestOccurrence uuid
  | CountCompleted uuid
  | TryAdvisoryLock int
  | AdvisoryUnlock int
  | ArchiveOldData duration

datatype dbreply =
    DEvents "event_row list"
  | DOccs "occurrence list"
  | DIds "uuid list"
  | DKey int instant
  | DNum int
  | DBool bool
  | DDone

definition has_event :: "dbdata \<Rightarrow> uuid \<Rightarrow> bool" where
  "has_event db i = list_ex (\<lambda>r. er_id r = i) (db_events db)"

definition newest_first :: "event_row list \<Rightarrow> event_row list" where
  "newest_first rs = sort_key (\<lambda>r. - er_created_at r) rs"

definition latest_first :: "occurrence list \<Rightarrow> occurrence list" where
  "latest_first os = sort_key (\<lambda>oc. - oc_scheduled_at oc) os"

definition overlaps :: "string list \<Rightarrow> string list \<Rightarrow> bool" where
  "overlaps xs ys = list_ex (List.member ys) xs"

definition contains_all :: "string list \<Rightarrow> string list \<Rightarrow> bool" where
  "contains_all xs ys = list_all (List.member xs) ys"

text \<open>The join of \<open>ListByTags\<close>: occurrences of a live event that has all the tags.\<close>

definition tagged_occs :: "dbdata \<Rightarrow> string list \<Rightarrow> occurrence list" where
  "tagged_occs db tags =
     filter (\<lambda>oc. list_ex (\<lambda>r. er_id r = oc_event_id oc \<and> contains_all (er_tags r) tags
                                \<and> er_status r \<noteq> EventStatusDeleted) (db_events db)) (db_occs db)"

definition round_occ :: "pg \<Rightarrow> occurrence \<Rightarrow> occurrence" where
  "round_occ P oc = oc\<lparr>oc_scheduled_at := pg_time P (oc_scheduled_at oc), oc_timestamp := pg_time P (oc_timestamp oc),
     oc_started_at := pg_time P (oc_started_at oc), oc_completed_at := pg_time P (oc_completed_at oc)\<rparr>"

text \<open>Deleting an event deletes its occurrences (\<open>ON DELETE CASCADE\<close>).\<close>

definition delete_events :: "(event_row \<Rightarrow> bool) \<Rightarrow> dbdata \<Rightarrow> dbdata" where
  "delete_events p db = db\<lparr>db_events := filter (\<lambda>r. \<not> p r) (db_events db),
     db_occs := filter (\<lambda>oc. \<not> list_ex (\<lambda>r. p r \<and> er_id r = oc_event_id oc) (db_events db)) (db_occs db)\<rparr>"

text \<open>\<open>archive_old_data\<close> of \<open>migrations/001\<close>: its four statements in order.\<close>

definition no_recent_occ :: "instant \<Rightarrow> dbdata \<Rightarrow> event_row \<Rightarrow> bool" where
  "no_recent_occ cutoff db r \<longleftrightarrow>
     \<not> list_ex (\<lambda>oc. oc_event_id oc = er_id r \<and> cutoff \<le> oc_scheduled_at oc) (db_occs db)"

definition archive_old_data :: "instant \<Rightarrow> duration \<Rightarrow> dbdata \<Rightarrow> dbdata" where
  "archive_old_data now retention db =
     (let cutoff = now - retention;
          db1 = db\<lparr>db_archived_occs := db_archived_occs db @ filter (\<lambda>oc. oc_scheduled_at oc < cutoff) (db_occs db)\<rparr>;
          db2 = db1\<lparr>db_archived_events := db_archived_events db1 @ filter (no_recent_occ cutoff db1) (db_events db1)\<rparr>;
          db3 = db2\<lparr>db_occs := filter (\<lambda>oc. \<not> oc_scheduled_at oc < cutoff) (db_occs db2)\<rparr>
      in delete_events (no_recent_occ cutoff db3) db3)"

text \<open>
  The effect of a statement: its reply and the tables after it, or \<open>None\<close> where a constraint of the
  schema does not let it succeed. \<open>now\<close> is the server's clock, \<open>eo\<close> and \<open>oo\<close> the order in which it
  reads the rows.
\<close>

fun sql_sem :: "pg \<Rightarrow> instant \<Rightarrow> (event_row list \<Rightarrow> event_row list) \<Rightarrow> (occurrence list \<Rightarrow> occurrence list)
    \<Rightarrow> stmt \<Rightarrow> dbdata \<Rightarrow> (dbreply \<times> dbdata) option" where
  "sql_sem P now eo oo (InsertEvent i n de sch st m wh tags status ca ua act) db =
     (case tags of
        Some ts \<Rightarrow> if has_event db i then None
          else Some (DIds [i], db\<lparr>db_events := db_events db @
            [\<lparr>er_id = i, er_name = n, er_description = de, er_start_time = pg_time P st, er_webhook = wh,
              er_metadata = pg_jsonb P m, er_schedule = map_option (pg_jsonb P) sch, er_tags = ts, er_status = status,
              er_hmac_secret = None, er_created_at = pg_time P ca, er_updated_at = map_option (pg_time P) ua,
              er_action = map_option (pg_jsonb P) act\<rparr>]\<rparr>)
      | None \<Rightarrow> None)"
| "sql_sem P now eo oo (InsertEventPlain i n de st wh m sch tags status hs) db =
     (case tags of
        Some ts \<Rightarrow> if has_event db i then None
          else Some (DNum 1, db\<lparr>db_events := db_events db @
            [\<lparr>er_id = i, er_name = n, er_description = de, er_start_time = pg_time P st, er_webhook = wh,
              er_metadata = pg_jsonb P m, er_schedule = map_option (pg_jsonb P) sch, er_tags = ts, er_status = status,
              er_hmac_secret = hs, er_created_at = now, er_updated_at = None, er_action = None\<rparr>]\<rparr>)
      | None \<Rightarrow> None)"
| "sql_sem P now eo oo (SelectEvent i) db = Some (DEvents (filter (\<lambda>r. er_id r = i) (db_events db)), db)"
| "sql_sem P now eo oo SelectEvents db = Some (DEvents (newest_first (eo (db_events db))), db)"
| "sql_sem P now eo oo (SelectEventsByTags tags) db =
     Some (DEvents (newest_first (eo (filter (\<lambda>r. overlaps (er_tags r) tags) (db_events db)))), db)"
| "sql_sem P now eo oo (SelectEventsByStatus s) db =
     Some (DEvents (newest_first (eo (filter (\<lambda>r. er_status r = s) (db_events db)))), db)"
| "sql_sem P now eo oo (SelectEventsFiltered s tags before after) db =
     Some (DEvents (newest_first (eo (filter (\<lambda>r. (s = [] \<or> er_status r = s) \<and> (tags = [] \<or> overlaps (er_tags r) tags)
        \<and> (case before of None \<Rightarrow> True | Some t \<Rightarrow> er_start_time r \<le> pg_time P t)
        \<and> (case after of None \<Rightarrow> True | Some t \<Rightarrow> pg_time P t \<le> er_start_time r)) (db_events db)))), db)"
| "sql_sem P now eo oo (UpdateEventRow n de sch st m wh tags status ua act i) db =
     (case tags of
        Some ts \<Rightarrow> Some (DNum (int (length (filter (\<lambda>r. er_id r = i) (db_events db)))),
          db\<lparr>db_events := map (\<lambda>r. if er_id r = i then
             r\<lparr>er_name := n, er_description := de, er_schedule := map_option (pg_jsonb P) sch,
               er_start_time := pg_time P st, er_metadata := pg_jsonb P m, er_webhook := wh, er_tags := ts,
               er_status := status, er_updated_at := map_option (pg_time P) ua,
               er_action := map_option (pg_jsonb P) act\<rparr> else r) (db_events db)\<rparr>)
      | None \<Rightarrow> if has_event db i then None else Some (DNum 0, db))"
| "sql_sem P now eo oo (SelectEventId i) db = Some (DIds (map er_id (filter (\<lambda>r. er_id r = i) (db_events db))), db)"
| "sql_sem P now eo oo (TouchEvent t i) db =
     Some (DNum (int (length (filter (\<lambda>r. er_id r = i) (db_events db)))),
       db\<lparr>db_events := map (\<lambda>r. if er_id r = i then r\<lparr>er_updated_at := Some (pg_time P t)\<rparr> else r) (db_events db)\<rparr>)"
| "sql_sem P now eo oo (DeleteEventRow i) db =
     Some (DNum (int (length (filter (\<lambda>r. er_id r = i) (db_events db)))), delete_events (\<lambda>r. er_id r = i) db)"
| "sql_sem P now eo oo (DeleteOldEventRows cutoff status) db =
     Some (DDone, delete_events (\<lambda>r. (case er_updated_at r of None \<Rightarrow> False | Some u \<Rightarrow> u < pg_time P cutoff)
        \<and> \<not> list_ex (\<lambda>oc. oc_event_id oc = er_id r \<and> pg_time P cutoff \<le> oc_scheduled_at oc \<and> oc_status oc \<noteq> status)
             (db_occs db)) db)"
| "sql_sem P now eo oo (DeleteOldOccurrenceRows cutoff s1 s2) db =
     Some (DDone, db\<lparr>db_occs := filter (\<lambda>oc. \<not> (oc_scheduled_at oc < pg_time P cutoff
        \<and> (oc_status oc = s1 \<or> oc_status oc = s2))) (db_occs db)\<rparr>)"
| "sql_sem P now eo oo (InsertOccurrence oc) db =
     (if has_event db (oc_event_id oc) then
        Some (DKey (db_next_occ db) (pg_time P (oc_timestamp oc)),
          db\<lparr>db_occs := db_occs db @ [(round_occ P oc)\<lparr>oc_id := db_next_occ db\<rparr>], db_next_occ := db_next_occ db + 1\<rparr>)
      else None)"
| "sql_sem P now eo oo (SelectOccurrence i) db = Some (DOccs (filter (\<lambda>oc. oc_id oc = i) (db_occs db)), db)"
| "sql_sem P now eo oo (SelectOccurrencesByEvent i) db =
     Some (DOccs (latest_first (oo (filter (\<lambda>oc. oc_event_id oc = i) (db_occs db)))), db)"
| "sql_sem P now eo oo (CountOccurrencesByTags tags) db = Some (DNum (int (length (tagged_occs db tags))), db)"
| "sql_sem P now eo oo (SelectOccurrencesByTags tags limit offset) db =
     (if 0 \<le> limit \<and> 0 \<le> offset then
        Some (DOccs (take (nat limit) (drop (nat offset) (latest_first (oo (tagged_occs db tags))))), db)
      else None)"
| "sql_sem P now eo oo (ExistsOccurrence i t) db =
     Some (DBool (list_ex (\<lambda>oc. oc_event_id oc = i \<and> oc_scheduled_at oc = pg_time P t) (db_occs db)), db)"
| "sql_sem P now eo oo (SelectLatestOccurrence oi) db =
     Some (DOccs (take 1 (sort_key (\<lambda>oc. - oc_id oc) (filter (\<lambda>oc. oc_occurrence_id oc = oi) (db_occs db)))), db)"
| "sql_sem P now eo oo (CountCompleted i) db =
     Some (DNum (int (length (filter (\<lambda>oc. oc_event_id oc = i \<and> oc_status oc = OccurrenceStatusCompleted) (db_occs db)))), db)"
| "sql_sem P now eo oo (TryAdvisoryLock k) db =
     Some (DBool (k \<notin> db_lock db), db)"
| "sql_sem P now eo oo (AdvisoryUnlock k) db = Some (DDone, db)"
| "sql_sem P now eo oo (ArchiveOldData retention) db = Some (DDone, archive_old_data now retention db)"

section \<open>Tables in good order\<close>

text \<open>The keys of the schema: event identifiers and occurrence numbers are unique, and every
  occurrence belongs to an event.\<close>

definition db_ok :: "dbdata \<Rightarrow> bool" where
  "db_ok db \<longleftrightarrow> distinct (map er_id (db_events db)) \<and> distinct (map oc_id (db_occs db))
     \<and> (\<forall>oc \<in> set (db_occs db). oc_id oc < db_next_occ db \<and> oc_event_id oc \<in> er_id ` set (db_events db))"

lemma has_event_iff: "has_event db i \<longleftrightarrow> i \<in> er_id ` set (db_events db)"
  by (auto simp: has_event_def list_ex_iff)

lemma delete_events_simps [simp]:
  "db_events (delete_events p db) = filter (\<lambda>r. \<not> p r) (db_events db)"
  "db_next_occ (delete_events p db) = db_next_occ db"
  "db_archived_events (delete_events p db) = db_archived_events db"
  "db_archived_occs (delete_events p db) = db_archived_occs db"
  "db_lock (delete_events p db) = db_lock db"
  by (simp_all add: delete_events_def)

lemma distinct_map_filter_pred: "distinct (map f xs) \<Longrightarrow> distinct (map f (filter p xs))"
  by (induction xs) auto

lemma delete_events_ok:
  assumes "db_ok db"
  shows "db_ok (delete_events p db)"
proof -
  have "oc_event_id oc \<in> er_id ` set (filter (\<lambda>r. \<not> p r) (db_events db))"
    if "oc \<in> set (db_occs db)" "\<not> list_ex (\<lambda>r. p r \<and> er_id r = oc_event_id oc) (db_events db)" for oc
    using assms that by (force simp: db_ok_def list_ex_iff)
  with assms show ?thesis
    by (simp add: db_ok_def delete_events_def distinct_map_filter_pred)
qed

lemma db_ok_filter_occs:
  "db_ok db \<Longrightarrow> db_ok (db\<lparr>db_occs := filter p (db_occs db)\<rparr>)"
  by (simp add: db_ok_def distinct_map_filter_pred)

lemma archive_old_data_ok: "db_ok db \<Longrightarrow> db_ok (archive_old_data now retention db)"
  unfolding archive_old_data_def Let_def
  by (intro delete_events_ok) (simp add: db_ok_def distinct_map_filter_pred)

text \<open>Tables that agree on the keys are equally well ordered.\<close>

lemma db_ok_cong:
  assumes "map er_id (db_events db') = map er_id (db_events db)" "db_occs db' = db_occs db"
    "db_next_occ db' = db_next_occ db"
  shows "db_ok db' \<longleftrightarrow> db_ok db"
  using assms unfolding db_ok_def by (metis list.set_map)

lemma db_ok_add_event:
  assumes "db_ok db" "er_id r \<notin> er_id ` set (db_events db)"
  shows "db_ok (db\<lparr>db_events := db_events db @ [r]\<rparr>)"
  using assms by (simp add: db_ok_def)

lemma db_ok_update_events:
  assumes "db_ok db" "\<And>r. er_id (f r) = er_id r"
  shows "db_ok (db\<lparr>db_events := map f (db_events db)\<rparr>)"
  using assms(1) by (subst db_ok_cong [of _ db]) (simp_all add: assms(2) comp_def)

lemma db_ok_add_occ:
  assumes "db_ok db" "oc_id oc = db_next_occ db" "oc_event_id oc \<in> er_id ` set (db_events db)"
  shows "db_ok (db\<lparr>db_occs := db_occs db @ [oc], db_next_occ := db_next_occ db + 1\<rparr>)"
proof -
  have "oc_id oc \<notin> oc_id ` set (db_occs db)" using assms(1,2) by (auto simp: db_ok_def)
  with assms show ?thesis by (auto simp: db_ok_def)
qed

lemmas db_ok_intros =
  delete_events_ok db_ok_filter_occs archive_old_data_ok db_ok_add_event db_ok_update_events db_ok_add_occ

text \<open>Every statement keeps the tables in good order.\<close>

lemma sql_sem_ok:
  assumes "sql_sem P now eo oo st db = Some (x, db')" "db_ok db"
  shows "db_ok db'"
proof (cases st)
  case (InsertEvent i n de sch st' m wh tags status ca ua act)
  with assms show ?thesis by (auto split: option.splits if_splits simp: has_event_iff intro!: db_ok_add_event)
next
  case (InsertEventPlain i n de st' wh m sch tags status hs)
  with assms show ?thesis by (auto split: option.splits if_splits simp: has_event_iff intro!: db_ok_add_event)
next
  case (UpdateEventRow n de sch st' m wh tags status ua act i)
  with assms show ?thesis by (auto split: option.splits if_splits intro!: db_ok_update_events)
next
  case (TouchEvent t i)
  with assms show ?thesis by (auto intro!: db_ok_update_events)
next
  case (InsertOccurrence oc)
  with assms show ?thesis
    by (auto split: if_splits simp: has_event_iff round_occ_def intro!: db_ok_add_occ)
next
  case (DeleteOldOccurrenceRows c s1 s2)
  with assms show ?thesis by (auto intro: db_ok_filter_occs)
next
  case (SelectOccurrencesByTags tags limit offset)
  with assms show ?thesis by (auto split: if_splits)
qed (use assms in \<open>auto intro: delete_events_ok archive_old_data_ok\<close>)

end
