(* ===== verification/Services.thy ===== *)
theory Services
  imports Redis Sql "HOL-Library.State_Monad" "HOL-Library.Monad_Syntax"
begin

text \<open>
  The services the program calls and does not contain: Redis, PostgreSQL, the clock, the source of
  identifiers, the HTTP client and the notifier of websocket clients. They are one record of
  operations on a world of any type, a parameter of every definition that calls them. The program's
  functions are computations over that world (\<open>State_Monad\<close>), with errors as values as in Go.

  \<open>svc_ok\<close> states what they are documented to do, over three views of the world: the Redis data, the
  tables and the messages sent. A call that fails leaves its store as it was or as the call would have
  left it (the reply was lost); each call leaves the other views alone.
\<close>

record http_request =
  rq_method :: string
  rq_url :: string
  rq_headers :: "(string \<times> string) list"
  rq_body :: string

datatype message = HttpRequest http_request | ToClient string string

record 'w svc =
  redis_do :: "rcmd \<Rightarrow> ('w, string + rreply) state"
  sql_do :: "stmt \<Rightarrow> ('w, string + dbreply) state"
  time_now :: "('w, instant) state"
  new_uuid :: "('w, uuid) state"
  http_do :: "http_request \<Rightarrow> ('w, string + int) state"
  notify_client :: "string \<Rightarrow> string \<Rightarrow> ('w, string option) state"

section \<open>Reasoning about computations\<close>

text \<open>The weakest precondition of a computation.\<close>

definition wp :: "('w, 'a) state \<Rightarrow> ('a \<Rightarrow> 'w \<Rightarrow> bool) \<Rightarrow> 'w \<Rightarrow> bool" where
  "wp m Q w = (case run_state m w of (x, w') \<Rightarrow> Q x w')"

lemma wp_return [simp]: "wp (State_Monad.return x) Q w = Q x w"
  by (simp add: wp_def)

lemma wp_bind [simp]: "wp (State_Monad.bind m f) Q w = wp m (\<lambda>x w'. wp (f x) Q w') w"
  by (simp add: wp_def State_Monad.bind_def split: prod.split)

lemma wp_True [simp]: "wp m (\<lambda>_ _. True) w"
  by (simp add: wp_def split: prod.split)

lemma wp_mono: "wp m Q w \<Longrightarrow> (\<And>x w'. Q x w' \<Longrightarrow> R x w') \<Longrightarrow> wp m R w"
  by (auto simp: wp_def split: prod.splits)

lemma wp_conj: "wp m Q w \<Longrightarrow> wp m R w \<Longrightarrow> wp m (\<lambda>x w'. Q x w' \<and> R x w') w"
  by (auto simp: wp_def split: prod.splits)

lemma wp_run: "wp m Q w \<Longrightarrow> run_state m w = (x, w') \<Longrightarrow> Q x w'"
  by (simp add: wp_def)

lemma wpI: "(\<And>x w'. run_state m w = (x, w') \<Longrightarrow> Q x w') \<Longrightarrow> wp m Q w"
  by (auto simp: wp_def split: prod.split)

text \<open>A Go call whose error is returned at once, wrapped by \<open>f\<close>.\<close>

definition attempt :: "('w, 'a result) state \<Rightarrow> (error \<Rightarrow> error) \<Rightarrow> ('a \<Rightarrow> ('w, 'b result) state) \<Rightarrow> ('w, 'b result) state" where
  "attempt m f k = State_Monad.bind m
     (\<lambda>r. case r of Inl e \<Rightarrow> State_Monad.return (Inl (f e)) | Inr x \<Rightarrow> k x)"

lemma wp_attempt [simp]:
  "wp (attempt m f k) Q w = wp m (\<lambda>r w'. (\<forall>e. r = Inl e \<longrightarrow> Q (Inl (f e)) w') \<and> (\<forall>x. r = Inr x \<longrightarrow> wp (k x) Q w')) w"
  unfolding attempt_def wp_bind by (rule arg_cong [where f = "\<lambda>q. wp m q w"]) (auto split: sum.split intro!: ext)

text \<open>Doing something for each element of a list in turn.\<close>

fun for_each :: "('a \<Rightarrow> ('w, unit) state) \<Rightarrow> 'a list \<Rightarrow> ('w, unit) state" where
  "for_each f [] = State_Monad.return ()"
| "for_each f (x # xs) = State_Monad.bind (f x) (\<lambda>_. for_each f xs)"

text \<open>An invariant of every round is one of the loop.\<close>

lemma wp_for_each:
  assumes "I w" "\<And>x w. x \<in> set xs \<Longrightarrow> I w \<Longrightarrow> wp (f x) (\<lambda>_. I) w"
  shows "wp (for_each f xs) (\<lambda>_. I) w"
  using assms
proof (induction xs arbitrary: w)
  case (Cons x xs)
  from Cons.prems have "wp (f x) (\<lambda>_. I) w" by simp
  then show ?case by (simp, rule wp_mono) (rule Cons.IH, use Cons.prems(2) in auto)
qed simp

text \<open>\<open>fst\<close> and \<open>snd\<close> of a run.\<close>

definition result_of :: "('w, 'a) state \<Rightarrow> 'w \<Rightarrow> 'a" where
  "result_of m w = fst (run_state m w)"

definition after :: "('w, 'a) state \<Rightarrow> 'w \<Rightarrow> 'w" where
  "after m w = snd (run_state m w)"

lemma result_return: "result_of (State_Monad.return x) w = x"
  by (simp add: result_of_def)

lemma result_bind: "result_of (State_Monad.bind m f) w = result_of (f (result_of m w)) (after m w)"
  by (simp add: result_of_def after_def State_Monad.bind_def split: prod.split)

lemma wp_result: "wp m Q w \<Longrightarrow> Q (result_of m w) (after m w)"
  by (simp add: wp_def result_of_def after_def split: prod.splits)

lemma wp_self: "wp m (\<lambda>x w'. x = result_of m w \<and> w' = after m w) w"
  by (simp add: wp_def result_of_def after_def split: prod.split)

section \<open>Calls as the Go code makes them\<close>

definition redis :: "'w svc \<Rightarrow> rcmd \<Rightarrow> ('w, rreply result) state" where
  "redis S c = State_Monad.bind (redis_do S c) (\<lambda>r. State_Monad.return (map_sum Errorf id r))"

definition sql :: "'w svc \<Rightarrow> stmt \<Rightarrow> ('w, dbreply result) state" where
  "sql S st = State_Monad.bind (sql_do S st) (\<lambda>r. State_Monad.return (map_sum Errorf id r))"

text \<open>A call whose result the code throws away.\<close>

definition ignore :: "('w, 'a) state \<Rightarrow> ('w, unit) state" where
  "ignore m = State_Monad.bind m (\<lambda>_. State_Monad.return ())"

lemma wp_ignore [simp]: "wp (ignore m) Q w = wp m (\<lambda>_ w'. Q () w') w"
  by (simp add: ignore_def)

section \<open>Documented behaviour\<close>

text \<open>
  \<open>jsonb\<close> keeps scalars, the elements of an array and, for an object without duplicate keys, the value
  of each key; it does not keep the order of the keys. Its numbers are JSON numbers again.
\<close>

definition jsonb_ok :: "(json \<Rightarrow> json) \<Rightarrow> bool" where
  "jsonb_ok jb \<longleftrightarrow> jb JNull = JNull \<and> (\<forall>s. jb (JStr s) = JStr s) \<and> (\<forall>i. jb (enc_int i) = enc_int i)
     \<and> (\<forall>vs. jb (JArr vs) = JArr (map jb vs))
     \<and> (\<forall>kvs. distinct (map fst kvs) \<longrightarrow> (\<exists>kvs'. jb (JObj kvs) = JObj kvs' \<and> distinct (map fst kvs')
          \<and> map_of kvs' = (\<lambda>k. map_option jb (map_of kvs k))))
     \<and> (\<forall>j. wf_json j \<longrightarrow> wf_json (jb j))"

definition pg_ok :: "pg \<Rightarrow> bool" where
  "pg_ok P \<longleftrightarrow> jsonb_ok (pg_jsonb P)"

text \<open>What an operation on a store does, given its documented effect.\<close>

definition serves :: "('w \<Rightarrow> 'd) \<Rightarrow> ('d \<Rightarrow> 'r \<Rightarrow> 'd \<Rightarrow> bool) \<Rightarrow> ('w, string + 'r) state \<Rightarrow> 'w \<Rightarrow> bool" where
  "serves view effect m w =
     (case run_state m w of
        (Inr x, w') \<Rightarrow> effect (view w) x (view w')
      | (Inl e, w') \<Rightarrow> view w' = view w \<or> (\<exists>x. effect (view w) x (view w')))"

definition redis_effect :: "rcmd \<Rightarrow> rdata \<Rightarrow> rreply \<Rightarrow> rdata \<Rightarrow> bool" where
  "redis_effect c d x d' \<longleftrightarrow> redis_sem c d = (x, d')"

definition sql_effect :: "pg \<Rightarrow> stmt \<Rightarrow> dbdata \<Rightarrow> dbreply \<Rightarrow> dbdata \<Rightarrow> bool" where
  "sql_effect P st d x d' \<longleftrightarrow>
     (\<exists>now eo oo. (\<forall>rs. mset (eo rs) = mset rs) \<and> (\<forall>os. mset (oo os) = mset os)
        \<and> sql_sem P now eo oo st d = Some (x, d'))"

text \<open>The three views.\<close>

record 'w views =
  rv :: "'w \<Rightarrow> rdata"
  dv :: "'w \<Rightarrow> dbdata"
  ov :: "'w \<Rightarrow> message list"

definition keeps :: "('w \<Rightarrow> 'v) \<Rightarrow> ('w, 'a) state \<Rightarrow> 'w \<Rightarrow> bool" where
  "keeps view m w \<longleftrightarrow> view (after m w) = view w"

definition svc_ok :: "'w svc \<Rightarrow> pg \<Rightarrow> 'w views \<Rightarrow> bool" where
  "svc_ok S P V \<longleftrightarrow>
     (\<forall>w c. serves (rv V) (redis_effect c) (redis_do S c) w \<and> keeps (dv V) (redis_do S c) w \<and> keeps (ov V) (redis_do S c) w)
   \<and> (\<forall>w st. serves (dv V) (sql_effect P st) (sql_do S st) w \<and> keeps (rv V) (sql_do S st) w \<and> keeps (ov V) (sql_do S st) w)
   \<and> (\<forall>w. keeps (rv V) (time_now S) w \<and> keeps (dv V) (time_now S) w \<and> keeps (ov V) (time_now S) w)
   \<and> (\<forall>w. keeps (rv V) (new_uuid S) w \<and> keeps (dv V) (new_uuid S) w \<and> keeps (ov V) (new_uuid S) w)
   \<and> (\<forall>w q. keeps (rv V) (http_do S q) w \<and> keeps (dv V) (http_do S q) w
        \<and> ov V (after (http_do S q) w) = ov V w @ [HttpRequest q])
   \<and> (\<forall>w c p. keeps (rv V) (notify_client S c p) w \<and> keeps (dv V) (notify_client S c p) w
        \<and> ov V (after (notify_client S c p) w) = ov V w @ [ToClient c p])"

lemmas svc_defs = serves_def keeps_def after_def

text \<open>The rules that carry the laws into weakest preconditions.\<close>

lemma wp_redis:
  assumes ok: "svc_ok S P V"
    and suc: "\<And>x w'. redis_sem c (rv V w) = (x, rv V w') \<Longrightarrow> dv V w' = dv V w \<Longrightarrow> ov V w' = ov V w \<Longrightarrow> Q (Inr x) w'"
    and err: "\<And>e w'. rv V w' = rv V w \<or> rv V w' = call c (rv V w) \<Longrightarrow> dv V w' = dv V w \<Longrightarrow> ov V w' = ov V w \<Longrightarrow> Q (Inl (Errorf e)) w'"
  shows "wp (redis S c) Q w"
proof -
  obtain r w' where r: "run_state (redis_do S c) w = (r, w')" by fastforce
  from ok have k: "serves (rv V) (redis_effect c) (redis_do S c) w" "dv V w' = dv V w" "ov V w' = ov V w"
    using r unfolding svc_ok_def by (simp, metis (no_types) keeps_def after_def snd_conv, metis (no_types) keeps_def after_def snd_conv)
  show ?thesis
  proof (cases r)
    case (Inl e)
    with k r have "rv V w' = rv V w \<or> rv V w' = call c (rv V w)"
      by (auto simp: serves_def redis_effect_def call_def)
    with err k(2,3) r Inl show ?thesis by (simp add: wp_def redis_def State_Monad.bind_def)
  next
    case (Inr x)
    with k r have "redis_sem c (rv V w) = (x, rv V w')" by (simp add: serves_def redis_effect_def)
    with suc k(2,3) r Inr show ?thesis by (simp add: wp_def redis_def State_Monad.bind_def)
  qed
qed

lemma wp_sql:
  assumes ok: "svc_ok S P V"
    and suc: "\<And>x w'. sql_effect P st (dv V w) x (dv V w') \<Longrightarrow> rv V w' = rv V w \<Longrightarrow> ov V w' = ov V w \<Longrightarrow> Q (Inr x) w'"
    and err: "\<And>e w'. dv V w' = dv V w \<or> (\<exists>x. sql_effect P st (dv V w) x (dv V w')) \<Longrightarrow> rv V w' = rv V w \<Longrightarrow> ov V w' = ov V w \<Longrightarrow> Q (Inl (Errorf e)) w'"
  shows "wp (sql S st) Q w"
proof -
  obtain r w' where r: "run_state (sql_do S st) w = (r, w')" by fastforce
  from ok have k: "serves (dv V) (sql_effect P st) (sql_do S st) w" "rv V w' = rv V w" "ov V w' = ov V w"
    using r unfolding svc_ok_def by (simp, metis (no_types) keeps_def after_def snd_conv, metis (no_types) keeps_def after_def snd_conv)
  show ?thesis
  proof (cases r)
    case (Inl e)
    with k r have "dv V w' = dv V w \<or> (\<exists>x. sql_effect P st (dv V w) x (dv V w'))"
      by (auto simp: serves_def)
    with err k(2,3) r Inl show ?thesis by (simp add: wp_def sql_def State_Monad.bind_def)
  next
    case (Inr x)
    with k r have "sql_effect P st (dv V w) x (dv V w')" by (simp add: serves_def)
    with suc k(2,3) r Inr show ?thesis by (simp add: wp_def sql_def State_Monad.bind_def)
  qed
qed

lemma wp_time:
  assumes "svc_ok S P V"
    and "\<And>t w'. rv V w' = rv V w \<Longrightarrow> dv V w' = dv V w \<Longrightarrow> ov V w' = ov V w \<Longrightarrow> Q t w'"
  shows "wp (time_now S) Q w"
  using assms by (auto simp: wp_def svc_ok_def keeps_def after_def split: prod.split) (metis snd_conv)

lemma wp_time_now:
  assumes "svc_ok S P V"
    and "\<And>w'. rv V w' = rv V w \<Longrightarrow> dv V w' = dv V w \<Longrightarrow> ov V w' = ov V w \<Longrightarrow> Q (result_of (time_now S) w) w'"
  shows "wp (time_now S) Q w"
  using assms by (auto simp: wp_def svc_ok_def keeps_def after_def result_of_def split: prod.split) (metis fst_conv snd_conv)

lemma wp_uuid:
  assumes "svc_ok S P V"
    and "\<And>t w'. rv V w' = rv V w \<Longrightarrow> dv V w' = dv V w \<Longrightarrow> ov V w' = ov V w \<Longrightarrow> Q t w'"
  shows "wp (new_uuid S) Q w"
  using assms by (auto simp: wp_def svc_ok_def keeps_def after_def split: prod.split) (metis snd_conv)

lemma wp_http:
  assumes "svc_ok S P V"
    and "\<And>r w'. rv V w' = rv V w \<Longrightarrow> dv V w' = dv V w \<Longrightarrow> ov V w' = ov V w @ [HttpRequest q] \<Longrightarrow> Q r w'"
  shows "wp (http_do S q) Q w"
  using assms by (auto simp: wp_def svc_ok_def keeps_def after_def split: prod.split) (metis snd_conv)

lemma wp_notify:
  assumes "svc_ok S P V"
    and "\<And>r w'. rv V w' = rv V w \<Longrightarrow> dv V w' = dv V w \<Longrightarrow> ov V w' = ov V w @ [ToClient c p] \<Longrightarrow> Q r w'"
  shows "wp (notify_client S c p) Q w"
  using assms by (auto simp: wp_def svc_ok_def keeps_def after_def split: prod.split) (metis snd_conv)

end
