(* ===== verification/Memory.thy ===== *)
theory Memory
  imports Services
begin

text \<open>
  A concrete world: Redis and the tables in memory, a clock that stands still, identifiers in sequence,
  and a fixed answer of the HTTP peer and of the websocket clients. It meets the documented behaviour
  of the services, so the theorems apply to it; their instances are evaluated here.
\<close>

record mem =
  m_redis :: rdata
  m_db :: dbdata
  m_out :: "message list"
  m_time :: instant
  m_next :: nat
  m_http :: "string + int"
  m_client :: "string option"

definition mem_pg :: pg where
  "mem_pg = \<lparr>pg_jsonb = id, pg_time = id\<rparr>"

definition mem_uuid :: "nat \<Rightarrow> uuid" where
  "mem_uuid n = ''00000000-0000-4000-8000-'' @ pad 12 n"

definition mem_svc :: "mem svc" where
  "mem_svc =
     \<lparr>redis_do = (\<lambda>c. State (\<lambda>w. case redis_sem c (m_redis w) of (x, d) \<Rightarrow> (Inr x, w\<lparr>m_redis := d\<rparr>))),
      sql_do = (\<lambda>st. State (\<lambda>w. case sql_sem mem_pg (m_time w) id id st (m_db w) of
          None \<Rightarrow> (Inl ''pq: constraint'', w) | Some (x, d) \<Rightarrow> (Inr x, w\<lparr>m_db := d\<rparr>))),
      time_now = State (\<lambda>w. (m_time w, w)),
      new_uuid = State (\<lambda>w. (mem_uuid (m_next w), w\<lparr>m_next := Suc (m_next w)\<rparr>)),
      http_do = (\<lambda>q. State (\<lambda>w. (m_http w, w\<lparr>m_out := m_out w @ [HttpRequest q]\<rparr>))),
      notify_client = (\<lambda>c p. State (\<lambda>w. (m_client w, w\<lparr>m_out := m_out w @ [ToClient c p]\<rparr>)))\<rparr>"

definition mem_views :: "mem views" where
  "mem_views = \<lparr>rv = m_redis, dv = m_db, ov = m_out\<rparr>"

lemma mem_views_simps [simp]: "rv mem_views = m_redis" "dv mem_views = m_db" "ov mem_views = m_out"
  by (simp_all add: mem_views_def)

text \<open>An empty installation at a given time, with peers that accept everything.\<close>

definition mem_at :: "instant \<Rightarrow> mem" where
  "mem_at t = \<lparr>m_redis = no_rdata, m_db = no_dbdata, m_out = [], m_time = t, m_next = 1, m_http = Inr 200, m_client = None\<rparr>"

lemma mem_at_simps [simp]:
  "m_redis (mem_at t) = no_rdata" "m_db (mem_at t) = no_dbdata" "m_out (mem_at t) = []" "m_time (mem_at t) = t"
  by (simp_all add: mem_at_def)

lemma rdata_ok_empty [simp]: "rdata_ok no_rdata"
  by (simp add: rdata_ok_def no_rdata_def zset_ok_def zmembers_def)

lemma db_ok_empty [simp]: "db_ok no_dbdata"
  by (simp add: db_ok_def no_dbdata_def)

lemma mem_svc_ok: "svc_ok mem_svc mem_pg mem_views"
proof -
  have sql: "sql_effect mem_pg st d x d'" if "sql_sem mem_pg t id id st d = Some (x, d')" for t st d x d'
    unfolding sql_effect_def using that by (intro exI [of _ t] exI [of _ id]) simp
  show ?thesis
    unfolding svc_ok_def mem_svc_def mem_views_def
    by (auto simp: svc_defs redis_effect_def split: prod.split option.split dest: sql)
qed

lemma mem_pg_ok: "pg_ok mem_pg"
  by (auto simp: pg_ok_def jsonb_ok_def mem_pg_def option.map_id0)

lemma mem_answers: "is_ok (result_of (redis_do mem_svc c) w)"
  by (simp add: mem_svc_def result_of_def split: prod.split)

text \<open>Evaluation of computations over this world.\<close>

lemma mem_wp:
  "wp (redis mem_svc c) Q w = (case redis_sem c (m_redis w) of (x, d) \<Rightarrow> Q (Inr x) (w\<lparr>m_redis := d\<rparr>))"
  "wp (sql mem_svc st) Q' w = (case sql_sem mem_pg (m_time w) id id st (m_db w) of
     None \<Rightarrow> Q' (Inl (Errorf ''pq: constraint'')) w | Some (x, d) \<Rightarrow> Q' (Inr x) (w\<lparr>m_db := d\<rparr>))"
  "wp (time_now mem_svc) R w = R (m_time w) w"
  "wp (new_uuid mem_svc) R' w = R' (mem_uuid (m_next w)) (w\<lparr>m_next := Suc (m_next w)\<rparr>)"
  "wp (http_do mem_svc q) T w = T (m_http w) (w\<lparr>m_out := m_out w @ [HttpRequest q]\<rparr>)"
  "wp (notify_client mem_svc cl p) U w = U (m_client w) (w\<lparr>m_out := m_out w @ [ToClient cl p]\<rparr>)"
  by (simp_all add: wp_def redis_def sql_def mem_svc_def State_Monad.bind_def split: prod.split option.split)

text \<open>An event, an occurrence of it, and the installation that knows them.\<close>

definition demo_event :: event where
  "demo_event = \<lparr>ev_id = mem_uuid 0, ev_name = ''job'', ev_description = [], ev_start_time = 60 * second,
     ev_webhook = ''http://host/hook'', ev_action = None, ev_metadata = JObj [], ev_schedule = None,
     ev_tags = Some [''nightly''], ev_status = EventStatusActive, ev_hmac_secret = None,
     ev_created_at = 0, ev_updated_at = None\<rparr>"

definition demo_occurrence :: occurrence where
  "demo_occurrence = \<lparr>oc_id = 0, oc_occurrence_id = mem_uuid 7, oc_event_id = mem_uuid 0, oc_scheduled_at = 60 * second,
     oc_status = OccurrenceStatusPending, oc_attempt_count = 0, oc_timestamp = 0, oc_status_code = 0,
     oc_response_body = [], oc_error_message = [], oc_started_at = zero_time, oc_completed_at = zero_time\<rparr>"

definition demo_row :: event_row where
  "demo_row = \<lparr>er_id = mem_uuid 0, er_name = ''job'', er_description = [], er_start_time = 60 * second,
     er_webhook = ''http://host/hook'', er_metadata = JObj [], er_schedule = None, er_tags = [''nightly''],
     er_status = EventStatusActive, er_hmac_secret = None, er_created_at = 0, er_updated_at = None,
     er_action = Some (JObj [(''type'', JStr ''webhook''), (''params'', JObj [(''url'', JStr ''http://host/hook'')])])\<rparr>"

definition demo_mem :: mem where
  "demo_mem = (mem_at (120 * second))\<lparr>m_db := no_dbdata\<lparr>db_events := [demo_row]\<rparr>\<rparr>"

lemma demo_mem_ok [simp]: "rdata_ok (m_redis demo_mem)" "db_ok (m_db demo_mem)"
  by (simp_all add: demo_mem_def) (simp add: db_ok_def no_dbdata_def)

end
