(* ===== verification/OccurrenceRepository.thy ===== *)
theory OccurrenceRepository
  imports Memory
begin

text \<open>
  \<open>internal/repository/occurrence_repository.go\<close>, and the two occurrence operations of
  \<open>event_repository.go\<close>. \<open>sql.ErrNoRows\<close> is an empty list of rows. A reply of the wrong kind, which the
  driver would refuse to scan, is an error.
\<close>

definition scan_error :: error where
  "scan_error = Errorf ''sql: Scan error''"

definition ErrNoRows :: error where
  "ErrNoRows = Errorf ''sql: no rows in result set''"

section \<open>Reading\<close>

definition occ_GetByID :: "'w svc \<Rightarrow> int \<Rightarrow> ('w, occurrence option result) state" where
  "occ_GetByID S i =
     attempt (sql S (SelectOccurrence i)) id
     (\<lambda>r. State_Monad.return (case r of DOccs [] \<Rightarrow> Inr None | DOccs (oc # _) \<Rightarrow> Inr (Some oc) | _ \<Rightarrow> Inl scan_error))"

record occurrence_filter =
  of_tags :: "string list"
  of_page :: int
  of_limit :: int

definition occ_ListByTags :: "'w svc \<Rightarrow> occurrence_filter \<Rightarrow> ('w, (occurrence list \<times> int) result) state" where
  "occ_ListByTags S f =
     attempt (sql S (CountOccurrencesByTags (of_tags f))) id
     (\<lambda>c. case c of
        DNum n \<Rightarrow>
          attempt (sql S (SelectOccurrencesByTags (of_tags f) (of_limit f) (wrap64 (wrap64 (of_page f - 1) * of_limit f)))) id
          (\<lambda>r. State_Monad.return (case r of DOccs ocs \<Rightarrow> Inr (ocs, n) | _ \<Rightarrow> Inl scan_error))
      | _ \<Rightarrow> State_Monad.return (Inl scan_error))"

definition occ_ListByEventID :: "'w svc \<Rightarrow> uuid \<Rightarrow> ('w, occurrence list result) state" where
  "occ_ListByEventID S i =
     attempt (sql S (SelectOccurrencesByEvent i)) id
     (\<lambda>r. State_Monad.return (case r of DOccs ocs \<Rightarrow> Inr ocs | _ \<Rightarrow> Inl scan_error))"

definition ExistsAtTime :: "'w svc \<Rightarrow> uuid \<Rightarrow> instant \<Rightarrow> ('w, bool result) state" where
  "ExistsAtTime S i t =
     attempt (sql S (ExistsOccurrence i t)) id
     (\<lambda>r. State_Monad.return (case r of DBool b \<Rightarrow> Inr b | _ \<Rightarrow> Inl scan_error))"

definition GetLatestByOccurrenceID :: "'w svc \<Rightarrow> uuid \<Rightarrow> ('w, occurrence result) state" where
  "GetLatestByOccurrenceID S oi =
     attempt (sql S (SelectLatestOccurrence oi)) id
     (\<lambda>r. State_Monad.return (case r of DOccs (oc # _) \<Rightarrow> Inr oc | DOccs [] \<Rightarrow> Inl ErrNoRows | _ \<Rightarrow> Inl scan_error))"

definition CountCompletedByEventID :: "'w svc \<Rightarrow> uuid \<Rightarrow> ('w, int result) state" where
  "CountCompletedByEventID S i =
     attempt (sql S (CountCompleted i)) id
     (\<lambda>r. State_Monad.return (case r of DNum n \<Rightarrow> Inr n | _ \<Rightarrow> Inl scan_error))"

section \<open>Recording\<close>

text \<open>\<open>RETURNING id, timestamp\<close> goes back into the occurrence.\<close>

definition occ_Create :: "'w svc \<Rightarrow> occurrence \<Rightarrow> ('w, occurrence result) state" where
  "occ_Create S oc =
     attempt (sql S (InsertOccurrence oc)) id
     (\<lambda>r. State_Monad.return (case r of DKey i t \<Rightarrow> Inr (oc\<lparr>oc_id := i, oc_timestamp := t\<rparr>) | _ \<Rightarrow> Inl scan_error))"

definition CreateOccurrence :: "'w svc \<Rightarrow> occurrence \<Rightarrow> ('w, occurrence result) state" where
  "CreateOccurrence S oc = do {
     oid \<leftarrow> (if oc_occurrence_id oc = nil_uuid then new_uuid S else State_Monad.return (oc_occurrence_id oc));
     ts \<leftarrow> (if is_zero (oc_timestamp oc) then time_now S else State_Monad.return (oc_timestamp oc));
     attempt (sql S (InsertOccurrence (oc\<lparr>oc_occurrence_id := oid, oc_timestamp := ts\<rparr>))) (wrap_err ''error creating occurrence'')
     (\<lambda>r. State_Monad.return (case r of
        DKey i t \<Rightarrow> Inr (oc\<lparr>oc_occurrence_id := oid, oc_id := i, oc_timestamp := t\<rparr>)
      | _ \<Rightarrow> Inl (wrap_err ''error creating occurrence'' scan_error))) }"

definition GetOccurrenceByID :: "'w svc \<Rightarrow> int \<Rightarrow> ('w, occurrence option result) state" where
  "GetOccurrenceByID S i =
     attempt (sql S (SelectOccurrence i)) (wrap_err ''error getting occurrence'')
     (\<lambda>r. State_Monad.return (case r of
        DOccs [] \<Rightarrow> Inr None
      | DOccs (oc # _) \<Rightarrow> Inr (Some oc)
      | _ \<Rightarrow> Inl (wrap_err ''error getting occurrence'' scan_error)))"

section \<open>What the operations do to the tables\<close>

text \<open>The table after an insertion.\<close>

definition add_occurrence :: "pg \<Rightarrow> occurrence \<Rightarrow> dbdata \<Rightarrow> dbdata" where
  "add_occurrence P oc db =
     db\<lparr>db_occs := db_occs db @ [(round_occ P oc)\<lparr>oc_id := db_next_occ db\<rparr>], db_next_occ := db_next_occ db + 1\<rparr>"

lemma insert_occurrence_effect:
  "sql_effect P (InsertOccurrence oc) db x db' \<longleftrightarrow>
     has_event db (oc_event_id oc) \<and> x = DKey (db_next_occ db) (pg_time P (oc_timestamp oc)) \<and> db' = add_occurrence P oc db"
  by (auto simp: sql_effect_def add_occurrence_def intro: exI [of _ id])

lemma occ_Create_wp:
  assumes ok: "svc_ok S P V"
  shows "wp (occ_Create S oc) (\<lambda>r w'. rv V w' = rv V w \<and> ov V w' = ov V w \<and>
     (case r of
        Inr oc' \<Rightarrow> has_event (dv V w) (oc_event_id oc) \<and> dv V w' = add_occurrence P oc (dv V w)
          \<and> oc' = oc\<lparr>oc_id := db_next_occ (dv V w), oc_timestamp := pg_time P (oc_timestamp oc)\<rparr>
      | Inl _ \<Rightarrow> dv V w' = dv V w \<or> (has_event (dv V w) (oc_event_id oc) \<and> dv V w' = add_occurrence P oc (dv V w)))) w"
  unfolding occ_Create_def wp_attempt
  by (rule wp_sql [OF ok]) (auto simp: insert_occurrence_effect)

text \<open>A statement that only reads leaves the tables as they are.\<close>

fun reads_only :: "stmt \<Rightarrow> bool" where
  "reads_only (SelectEvent _) = True" | "reads_only SelectEvents = True" | "reads_only (SelectEventsByTags _) = True"
| "reads_only (SelectEventsByStatus _) = True" | "reads_only (SelectEventsFiltered _ _ _ _) = True"
| "reads_only (SelectEventId _) = True" | "reads_only (SelectOccurrence _) = True"
| "reads_only (SelectOccurrencesByEvent _) = True" | "reads_only (CountOccurrencesByTags _) = True"
| "reads_only (SelectOccurrencesByTags _ _ _) = True" | "reads_only (ExistsOccurrence _ _) = True"
| "reads_only (SelectLatestOccurrence _) = True" | "reads_only (CountCompleted _) = True"
| "reads_only (TryAdvisoryLock _) = True" | "reads_only (AdvisoryUnlock _) = True" | "reads_only _ = False"

lemma reads_only_same: "reads_only st \<Longrightarrow> sql_effect P st db x db' \<Longrightarrow> db' = db"
  by (cases st) (auto simp: sql_effect_def split: if_splits)

lemma wp_sql_read:
  assumes ok: "svc_ok S P V" "reads_only st"
    and suc: "\<And>x w'. sql_effect P st (dv V w) x (dv V w) \<Longrightarrow> dv V w' = dv V w \<Longrightarrow> rv V w' = rv V w \<Longrightarrow> ov V w' = ov V w \<Longrightarrow> Q (Inr x) w'"
    and err: "\<And>e w'. dv V w' = dv V w \<Longrightarrow> rv V w' = rv V w \<Longrightarrow> ov V w' = ov V w \<Longrightarrow> Q (Inl (Errorf e)) w'"
  shows "wp (sql S st) Q w"
  by (rule wp_sql [OF ok(1)]) (metis suc reads_only_same [OF ok(2)], metis err reads_only_same [OF ok(2)])

lemma ExistsAtTime_wp:
  assumes ok: "svc_ok S P V"
  shows "wp (ExistsAtTime S i t) (\<lambda>r w'. dv V w' = dv V w \<and> rv V w' = rv V w \<and> ov V w' = ov V w
     \<and> (\<forall>b. r = Inr b \<longrightarrow> (b \<longleftrightarrow> (\<exists>oc \<in> set (db_occs (dv V w)). oc_event_id oc = i \<and> oc_scheduled_at oc = pg_time P t)))) w"
  unfolding ExistsAtTime_def wp_attempt
  by (rule wp_sql_read [OF ok]) (auto simp: sql_effect_def list_ex_iff)

lemma CountCompleted_wp:
  assumes ok: "svc_ok S P V"
  shows "wp (CountCompletedByEventID S i) (\<lambda>r w'. dv V w' = dv V w \<and> rv V w' = rv V w \<and> ov V w' = ov V w
     \<and> (\<forall>n. r = Inr n \<longrightarrow> n = int (length (filter (\<lambda>oc. oc_event_id oc = i \<and> oc_status oc = OccurrenceStatusCompleted)
          (db_occs (dv V w)))))) w"
  unfolding CountCompletedByEventID_def wp_attempt
  by (rule wp_sql_read [OF ok]) (auto simp: sql_effect_def)

text \<open>A page of the occurrences of a tag: at most \<open>limit\<close> of them, newest first, each of an event with
  all the tags that is not marked deleted.\<close>

lemma latest_first_sorted: "sorted_wrt (\<lambda>a b. oc_scheduled_at b \<le> oc_scheduled_at a) (latest_first os)"
proof -
  have "sorted_wrt (\<lambda>a b. a \<le> b) (map (\<lambda>oc. - oc_scheduled_at oc) (latest_first os))"
    unfolding latest_first_def by simp
  then show ?thesis by (simp add: sorted_wrt_map)
qed

definition tagged_page :: "dbdata \<Rightarrow> string list \<Rightarrow> int \<Rightarrow> int \<Rightarrow> occurrence list \<Rightarrow> bool" where
  "tagged_page db tags limit offset page \<longleftrightarrow>
     (\<exists>all. mset all = mset (tagged_occs db tags) \<and> sorted_wrt (\<lambda>a b. oc_scheduled_at b \<le> oc_scheduled_at a) all
        \<and> page = take (nat limit) (drop (nat offset) all))"

lemma count_effect:
  "sql_effect P (CountOccurrencesByTags tags) db x db' \<longleftrightarrow> x = DNum (int (length (tagged_occs db tags))) \<and> db' = db"
  by (auto simp: sql_effect_def intro: exI [of _ id])

lemma page_effect:
  assumes "sql_effect P (SelectOccurrencesByTags tags limit offset) db x db'"
  shows "\<exists>page. x = DOccs page \<and> tagged_page db tags limit offset page"
proof -
  from assms obtain oo where oo: "\<forall>os. mset (oo os) = mset os"
    "x = DOccs (take (nat limit) (drop (nat offset) (latest_first (oo (tagged_occs db tags)))))"
    by (auto simp: sql_effect_def split: if_splits)
  have "mset (latest_first (oo (tagged_occs db tags))) = mset (tagged_occs db tags)"
    using oo(1) by (simp add: latest_first_def)
  with oo(2) latest_first_sorted show ?thesis unfolding tagged_page_def by blast
qed

lemma occ_ListByTags_wp:
  assumes ok: "svc_ok S P V"
  shows "wp (occ_ListByTags S f) (\<lambda>r w'. dv V w' = dv V w \<and> rv V w' = rv V w \<and> ov V w' = ov V w
     \<and> (\<forall>ocs n. r = Inr (ocs, n) \<longrightarrow> n = int (length (tagged_occs (dv V w) (of_tags f)))
          \<and> tagged_page (dv V w) (of_tags f) (of_limit f) (wrap64 (wrap64 (of_page f - 1) * of_limit f)) ocs)) w"
  unfolding occ_ListByTags_def wp_attempt
  by (rule wp_sql_read [OF ok]) (auto simp: count_effect intro!: wp_sql_read [OF ok] dest!: page_effect)

end
