(* ===== verification/Recurrence.thy ===== *)
theory Recurrence
  imports GoTime
begin

text \<open>
  Go's loops \<open>for t := start; t.Before(end); t = advance(t) { body }\<close> over instants. A loop whose
  \<open>advance\<close> makes no progress does not return: that is \<open>None\<close>. The locale \<open>recurrence\<close> is the
  contract of an advance, and the frequencies of the program interpret it.
\<close>

section \<open>Loops over instants\<close>

partial_function (option) for_loop ::
  "(instant \<Rightarrow> instant) \<Rightarrow> (instant \<Rightarrow> 'a list) \<Rightarrow> instant \<Rightarrow> instant \<Rightarrow> 'a list option" where
  "for_loop adv body endt t =
     (if t < endt then Option.bind (for_loop adv body endt (adv t)) (\<lambda>rest. Some (body t @ rest))
      else Some [])"

text \<open>The instants a loop visits.\<close>

definition visits :: "(instant \<Rightarrow> instant) \<Rightarrow> instant \<Rightarrow> instant \<Rightarrow> instant list option" where
  "visits adv endt t = for_loop adv (\<lambda>t. [t]) endt t"

lemma for_loop_done [simp]: "\<not> t < endt \<Longrightarrow> for_loop adv body endt t = Some []"
  by (subst for_loop.simps) simp

lemma for_loop_step:
  "t < endt \<Longrightarrow> for_loop adv body endt t = Option.bind (for_loop adv body endt (adv t)) (\<lambda>rest. Some (body t @ rest))"
  by (subst for_loop.simps) simp

lemma visits_done [simp]: "\<not> t < endt \<Longrightarrow> visits adv endt t = Some []"
  by (simp add: visits_def)

lemma visits_step:
  "t < endt \<Longrightarrow> visits adv endt t = map_option (Cons t) (visits adv endt (adv t))"
  by (cases "for_loop adv (\<lambda>t. [t]) endt (adv t)") (auto simp: visits_def for_loop_step)

lemma visits_Some_cases:
  assumes "visits adv endt t = Some ts"
  obtains "\<not> t < endt" "ts = []" | us where "t < endt" "ts = t # us" "visits adv endt (adv t) = Some us"
  using assms by (cases "t < endt") (auto simp: visits_step)

text \<open>A loop returns exactly when its visits are finitely many, with the bodies' results in order.\<close>

lemma for_loop_visits:
  assumes "visits adv endt t = Some ts"
  shows "for_loop adv body endt t = Some (concat (map body ts))"
  using assms
proof (induction ts arbitrary: t)
  case Nil
  then show ?case by (auto elim: visits_Some_cases)
next
  case (Cons x xs)
  from Cons.prems have "t < endt" "x = t" "visits adv endt (adv t) = Some xs"
    by (auto elim: visits_Some_cases)
  with Cons.IH [of "adv t"] show ?case by (simp add: for_loop_step)
qed

lemma for_loop_Some_visits:
  assumes "for_loop adv body endt t = Some r"
  shows "\<exists>ts. visits adv endt t = Some ts"
proof (rule for_loop.raw_induct [where P = "\<lambda>adv body endt t r. \<exists>ts. visits adv endt t = Some ts", OF _ assms])
  fix f :: "(instant \<Rightarrow> instant) \<Rightarrow> (instant \<Rightarrow> 'a list) \<Rightarrow> instant \<Rightarrow> instant \<Rightarrow> 'a list option"
    and adv body endt t r
  assume IH: "\<And>adv body endt t r. f adv body endt t = Some r \<Longrightarrow> \<exists>ts. visits adv endt t = Some ts"
    and eq: "(if t < endt then Option.bind (f adv body endt (adv t)) (\<lambda>rest. Some (body t @ rest))
              else Some []) = Some r"
  show "\<exists>ts. visits adv endt t = Some ts"
  proof (cases "t < endt")
    case True
    with eq obtain r' where "f adv body endt (adv t) = Some r'"
      by (auto simp: Option.bind_eq_Some_conv)
    from IH [OF this] True show ?thesis by (auto simp: visits_step)
  qed simp
qed

lemma for_loop_None_iff: "for_loop adv body endt t = None \<longleftrightarrow> visits adv endt t = None"
  by (metis for_loop_Some_visits for_loop_visits not_None_eq)

text \<open>An advance that never moves forward: the loop does not return.\<close>

lemma for_loop_stuck:
  assumes "\<And>x. adv x \<le> x" "t < endt"
  shows "for_loop adv body endt t = None"
proof -
  have "\<exists>x. x < adv x" if ret: "for_loop adv body endt t = Some r" "t < endt" for t r
  proof (rule ccontr)
    assume "\<not> (\<exists>x. x < adv x)"
    then have le: "adv x \<le> x" for x by (meson not_less)
    obtain ts where "visits adv endt t = Some ts" using for_loop_Some_visits [OF ret(1)] by blast
    then show False using ret(2)
    proof (induction ts arbitrary: t)
      case Nil
      then show ?case by (auto elim: visits_Some_cases)
    next
      case (Cons u us)
      from Cons.prems have "visits adv endt (adv t) = Some us" by (auto elim: visits_Some_cases)
      moreover have "adv t < endt" using le [of t] Cons.prems(2) by simp
      ultimately show ?case by (rule Cons.IH)
    qed
  qed
  with assms show ?thesis by (meson not_le option.exhaust)
qed

section \<open>The contract of an advance\<close>

locale recurrence =
  fixes adv :: "int \<Rightarrow> instant \<Rightarrow> instant"
    and gap :: int
    and lim :: int
  assumes gap_pos: "0 < gap"
    and progress: "1 \<le> i \<Longrightarrow> i \<le> lim \<Longrightarrow> sane t \<Longrightarrow> t + gap * i \<le> adv i t"
begin

lemma gap_le: "1 \<le> i \<Longrightarrow> gap \<le> gap * i"
  using gap_pos by (simp add: mult_le_cancel_left1)

lemma later:
  "1 \<le> i \<Longrightarrow> i \<le> lim \<Longrightarrow> sane t \<Longrightarrow> t + gap \<le> adv i t"
  using progress gap_le by fastforce

text \<open>The loop returns.\<close>

lemma visits_returns:
  assumes "1 \<le> i" "i \<le> lim" "sane t" "sane endt"
  shows "\<exists>ts. visits (adv i) endt t = Some ts"
  using assms(3)
proof (induction "nat (endt - t)" arbitrary: t rule: less_induct)
  case less
  show ?case
  proof (cases "t < endt")
    case True
    have le: "t + gap \<le> adv i t" by (rule later) fact+
    show ?thesis
    proof (cases "adv i t < endt")
      case False
      with True show ?thesis by (simp add: visits_step)
    next
      case adv: True
      have "sane (adv i t)"
        using le less.prems assms(4) adv gap_pos zdiv_mono1 [of t "adv i t" second]
          zdiv_mono1 [of "adv i t" endt second] by (auto simp: sane_def unix_def second_def)
      moreover have "nat (endt - adv i t) < nat (endt - t)" using le adv gap_pos by simp
      ultimately have "\<exists>ts. visits (adv i) endt (adv i t) = Some ts" by (intro less.hyps)
      with True show ?thesis by (auto simp: visits_step)
    qed
  qed simp
qed

text \<open>Its visits start at \<open>t\<close>, stay before the end, and are at least \<open>gap\<close> apart.\<close>

lemma visits_spaced:
  assumes "visits (adv i) endt t = Some ts" "1 \<le> i" "i \<le> lim" "sane t" "sane endt"
  shows "(\<forall>x \<in> set ts. t \<le> x \<and> x < endt) \<and> sorted_wrt (\<lambda>a b. a + gap \<le> b) ts"
  using assms(1,4)
proof (induction ts arbitrary: t)
  case (Cons u us)
  from Cons.prems have u: "u = t" "t < endt" and us: "visits (adv i) endt (adv i t) = Some us"
    by (auto elim: visits_Some_cases)
  have le: "t + gap \<le> adv i t" by (rule later) fact+
  show ?case
  proof (cases "adv i t < endt")
    case False
    with us have "us = []" by simp
    with u show ?thesis by simp
  next
    case True
    have "sane (adv i t)"
      using le Cons.prems assms(5) True gap_pos zdiv_mono1 [of t "adv i t" second]
        zdiv_mono1 [of "adv i t" endt second] by (auto simp: sane_def unix_def second_def)
    from Cons.IH [OF us this] u le gap_pos show ?thesis by fastforce
  qed
qed simp

lemma visits_count:
  assumes "visits (adv i) endt t = Some ts" "1 \<le> i" "i \<le> lim" "sane t" "sane endt" "t \<le> endt"
  shows "int (length ts) * gap \<le> endt - t + gap"
proof -
  have len: "t + int (length us) * gap < endt"
    if "sorted_wrt (\<lambda>a b. a + gap \<le> b) (t # us)" "last (t # us) < endt" for us t
    using that
  proof (induction us arbitrary: t)
    case (Cons w ws)
    from Cons.prems Cons.IH [of w] have "t + gap \<le> w" "w + int (length ws) * gap < endt"
      by (simp_all split: if_splits)
    then show ?case by (simp add: algebra_simps)
  qed simp
  note sp = visits_spaced [OF assms(1-5)]
  show ?thesis
  proof (cases ts)
    case Nil
    with assms(6) gap_pos show ?thesis by simp
  next
    case (Cons u us)
    then have "u = t" using assms(1) by (auto elim: visits_Some_cases)
    with sp Cons have "t + int (length us) * gap < endt" by (intro len) auto
    with Cons gap_pos show ?thesis by (simp add: algebra_simps)
  qed
qed

text \<open>Every iterate is visited, as long as the iterates before it are inside the window.\<close>

lemma visits_iterates:
  assumes "visits (adv i) endt t = Some ts" "\<And>m. m \<le> n \<Longrightarrow> (adv i ^^ m) t < endt"
  shows "(adv i ^^ n) t \<in> set ts"
  using assms
proof (induction n arbitrary: t ts)
  case 0
  from 0(2) [of 0] 0(1) show ?case by (auto elim: visits_Some_cases)
next
  case (Suc n)
  from Suc.prems(2) [of 0] Suc.prems(1) obtain us where us: "ts = t # us" "visits (adv i) endt (adv i t) = Some us"
    by (auto elim: visits_Some_cases)
  have "(adv i ^^ m) (adv i t) < endt" if "m \<le> n" for m
    using Suc.prems(2) [of "Suc m"] that by (simp add: funpow_swap1)
  from Suc.IH [OF us(2) this] us(1) show ?case by (simp add: funpow_swap1)
qed

end

section \<open>The frequencies\<close>

interpretation minutely: recurrence "\<lambda>i t. add_dur t (dur_mul i minute)" minute "10 ^ 8"
  by unfold_locales (auto simp: minute_def add_dur_def dur_mul_def is_int64_def wrap64_id mult.commute)

interpretation hourly: recurrence "\<lambda>i t. add_dur t (dur_mul i hour)" hour "2 * 10 ^ 6"
  by unfold_locales (auto simp: hour_def add_dur_def dur_mul_def is_int64_def wrap64_id mult.commute)

interpretation daily: recurrence "\<lambda>i t. add_date 0 t 0 0 i" day_ns "10 ^ 12"
  by unfold_locales (auto simp: add_days day_ns_def)

interpretation weekly: recurrence "\<lambda>i t. add_date 0 t 0 0 (wrap64 (7 * i))" "7 * day_ns" "10 ^ 11"
  by unfold_locales (auto simp: add_days is_int64_def wrap64_id day_ns_def)

interpretation monthly: recurrence "\<lambda>i t. add_date 0 t 0 i 0" "28 * day_ns" "10 ^ 10"
proof
  show "t + 28 * day_ns * i \<le> add_date 0 t 0 i 0" if "1 \<le> i" "i \<le> 10 ^ 10" "sane t" for i t
    using add_months(1) [of t i] that by (simp add: mult.assoc mult.commute [of i])
qed (simp add: day_ns_def)

interpretation yearly: recurrence "\<lambda>i t. add_date 0 t i 0 0" "12 * 28 * day_ns" "8 * 10 ^ 8"
proof
  show "t + 12 * 28 * day_ns * i \<le> add_date 0 t i 0 0" if "1 \<le> i" "i \<le> 8 * 10 ^ 8" "sane t" for i t
    using add_months(1) [of t "12 * i"] that by (simp add: add_years mult.assoc mult.left_commute mult.commute)
qed (simp add: day_ns_def)

end
