(* ===== verification/ScheduleRules.thy ===== *)
theory ScheduleRules
  imports Models Recurrence
begin

text \<open>
  \<open>internal/scheduler/schedule.go\<close>: the standalone recurrence rules, their validation, and the
  bounded enumeration of their occurrences. The advance of a frequency is shared with the expander.
\<close>

section \<open>Frequencies\<close>

definition FrequencyMinutely :: string where "FrequencyMinutely = ''minutely''"
definition FrequencyHourly :: string where "FrequencyHourly = ''hourly''"
definition FrequencyDaily :: string where "FrequencyDaily = ''daily''"
definition FrequencyWeekly :: string where "FrequencyWeekly = ''weekly''"
definition FrequencyMonthly :: string where "FrequencyMonthly = ''monthly''"
definition FrequencyYearly :: string where "FrequencyYearly = ''yearly''"

lemmas frequency_defs =
  FrequencyMinutely_def FrequencyHourly_def FrequencyDaily_def FrequencyWeekly_def
  FrequencyMonthly_def FrequencyYearly_def

definition frequencies :: "string list" where
  "frequencies = [FrequencyMinutely, FrequencyHourly, FrequencyDaily, FrequencyWeekly,
     FrequencyMonthly, FrequencyYearly]"

text \<open>The switch that moves a UTC time on by one interval; an unknown frequency does not move it.\<close>

definition advance :: "string \<Rightarrow> int \<Rightarrow> instant \<Rightarrow> instant" where
  "advance f i t =
     (if f = FrequencyMinutely then add_dur t (dur_mul i minute)
      else if f = FrequencyHourly then add_dur t (dur_mul i hour)
      else if f = FrequencyDaily then add_date 0 t 0 0 i
      else if f = FrequencyWeekly then add_date 0 t 0 0 (wrap64 (7 * i))
      else if f = FrequencyMonthly then add_date 0 t 0 i 0
      else if f = FrequencyYearly then add_date 0 t i 0 0
      else t)"

text \<open>
  The intervals for which the arithmetic of the advance stays inside 64 bits and the years inside
  the range of \<open>time.Time\<close>, and the least distance between two occurrences.
\<close>

definition interval_limit :: "string \<Rightarrow> int" where
  "interval_limit f =
     (if f = FrequencyMinutely then 10 ^ 8 else if f = FrequencyHourly then 2 * 10 ^ 6
      else if f = FrequencyDaily then 10 ^ 12 else if f = FrequencyWeekly then 10 ^ 11
      else if f = FrequencyMonthly then 10 ^ 10 else if f = FrequencyYearly then 8 * 10 ^ 8 else 0)"

definition least_gap :: "string \<Rightarrow> int" where
  "least_gap f =
     (if f = FrequencyMinutely then minute else if f = FrequencyHourly then hour
      else if f = FrequencyDaily then day_ns else if f = FrequencyWeekly then 7 * day_ns
      else if f = FrequencyMonthly then 28 * day_ns else 12 * 28 * day_ns)"

definition interval_ok :: "string \<Rightarrow> int \<Rightarrow> bool" where
  "interval_ok f i \<longleftrightarrow> 1 \<le> i \<and> i \<le> interval_limit f"

lemma interval_ok_frequency: "interval_ok f i \<Longrightarrow> f \<in> set frequencies"
  by (auto simp: interval_ok_def interval_limit_def frequencies_def split: if_splits)

lemma frequency_cases [consumes 1, case_names minutely hourly daily weekly monthly yearly]:
  assumes "f \<in> set frequencies"
  obtains "f = FrequencyMinutely" | "f = FrequencyHourly" | "f = FrequencyDaily"
    | "f = FrequencyWeekly" | "f = FrequencyMonthly" | "f = FrequencyYearly"
  using assms by (auto simp: frequencies_def)

lemma least_gap_pos: "0 < least_gap f"
  by (simp add: least_gap_def unit_defs)

text \<open>Every frequency meets the contract of an advance.\<close>

interpretation frequency: recurrence "advance f" "least_gap f" "interval_limit f" for f
proof
  show "0 < least_gap f" by (rule least_gap_pos)
  show "t + least_gap f * i \<le> advance f i t" if i: "1 \<le> i" "i \<le> interval_limit f" "sane t" for i t
  proof -
    have "f \<in> set frequencies" using i by (intro interval_ok_frequency) (simp add: interval_ok_def)
    then show ?thesis
      using i minutely.progress [of i t] hourly.progress [of i t] daily.progress [of i t]
        weekly.progress [of i t] monthly.progress [of i t] yearly.progress [of i t]
      by (cases rule: frequency_cases)
         (simp_all add: least_gap_def advance_def interval_limit_def frequency_defs)
  qed
qed

lemma advance_returns:
  "interval_ok f i \<Longrightarrow> sane t \<Longrightarrow> sane endt \<Longrightarrow> \<exists>ts. visits (advance f i) endt t = Some ts"
  by (rule frequency.visits_returns) (simp_all add: interval_ok_def)

lemma advance_spaced:
  assumes "visits (advance f i) endt t = Some ts" "interval_ok f i" "sane t" "sane endt"
  shows "\<forall>x \<in> set ts. t \<le> x \<and> x < endt" "sorted_wrt (\<lambda>a b. a + least_gap f \<le> b) ts"
  using frequency.visits_spaced [OF assms(1)] assms(2-) by (simp_all add: interval_ok_def)

text \<open>The intervals accepted by validation are only bounded below: a larger one can wrap to no progress.\<close>

lemma advance_wraps: "advance FrequencyMinutely (2 ^ 53) t = t"
  by (simp add: advance_def dur_mul_def minute_def wrap64_def add_dur_def)

section \<open>Rules\<close>

definition maxOccurrences :: nat where "maxOccurrences = 1000"

definition days_of_week_names :: "string list" where
  "days_of_week_names = [''MO'', ''TU'', ''WE'', ''TH'', ''FR'', ''SA'', ''SU'']"

record rule =
  Frequency :: string
  Interval :: int
  DaysOfWeek :: "string list"
  DaysOfMonth :: "int list"
  Months :: "int list"
  Count :: "int option"
  Until :: "instant option"

definition zero_rule :: rule where
  "zero_rule = \<lparr>Frequency = [], Interval = 0, DaysOfWeek = [], DaysOfMonth = [], Months = [],
     Count = None, Until = None\<rparr>"

definition rule_fields :: "string list" where
  "rule_fields = [''frequency'', ''interval'', ''days_of_week'', ''days_of_month'', ''months'', ''count'', ''until'']"

definition dec_rule :: "json \<Rightarrow> rule option" where
  "dec_rule j =
     dec_struct (\<lambda>kvs. let v = (\<lambda>n. values_of rule_fields n kvs) in
        do { f \<leftarrow> decode_field dec_string [] (v ''frequency'');
             i \<leftarrow> decode_field dec_int 0 (v ''interval'');
             dw \<leftarrow> decode_field (dec_list dec_string []) [] (v ''days_of_week'');
             dm \<leftarrow> decode_field (dec_list dec_int 0) [] (v ''days_of_month'');
             m \<leftarrow> decode_field (dec_list dec_int 0) [] (v ''months'');
             c \<leftarrow> decode_ptr dec_int (v ''count'');
             u \<leftarrow> decode_ptr dec_time (v ''until'');
             Some \<lparr>Frequency = f, Interval = i, DaysOfWeek = dw, DaysOfMonth = dm, Months = m,
                   Count = c, Until = u\<rparr> })
       zero_rule j"

definition Validate :: "rule \<Rightarrow> unit result" where
  "Validate s =
     (if \<not> List.member frequencies (Frequency s) then Inl (Errorf (''invalid frequency: '' @ Frequency s))
      else if Interval s < 1 then Inl (Errorf ''interval must be positive'')
      else case find (\<lambda>d. \<not> List.member days_of_week_names d) (DaysOfWeek s) of
        Some d \<Rightarrow> Inl (Errorf (''invalid day of week: '' @ d))
      | None \<Rightarrow>
      (case find (\<lambda>d. d < 1 \<or> 31 < d) (DaysOfMonth s) of
        Some d \<Rightarrow> Inl (Errorf (''invalid day of month: '' @ show_int d))
      | None \<Rightarrow>
      (case find (\<lambda>m. m < 1 \<or> 12 < m) (Months s) of
        Some m \<Rightarrow> Inl (Errorf (''invalid month: '' @ show_int m))
      | None \<Rightarrow>
      (case Count s of
        Some c \<Rightarrow> if c < 1 then Inl (Errorf ''count must be positive'') else Inr ()
      | None \<Rightarrow> Inr ()))))"

definition ParseSchedule :: "string \<Rightarrow> rule result" where
  "ParseSchedule str =
     (if str = [] then Inl (Errorf ''empty schedule'')
      else case unmarshal dec_rule str of
        Inl e \<Rightarrow> Inl (wrap_err ''invalid schedule format'' e)
      | Inr s \<Rightarrow> (case Validate s of Inl e \<Rightarrow> Inl e | Inr _ \<Rightarrow> Inr s))"

section \<open>Occurrences\<close>

text \<open>\<open>time.Weekday.String\<close>.\<close>

definition weekday_name :: "int \<Rightarrow> string" where
  "weekday_name w =
     (if w = 0 then ''Sunday'' else if w = 1 then ''Monday'' else if w = 2 then ''Tuesday''
      else if w = 3 then ''Wednesday'' else if w = 4 then ''Thursday'' else if w = 5 then ''Friday''
      else ''Saturday'')"

definition isValidOccurrence :: "rule \<Rightarrow> instant \<Rightarrow> bool" where
  "isValidOccurrence s t \<longleftrightarrow>
     (DaysOfWeek s = [] \<or> List.member (DaysOfWeek s) (take 2 (weekday_name (weekday 0 t))))
     \<and> (DaysOfMonth s = [] \<or> List.member (DaysOfMonth s) (snd (snd (date_of 0 t))))
     \<and> (Months s = [] \<or> List.member (Months s) (fst (snd (date_of 0 t))))"

definition count_reached :: "rule \<Rightarrow> nat \<Rightarrow> bool" where
  "count_reached s n = (case Count s of None \<Rightarrow> False | Some c \<Rightarrow> c \<le> int n)"

definition past_until :: "rule \<Rightarrow> instant \<Rightarrow> bool" where
  "past_until s t = (case Until s of None \<Rightarrow> False | Some u \<Rightarrow> u < t)"

partial_function (option) occ_loop :: "rule \<Rightarrow> instant \<Rightarrow> instant \<Rightarrow> nat \<Rightarrow> instant list option" where
  "occ_loop s endt cur n =
     (if cur < endt \<and> n < maxOccurrences then
        (if count_reached s n then Some []
         else if past_until s cur then Some []
         else if isValidOccurrence s cur then
           Option.bind (occ_loop s endt (advance (Frequency s) (Interval s) cur) (Suc n))
             (\<lambda>rest. Some (cur # rest))
         else occ_loop s endt (advance (Frequency s) (Interval s) cur) n)
      else Some [])"

text \<open>The enumeration; \<open>None\<close> when the loop does not return.\<close>

definition GetNextOccurrences :: "rule \<Rightarrow> instant \<Rightarrow> instant \<Rightarrow> instant list option" where
  "GetNextOccurrences s startTime endTime = occ_loop s endTime startTime 0"

section \<open>The enumeration against its specification\<close>

definition occ_bound :: "rule \<Rightarrow> nat" where
  "occ_bound s = (case Count s of None \<Rightarrow> maxOccurrences | Some c \<Rightarrow> min maxOccurrences (nat c))"

lemma count_reached_bound: "n < maxOccurrences \<Longrightarrow> count_reached s n \<longleftrightarrow> occ_bound s \<le> n"
  by (auto simp: count_reached_def occ_bound_def split: option.split)

lemma occ_bound_max: "occ_bound s \<le> maxOccurrences"
  by (simp add: occ_bound_def split: option.split)

text \<open>What the loop computes from the instants it may visit.\<close>

definition select_occurrences :: "rule \<Rightarrow> nat \<Rightarrow> instant list \<Rightarrow> instant list" where
  "select_occurrences s k ts = take k (filter (isValidOccurrence s) (takeWhile (\<lambda>t. \<not> past_until s t) ts))"

lemma occ_loop_select:
  assumes "visits (advance (Frequency s) (Interval s)) endt cur = Some ts"
  shows "occ_loop s endt cur n = Some (select_occurrences s (occ_bound s - n) ts)"
  using assms
proof (induction ts arbitrary: cur n)
  case Nil
  then have "\<not> cur < endt" by (auto elim: visits_Some_cases)
  then show ?case by (subst occ_loop.simps) (simp add: select_occurrences_def)
next
  case (Cons u us)
  from Cons.prems have cur: "cur < endt" "u = cur"
    and us: "visits (advance (Frequency s) (Interval s)) endt (advance (Frequency s) (Interval s) cur) = Some us"
    by (auto elim: visits_Some_cases)
  note IH = Cons.IH [OF us]
  show ?case
  proof (cases "n < maxOccurrences \<and> \<not> count_reached s n")
    case False
    then have "occ_bound s \<le> n" using occ_bound_max [of s] by (auto simp: count_reached_bound)
    with False cur show ?thesis by (subst occ_loop.simps) (simp add: select_occurrences_def)
  next
    case True
    then have "n < occ_bound s" using count_reached_bound [of n s] by auto
    then obtain k where k: "occ_bound s - n = Suc k" "occ_bound s - Suc n = k" by (metis Suc_diff_Suc)
    with True cur IH show ?thesis by (subst occ_loop.simps) (simp add: select_occurrences_def)
  qed
qed

text \<open>Two letters of a weekday's name are never one of the names validation accepts.\<close>

lemma weekday_prefix_unknown: "\<not> List.member days_of_week_names (take 2 (weekday_name w))"
  by (simp add: weekday_name_def days_of_week_names_def)

lemma Validate_days_of_week: "Validate s = Inr u \<Longrightarrow> d \<in> set (DaysOfWeek s) \<Longrightarrow> List.member days_of_week_names d"
  by (auto simp: Validate_def find_None_iff split: if_splits option.splits)

lemma valid_days_never_match:
  assumes "Validate s = Inr u" "DaysOfWeek s \<noteq> []"
  shows "\<not> isValidOccurrence s t"
proof
  assume "isValidOccurrence s t"
  with assms(2) have "take 2 (weekday_name (weekday 0 t)) \<in> set (DaysOfWeek s)"
    by (auto simp: isValidOccurrence_def)
  from Validate_days_of_week [OF assms(1) this] weekday_prefix_unknown show False by blast
qed

section \<open>Properties\<close>

text \<open>C36. \<open>GetNextOccurrences\<close> on a validated rule whose interval is within the limit of its frequency (which
  \<open>Validate\<close> does not check; see \<open>unchecked_interval_never_returns\<close>) returns, and what it returns are the visited instants that fulfil the rule, up to \<open>until\<close> and up to
  \<open>count\<close> (at most 1000): in order, at least one period apart, inside the window.\<close>

theorem GetNextOccurrences_correct:
  assumes "Validate s = Inr ()" "Interval s \<le> interval_limit (Frequency s)" "sane startTime" "sane endTime"
  shows "\<exists>ts occs. visits (advance (Frequency s) (Interval s)) endTime startTime = Some ts
    \<and> GetNextOccurrences s startTime endTime = Some occs
    \<and> occs = take (occ_bound s) (filter (isValidOccurrence s) (takeWhile (\<lambda>t. \<not> past_until s t) ts))
    \<and> length occs \<le> 1000 \<and> sorted_wrt (\<lambda>a b. a + least_gap (Frequency s) \<le> b) occs
    \<and> (\<forall>t \<in> set occs. startTime \<le> t \<and> t < endTime \<and> isValidOccurrence s t \<and> \<not> past_until s t)"
proof -
  have i: "interval_ok (Frequency s) (Interval s)"
    using assms(1,2) by (auto simp: Validate_def interval_ok_def split: if_splits)
  obtain ts where ts: "visits (advance (Frequency s) (Interval s)) endTime startTime = Some ts"
    using advance_returns [OF i assms(3,4)] by blast
  note sp = advance_spaced [OF ts i assms(3,4)]
  define occs where "occs = select_occurrences s (occ_bound s) ts"
  have "GetNextOccurrences s startTime endTime = Some occs"
    using occ_loop_select [OF ts, of 0] by (simp add: GetNextOccurrences_def occs_def)
  moreover have "length occs \<le> 1000"
    using occ_bound_max [of s] by (simp add: occs_def select_occurrences_def maxOccurrences_def)
  moreover have "sorted_wrt (\<lambda>a b. a + least_gap (Frequency s) \<le> b) occs"
    unfolding occs_def select_occurrences_def
    by (subst takeWhile_eq_take) (intro sorted_wrt_take sorted_wrt_filter sp(2))
  moreover have "\<forall>t \<in> set occs. startTime \<le> t \<and> t < endTime \<and> isValidOccurrence s t \<and> \<not> past_until s t"
    using sp(1) by (auto simp: occs_def select_occurrences_def dest!: set_take_filter set_takeWhileD)
  moreover have "occs = take (occ_bound s) (filter (isValidOccurrence s) (takeWhile (\<lambda>t. \<not> past_until s t) ts))"
    by (simp add: occs_def select_occurrences_def)
  ultimately show ?thesis using ts by blast
qed

definition demo_rule :: rule where
  "demo_rule = zero_rule\<lparr>Frequency := FrequencyDaily, Interval := 2, Count := Some 5\<rparr>"

lemma demo_rule_facts:
  "Validate demo_rule = Inr ()" "Interval demo_rule \<le> interval_limit (Frequency demo_rule)" "sane 0" "sane (30 * day_ns)"
  by (simp_all add: demo_rule_def zero_rule_def Validate_def frequencies_def interval_limit_def frequency_defs
      sane_def unix_def day_ns_def second_def)

theorem GetNextOccurrences_correct_witness:
  "Validate demo_rule = Inr () \<and> (\<exists>occs. GetNextOccurrences demo_rule 0 (30 * day_ns) = Some occs \<and> length occs \<le> 1000)"
  using GetNextOccurrences_correct [OF demo_rule_facts] demo_rule_facts(1) by blast

text \<open>Beyond the limit a validated rule need not return: a step of \<open>2 ^ 53\<close> minutes wraps around to none, and a
  rule whose first instant is not valid then looks at it forever.\<close>

lemma stuck_loop:
  assumes "occ_loop s endt cur n = Some ys"
  shows "Frequency s = FrequencyMinutely \<and> Interval s = 2 ^ 53 \<and> Until s = None \<and> \<not> count_reached s 0
    \<and> (\<forall>t. \<not> isValidOccurrence s t) \<and> n = 0 \<longrightarrow> \<not> cur < endt"
proof (rule occ_loop.raw_induct [OF _ assms], goal_cases)
  case (1 loop s endt cur n ys)
  show ?case
  proof (intro impI notI)
    assume s: "Frequency s = FrequencyMinutely \<and> Interval s = 2 ^ 53 \<and> Until s = None \<and> \<not> count_reached s 0
      \<and> (\<forall>t. \<not> isValidOccurrence s t) \<and> n = 0" and less: "cur < endt"
    with 1(2) have "loop s endt (advance (Frequency s) (Interval s) cur) 0 = Some ys"
      by (simp add: past_until_def maxOccurrences_def)
    from 1(1) [OF this] s have "\<not> advance (Frequency s) (Interval s) cur < endt" by simp
    moreover have "advance (Frequency s) (Interval s) cur \<le> cur" using s advance_wraps [of cur] by simp
    ultimately show False using less by linarith
  qed
qed

lemma unchecked_interval_never_returns:
  assumes "Validate s = Inr ()" "Frequency s = FrequencyMinutely" "Interval s = 2 ^ 53" "DaysOfWeek s \<noteq> []" "Until s = None"
    "startTime < endTime"
  shows "GetNextOccurrences s startTime endTime = None"
proof (rule ccontr)
  assume "GetNextOccurrences s startTime endTime \<noteq> None"
  then obtain ys where "occ_loop s endTime startTime 0 = Some ys" by (auto simp: GetNextOccurrences_def)
  moreover have "\<not> count_reached s 0"
    using assms(1) by (auto simp: Validate_def count_reached_def split: if_splits option.splits)
  ultimately show False using stuck_loop assms valid_days_never_match by blast
qed

text \<open>A validated rule that names days of the week has no occurrences at all: the names are compared
  with the first two letters of Go's weekday names (\<open>Mo\<close>, never \<open>MO\<close>).\<close>

theorem days_of_week_rule_has_no_occurrences:
  assumes "Validate s = Inr ()" "Interval s \<le> interval_limit (Frequency s)" "sane startTime" "sane endTime"
    "DaysOfWeek s \<noteq> []"
  shows "GetNextOccurrences s startTime endTime = Some []"
proof -
  have i: "interval_ok (Frequency s) (Interval s)"
    using assms(1,2) by (auto simp: Validate_def interval_ok_def split: if_splits)
  obtain ts where ts: "visits (advance (Frequency s) (Interval s)) endTime startTime = Some ts"
    using advance_returns [OF i assms(3,4)] by blast
  have "filter (isValidOccurrence s) us = []" for us
    using valid_days_never_match [OF assms(1,5)] by (simp add: filter_empty_conv)
  with occ_loop_select [OF ts, of 0] show ?thesis by (simp add: GetNextOccurrences_def select_occurrences_def)
qed

theorem days_of_week_rule_has_no_occurrences_witness:
  "GetNextOccurrences (demo_rule\<lparr>DaysOfWeek := [''MO'', ''FR'']\<rparr>) 0 (30 * day_ns) = Some []"
proof (rule days_of_week_rule_has_no_occurrences)
  show "Validate (demo_rule\<lparr>DaysOfWeek := [''MO'', ''FR'']\<rparr>) = Inr ()"
    by (simp add: demo_rule_def zero_rule_def Validate_def frequencies_def frequency_defs days_of_week_names_def)
qed (use demo_rule_facts in simp_all)

end
