(* ===== verification/Scheduler.thy ===== *)
theory Scheduler
  imports Memory ScheduleRules
begin

text \<open>
  \<open>internal/scheduler/scheduler.go\<close>: schedule entries in Redis (a sorted set of keys by due time, a hash
  from keys to payloads), the script that moves due entries to the dispatch queue, and the queue.
  \<open>pre\<close> is the scheduler's key prefix. The locale \<open>schedule_store\<close> is the contract of such a store,
  and the Redis structures meet it.
\<close>

section \<open>Keys\<close>

definition ScheduleKey :: string where "ScheduleKey = ''schedules''"
definition scheduleDataKey :: string where "scheduleDataKey = ''schedule:data''"
definition dispatchQueueKey :: string where "dispatchQueueKey = ''dispatch:queue''"

definition schedule_key :: "uuid \<Rightarrow> instant \<Rightarrow> string" where
  "schedule_key ev t = ''schedule:'' @ ev @ '':'' @ show_int (unix t)"

definition schedule_of :: "occurrence \<Rightarrow> event \<Rightarrow> schedule" where
  "schedule_of oc ev = occurrence.extend oc
     (schedule.fields (ev_name ev) (ev_description ev) (ev_webhook ev) (ev_metadata ev) (ev_tags ev))"

section \<open>Operations\<close>

definition ScheduleEvent :: "'w svc \<Rightarrow> string \<Rightarrow> occurrence \<Rightarrow> event \<Rightarrow> ('w, unit result) state" where
  "ScheduleEvent S pre oc ev =
     (let key = schedule_key (ev_id ev) (oc_scheduled_at oc) in
      attempt (redis S (HEXISTS (pre @ scheduleDataKey) key)) (wrap_err ''failed to check schedule existence'')
      (\<lambda>exists. if exists = RBool True then State_Monad.return (Inr ())
        else case marshal_schedule (schedule_of oc ev) of
          Inl e \<Rightarrow> State_Monad.return (Inl (wrap_err ''failed to marshal schedule'' e))
        | Inr data \<Rightarrow>
            attempt (redis S (ZADD (pre @ ScheduleKey) (unix (oc_scheduled_at oc)) key))
              (wrap_err ''failed to add schedule to sorted set'')
            (\<lambda>_. attempt (redis S (HSET (pre @ scheduleDataKey) key data))
                   (wrap_err ''failed to add schedule to hash'')
            (\<lambda>_. State_Monad.return (Inr ())))))"

text \<open>The loop of the script of \<open>GetDueSchedules\<close>, and the script.\<close>

fun lua_move :: "string \<Rightarrow> string \<Rightarrow> string \<Rightarrow> string list \<Rightarrow> int \<Rightarrow> rdata \<Rightarrow> int \<times> rdata" where
  "lua_move z h q [] cnt d = (cnt, d)"
| "lua_move z h q (key # keys) cnt d =
     (case rd_hashes d h key of
        Some data \<Rightarrow> lua_move z h q keys (cnt + 1) (call (HDEL h key) (call (ZREM z key) (call (RPUSH q data) d)))
      | None \<Rightarrow> lua_move z h q keys cnt d)"

definition scheduleLua :: "string \<Rightarrow> string \<Rightarrow> string \<Rightarrow> int \<Rightarrow> rdata \<Rightarrow> rreply \<times> rdata" where
  "scheduleLua z h q now d =
     (case lua_move z h q (zrange_by_score (Some 0) now (rd_zsets d z)) 0 d of (cnt, d') \<Rightarrow> (RInt cnt, d'))"

definition GetDueSchedules :: "'w svc \<Rightarrow> string \<Rightarrow> ('w, int result) state" where
  "GetDueSchedules S pre = do {
     now \<leftarrow> time_now S;
     attempt (redis S (EVAL (scheduleLua (pre @ ScheduleKey) (pre @ scheduleDataKey) (pre @ dispatchQueueKey) (unix now))))
       (wrap_err ''failed to atomically move due schedules'')
     (\<lambda>res. State_Monad.return (Inr (case res of RInt n \<Rightarrow> n | _ \<Rightarrow> 0))) }"

definition PopDispatchQueue :: "(string \<Rightarrow> uuid option) \<Rightarrow> 'w svc \<Rightarrow> string \<Rightarrow> ('w, schedule option result) state" where
  "PopDispatchQueue up S pre =
     attempt (redis S (LPOP (pre @ dispatchQueueKey))) (wrap_err ''failed to pop from dispatch queue'')
     (\<lambda>r. case r of
        RStr data \<Rightarrow> (case unmarshal_schedule up data of
            Inl e \<Rightarrow> State_Monad.return (Inl (wrap_err ''failed to unmarshal schedule from dispatch queue'' e))
          | Inr sched \<Rightarrow> State_Monad.return (Inr (Some sched)))
      | _ \<Rightarrow> State_Monad.return (Inr None))"

definition RemoveScheduledEvent :: "'w svc \<Rightarrow> string \<Rightarrow> occurrence \<Rightarrow> ('w, unit result) state" where
  "RemoveScheduledEvent S pre oc =
     (let key = schedule_key (oc_event_id oc) (oc_scheduled_at oc) in
      attempt (redis S (ZREM (pre @ ScheduleKey) key)) (wrap_err ''failed to remove schedule from sorted set'')
      (\<lambda>_. attempt (redis S (HDEL (pre @ scheduleDataKey) key)) (wrap_err ''failed to remove schedule from hash'')
      (\<lambda>_. State_Monad.return (Inr ()))))"

text \<open>\<open>calculateNextOccurrence\<close>, given what the clock said.\<close>

definition calculateNextOccurrence :: "instant \<Rightarrow> instant \<Rightarrow> schedule_config \<Rightarrow> instant result" where
  "calculateNextOccurrence now startTime sc =
     (if \<not> List.member frequencies (frequency sc) then Inl (Errorf (''unsupported frequency: '' @ frequency sc))
      else let nextTime = advance (frequency sc) (interval sc) startTime in
           Inr (if nextTime < now then now else nextTime))"

definition AddEvent :: "'w svc \<Rightarrow> event \<Rightarrow> ('w, unit result) state" where
  "AddEvent S ev =
     (case ev_schedule ev of
        None \<Rightarrow> State_Monad.return (Inl (Errorf ''event has no schedule''))
      | Some sc \<Rightarrow>
        (case marshal_event ev of
           Inl e \<Rightarrow> State_Monad.return (Inl (wrap_err ''failed to marshal event'' e))
         | Inr eventJSON \<Rightarrow> do {
             now \<leftarrow> time_now S;
             (case calculateNextOccurrence now (ev_start_time ev) sc of
                Inl e \<Rightarrow> State_Monad.return (Inl (wrap_err ''failed to calculate next occurrence'' e))
              | Inr nextTime \<Rightarrow>
                  attempt (redis S (ZADD ScheduleKey (unix nextTime) eventJSON))
                    (wrap_err ''failed to add event to Redis'')
                  (\<lambda>_. State_Monad.return (Inr ()))) }))"

section \<open>The contract of a schedule store\<close>

text \<open>
  A store of entries, each a key with its due time and payload, and a queue of payloads ready for
  dispatch. \<open>pending\<close> is its abstract content.
\<close>

locale schedule_store =
  fixes pending :: "'d \<Rightarrow> 'k \<Rightarrow> (int \<times> 'v) option"
    and ready :: "'d \<Rightarrow> 'v list"
    and inv :: "'d \<Rightarrow> bool"
    and insert_entry :: "'k \<Rightarrow> int \<Rightarrow> 'v \<Rightarrow> 'd \<Rightarrow> 'd"
    and delete_entry :: "'k \<Rightarrow> 'd \<Rightarrow> 'd"
    and move_due :: "int \<Rightarrow> 'd \<Rightarrow> 'd"
  assumes insert_inv: "inv d \<Longrightarrow> inv (insert_entry k s v d)"
    and delete_inv: "inv d \<Longrightarrow> inv (delete_entry k d)"
    and move_inv: "inv d \<Longrightarrow> inv (move_due now d)"
    and insert_pending: "inv d \<Longrightarrow> pending (insert_entry k s v d) = (pending d)(k \<mapsto> (s, v))"
    and insert_ready: "ready (insert_entry k s v d) = ready d"
    and delete_pending: "inv d \<Longrightarrow> pending (delete_entry k d) = (pending d)(k := None)"
    and delete_ready: "ready (delete_entry k d) = ready d"
    and move_pending: "inv d \<Longrightarrow> pending (move_due now d) =
      (\<lambda>k. case pending d k of Some (s, v) \<Rightarrow> if 0 \<le> s \<and> s \<le> now then None else Some (s, v) | None \<Rightarrow> None)"
    and move_ready: "inv d \<Longrightarrow> \<exists>ks. distinct ks \<and> set ks = {k. \<exists>s v. pending d k = Some (s, v) \<and> 0 \<le> s \<and> s \<le> now}
      \<and> ready (move_due now d) = ready d @ map (\<lambda>k. snd (the (pending d k))) ks"
begin

lemma move_readyE:
  assumes "inv d"
  obtains ks where "distinct ks" "set ks = {k. \<exists>s v. pending d k = Some (s, v) \<and> 0 \<le> s \<and> s \<le> now}"
    "ready (move_due now d) = ready d @ map (\<lambda>k. snd (the (pending d k))) ks"
  using move_ready [OF assms, of now] by blast

text \<open>An entry moves once its time has come, and not before.\<close>

lemma due_moves:
  assumes "inv d" "pending d k = Some (s, v)" "0 \<le> s" "s \<le> now"
  shows "pending (move_due now d) k = None \<and> v \<in> set (ready (move_due now d))"
proof -
  obtain ks where "set ks = {k. \<exists>s v. pending d k = Some (s, v) \<and> 0 \<le> s \<and> s \<le> now}"
    "ready (move_due now d) = ready d @ map (\<lambda>k. snd (the (pending d k))) ks"
    by (rule move_readyE [OF assms(1)])
  then have "v \<in> set (ready (move_due now d))" using assms(2-) by force
  with assms show ?thesis by (simp add: move_pending)
qed

lemma not_due_stays:
  "inv d \<Longrightarrow> pending d k = Some (s, v) \<Longrightarrow> now < s \<Longrightarrow> pending (move_due now d) k = Some (s, v)"
  by (simp add: move_pending)

text \<open>Nothing becomes ready that was not due.\<close>

lemma ready_was_due:
  assumes "inv d" "v \<in> set (ready (move_due now d))" "v \<notin> set (ready d)"
  shows "\<exists>k s. pending d k = Some (s, v) \<and> 0 \<le> s \<and> s \<le> now"
proof -
  obtain ks where ks: "set ks = {k. \<exists>s v. pending d k = Some (s, v) \<and> 0 \<le> s \<and> s \<le> now}"
    "ready (move_due now d) = ready d @ map (\<lambda>k. snd (the (pending d k))) ks"
    by (rule move_readyE [OF assms(1)])
  with assms(2,3) obtain k where "k \<in> set ks" "v = snd (the (pending d k))" by auto
  with ks(1) show ?thesis by fastforce
qed

text \<open>A second move at the same time or earlier moves nothing: an entry is delivered once.\<close>

lemma move_again:
  assumes "inv d" "now' \<le> now"
  shows "ready (move_due now' (move_due now d)) = ready (move_due now d)
    \<and> pending (move_due now' (move_due now d)) = pending (move_due now d)"
proof -
  obtain ks where ks: "set ks = {k. \<exists>s v. pending (move_due now d) k = Some (s, v) \<and> 0 \<le> s \<and> s \<le> now'}"
    "ready (move_due now' (move_due now d))
       = ready (move_due now d) @ map (\<lambda>k. snd (the (pending (move_due now d) k))) ks"
    by (rule move_readyE [OF move_inv [OF assms(1)]])
  have "set ks = {}"
    unfolding ks(1) using assms by (auto simp: move_pending split: option.splits if_splits)
  with ks(2) have "ready (move_due now' (move_due now d)) = ready (move_due now d)" by simp
  moreover have "pending (move_due now' (move_due now d)) = pending (move_due now d)"
    using assms by (auto simp: move_pending move_inv fun_eq_iff split: option.splits if_splits)
  ultimately show ?thesis by blast
qed

text \<open>A deleted entry is not delivered.\<close>

lemma deleted_not_delivered:
  assumes "inv d" "v \<notin> set (ready d)" "\<And>k' s. pending d k' = Some (s, v) \<Longrightarrow> k' = k"
  shows "v \<notin> set (ready (move_due now (delete_entry k d)))"
proof
  assume v: "v \<in> set (ready (move_due now (delete_entry k d)))"
  have "v \<notin> set (ready (delete_entry k d))" using assms(2) by (simp add: delete_ready)
  from ready_was_due [OF delete_inv [OF assms(1)] v this] assms(1,3)
  show False by (auto simp: delete_pending split: if_splits)
qed

text \<open>Moving at a time and later again leaves what one move at the later time leaves.\<close>

lemma move_pending_mono:
  "inv d \<Longrightarrow> now \<le> now' \<Longrightarrow> pending (move_due now' (move_due now d)) = pending (move_due now' d)"
  by (auto simp: move_pending move_inv fun_eq_iff split: option.splits if_splits)

end

section \<open>The Redis structures meet it\<close>

definition score_of :: "string \<Rightarrow> zset \<Rightarrow> int option" where
  "score_of k zs = map_of (map (\<lambda>z. (zmember z, zscore z)) zs) k"

definition pending_entries :: "string \<Rightarrow> rdata \<Rightarrow> string \<Rightarrow> (int \<times> string) option" where
  "pending_entries pre d k =
     (case rd_hashes d (pre @ scheduleDataKey) k of
        None \<Rightarrow> None
      | Some v \<Rightarrow> map_option (\<lambda>s. (s, v)) (score_of k (rd_zsets d (pre @ ScheduleKey))))"

definition dispatch_queue :: "string \<Rightarrow> rdata \<Rightarrow> string list" where
  "dispatch_queue pre d = rd_lists d (pre @ dispatchQueueKey)"

text \<open>The commands of \<open>ScheduleEvent\<close> and of \<open>RemoveScheduledEvent\<close>, and the script.\<close>

definition add_entry :: "string \<Rightarrow> string \<Rightarrow> int \<Rightarrow> string \<Rightarrow> rdata \<Rightarrow> rdata" where
  "add_entry pre k s v d = call (HSET (pre @ scheduleDataKey) k v) (call (ZADD (pre @ ScheduleKey) s k) d)"

definition remove_entry :: "string \<Rightarrow> string \<Rightarrow> rdata \<Rightarrow> rdata" where
  "remove_entry pre k d = call (HDEL (pre @ scheduleDataKey) k) (call (ZREM (pre @ ScheduleKey) k) d)"

definition move_entries :: "string \<Rightarrow> int \<Rightarrow> rdata \<Rightarrow> rdata" where
  "move_entries pre now d = snd (scheduleLua (pre @ ScheduleKey) (pre @ scheduleDataKey) (pre @ dispatchQueueKey) now d)"

lemma score_of_Some: "zset_ok zs \<Longrightarrow> score_of k zs = Some s \<longleftrightarrow> ZItem s k \<in> set zs"
  unfolding score_of_def zset_ok_def zmembers_def
  by (subst map_of_eq_Some_iff) (auto simp: comp_def image_iff intro: rev_bexI)

lemma score_of_eqI:
  assumes "zset_ok zs" "\<And>s. ZItem s k \<in> set zs \<longleftrightarrow> x = Some s"
  shows "score_of k zs = x"
  using assms(2) score_of_Some [OF assms(1), of k] by (cases x; cases "score_of k zs") auto

lemma score_of_zadd: "zset_ok zs \<Longrightarrow> score_of k (zadd s m zs) = (if k = m then Some s else score_of k zs)"
  by (rule score_of_eqI) (auto simp: zadd_ok score_of_Some)

lemma score_of_filter:
  "zset_ok zs \<Longrightarrow> score_of k (filter (\<lambda>z. P (zmember z)) zs) = (if P k then score_of k zs else None)"
  by (rule score_of_eqI) (auto simp: score_of_Some zset_ok_def sorted_wrt_filter zmembers_def distinct_map_filter_pred)

lemma score_of_zrem: "zset_ok zs \<Longrightarrow> score_of k (zrem m zs) = (if k = m then None else score_of k zs)"
  unfolding zrem_def by (subst score_of_filter) auto

lemma map_filter_cong: "(\<And>x. x \<in> set xs \<Longrightarrow> f x = g x) \<Longrightarrow> List.map_filter f xs = List.map_filter g xs"
  by (induction xs) (auto simp: map_filter_simps split: option.split)

text \<open>The loop of the script, as one update.\<close>

lemma lua_move_result:
  assumes "distinct ks" "lua_move z h q ks n d = (n', d')"
  shows "rd_zsets d' = (rd_zsets d)(z := filter (\<lambda>i. \<not> (zmember i \<in> set ks \<and> rd_hashes d h (zmember i) \<noteq> None)) (rd_zsets d z))
    \<and> rd_hashes d' = (rd_hashes d)(h := (\<lambda>k. if k \<in> set ks then None else rd_hashes d h k))
    \<and> rd_lists d' = (rd_lists d)(q := rd_lists d q @ List.map_filter (rd_hashes d h) ks)
    \<and> rd_strings d' = rd_strings d
    \<and> n' = n + int (length (List.map_filter (rd_hashes d h) ks))"
  using assms
proof (induction ks arbitrary: n d)
  case Nil
  then show ?case by simp
next
  case (Cons k ks)
  show ?case
  proof (cases "rd_hashes d h k")
    case None
    with Cons have "lua_move z h q ks n d = (n', d')" by simp
    from Cons.IH [OF _ this] Cons.prems(1) None show ?thesis
      by (auto simp: fun_eq_iff intro!: filter_cong)
  next
    case (Some v)
    define e where "e = call (HDEL h k) (call (ZREM z k) (call (RPUSH q v) d))"
    have e: "rd_zsets e = (rd_zsets d)(z := zrem k (rd_zsets d z))"
      "rd_hashes e = (rd_hashes d)(h := (rd_hashes d h)(k := None))"
      "rd_lists e = (rd_lists d)(q := rd_lists d q @ [v])" "rd_strings e = rd_strings d"
      by (simp_all add: e_def)
    have "lua_move z h q ks (n + 1) e = (n', d')" using Cons.prems Some by (simp add: e_def)
    note IH = Cons.IH [OF _ this]
    have mf: "List.map_filter (rd_hashes e h) ks = List.map_filter (rd_hashes d h) ks"
      using Cons.prems(1) e by (intro map_filter_cong) auto
    show ?thesis using IH Cons.prems(1) Some unfolding mf unfolding e
      by (auto simp: fun_eq_iff zrem_def intro!: filter_cong)
  qed
qed

definition due_keys :: "string \<Rightarrow> int \<Rightarrow> rdata \<Rightarrow> string list" where
  "due_keys pre now d = zrange_by_score (Some 0) now (rd_zsets d (pre @ ScheduleKey))"

lemma due_keys:
  assumes "rdata_ok d"
  shows "distinct (due_keys pre now d)"
    "set (due_keys pre now d) = {k. \<exists>s. score_of k (rd_zsets d (pre @ ScheduleKey)) = Some s \<and> 0 \<le> s \<and> s \<le> now}"
proof -
  have ok: "zset_ok (rd_zsets d (pre @ ScheduleKey))" using assms by (simp add: rdata_ok_def)
  then show "distinct (due_keys pre now d)"
    by (simp add: due_keys_def zrange_by_score_def zset_ok_def zmembers_def distinct_map_filter_pred)
  show "set (due_keys pre now d) = {k. \<exists>s. score_of k (rd_zsets d (pre @ ScheduleKey)) = Some s \<and> 0 \<le> s \<and> s \<le> now}"
    using ok by (force simp: due_keys_def zrange_by_score_def score_of_Some zitem.expand)
qed

lemma move_entries_result:
  assumes "rdata_ok d"
  shows "rd_zsets (move_entries pre now d) (pre @ ScheduleKey)
       = filter (\<lambda>i. \<not> (zmember i \<in> set (due_keys pre now d)
            \<and> rd_hashes d (pre @ scheduleDataKey) (zmember i) \<noteq> None)) (rd_zsets d (pre @ ScheduleKey))"
    "rd_hashes (move_entries pre now d) (pre @ scheduleDataKey)
       = (\<lambda>k. if k \<in> set (due_keys pre now d) then None else rd_hashes d (pre @ scheduleDataKey) k)"
    "dispatch_queue pre (move_entries pre now d)
       = dispatch_queue pre d @ List.map_filter (rd_hashes d (pre @ scheduleDataKey)) (due_keys pre now d)"
    "rdata_ok (move_entries pre now d)"
proof -
  obtain n' d' where mv: "lua_move (pre @ ScheduleKey) (pre @ scheduleDataKey) (pre @ dispatchQueueKey)
      (due_keys pre now d) 0 d = (n', d')" by fastforce
  have e: "move_entries pre now d = d'"
    using mv by (simp add: move_entries_def scheduleLua_def due_keys_def)
  note r = lua_move_result [OF due_keys(1) [OF assms] mv]
  from assms have "rdata_ok d'"
    unfolding rdata_ok_def r [THEN conjunct1]
    by (auto simp: zset_ok_def sorted_wrt_filter zmembers_def distinct_map_filter_pred)
  with r show "rd_zsets (move_entries pre now d) (pre @ ScheduleKey)
       = filter (\<lambda>i. \<not> (zmember i \<in> set (due_keys pre now d)
            \<and> rd_hashes d (pre @ scheduleDataKey) (zmember i) \<noteq> None)) (rd_zsets d (pre @ ScheduleKey))"
    "rd_hashes (move_entries pre now d) (pre @ scheduleDataKey)
       = (\<lambda>k. if k \<in> set (due_keys pre now d) then None else rd_hashes d (pre @ scheduleDataKey) k)"
    "dispatch_queue pre (move_entries pre now d)
       = dispatch_queue pre d @ List.map_filter (rd_hashes d (pre @ scheduleDataKey)) (due_keys pre now d)"
    "rdata_ok (move_entries pre now d)"
    by (simp_all add: e dispatch_queue_def)
qed

lemma map_filter_filter:
  "List.map_filter f xs = map (\<lambda>x. the (f x)) (filter (\<lambda>x. f x \<noteq> None) xs)"
  by (simp add: List.map_filter_def comp_def)

interpretation redis_store: schedule_store "pending_entries pre" "dispatch_queue pre" rdata_ok
  "add_entry pre" "remove_entry pre" "move_entries pre" for pre
proof
  fix d k s v now assume ok: "rdata_ok d"
  then have z: "zset_ok (rd_zsets d (pre @ ScheduleKey))" by (simp add: rdata_ok_def)
  show "rdata_ok (add_entry pre k s v d)" "rdata_ok (remove_entry pre k d)"
    using ok by (auto simp: add_entry_def remove_entry_def intro!: codec_intros)
  show "rdata_ok (move_entries pre now d)" by (rule move_entries_result) fact
  show "pending_entries pre (add_entry pre k s v d) = (pending_entries pre d)(k \<mapsto> (s, v))"
    using z by (auto simp: pending_entries_def add_entry_def score_of_zadd fun_eq_iff split: option.split)
  show "pending_entries pre (remove_entry pre k d) = (pending_entries pre d)(k := None)"
    using z by (auto simp: pending_entries_def remove_entry_def score_of_zrem fun_eq_iff split: option.split)
  note mv = move_entries_result [OF ok, of pre now]
  show "pending_entries pre (move_entries pre now d) =
      (\<lambda>k. case pending_entries pre d k of Some (s, v) \<Rightarrow> if 0 \<le> s \<and> s \<le> now then None else Some (s, v) | None \<Rightarrow> None)"
  proof
    fix k
    have "score_of k (rd_zsets (move_entries pre now d) (pre @ ScheduleKey)) =
      (if k \<in> set (due_keys pre now d) \<and> rd_hashes d (pre @ scheduleDataKey) k \<noteq> None then None
       else score_of k (rd_zsets d (pre @ ScheduleKey)))"
      unfolding mv(1)
      using score_of_filter [OF z, of k "\<lambda>m. \<not> (m \<in> set (due_keys pre now d)
        \<and> rd_hashes d (pre @ scheduleDataKey) m \<noteq> None)"] by simp
    then show "pending_entries pre (move_entries pre now d) k =
      (case pending_entries pre d k of Some (s, v) \<Rightarrow> if 0 \<le> s \<and> s \<le> now then None else Some (s, v) | None \<Rightarrow> None)"
      by (auto simp: pending_entries_def mv(2) due_keys(2) [OF ok] split: option.splits)
  qed
  let ?hash = "rd_hashes d (pre @ scheduleDataKey)"
  let ?ks = "filter (\<lambda>k. ?hash k \<noteq> None) (due_keys pre now d)"
  have the: "snd (the (pending_entries pre d k)) = the (?hash k)" if "k \<in> set ?ks" for k
    using that by (auto simp: pending_entries_def due_keys(2) [OF ok])
  show "\<exists>ks. distinct ks \<and> set ks = {k. \<exists>s v. pending_entries pre d k = Some (s, v) \<and> 0 \<le> s \<and> s \<le> now}
      \<and> dispatch_queue pre (move_entries pre now d)
        = dispatch_queue pre d @ map (\<lambda>k. snd (the (pending_entries pre d k))) ks"
  proof (intro exI conjI)
    show "distinct ?ks" using due_keys(1) [OF ok] by simp
    show "set ?ks = {k. \<exists>s v. pending_entries pre d k = Some (s, v) \<and> 0 \<le> s \<and> s \<le> now}"
      by (auto simp: pending_entries_def due_keys(2) [OF ok] split: option.splits)
    have "map (\<lambda>k. snd (the (pending_entries pre d k))) ?ks = map (\<lambda>k. the (?hash k)) ?ks"
      using the by (intro map_cong) auto
    then show "dispatch_queue pre (move_entries pre now d)
        = dispatch_queue pre d @ map (\<lambda>k. snd (the (pending_entries pre d k))) ?ks"
      by (simp add: mv(3) map_filter_filter)
  qed
qed (simp_all add: dispatch_queue_def add_entry_def remove_entry_def)

section \<open>The operations against their specification\<close>

definition scheduled_key :: "string \<Rightarrow> occurrence \<Rightarrow> event \<Rightarrow> rdata \<Rightarrow> bool" where
  "scheduled_key pre oc ev d \<longleftrightarrow>
     rd_hashes d (pre @ scheduleDataKey) (schedule_key (ev_id ev) (oc_scheduled_at oc)) \<noteq> None"

text \<open>What a successful \<open>ScheduleEvent\<close> makes of the data, and what a failed one may leave behind.\<close>

definition schedule_entry :: "string \<Rightarrow> occurrence \<Rightarrow> event \<Rightarrow> string \<Rightarrow> rdata \<Rightarrow> rdata" where
  "schedule_entry pre oc ev data d =
     add_entry pre (schedule_key (ev_id ev) (oc_scheduled_at oc)) (unix (oc_scheduled_at oc)) data d"

definition partial_entry :: "string \<Rightarrow> occurrence \<Rightarrow> event \<Rightarrow> rdata \<Rightarrow> rdata" where
  "partial_entry pre oc ev d =
     call (ZADD (pre @ ScheduleKey) (unix (oc_scheduled_at oc)) (schedule_key (ev_id ev) (oc_scheduled_at oc))) d"

lemma redis_sem_call: "redis_sem c d = (x, d') \<Longrightarrow> d' = call c d"
  by (simp add: call_def)

lemma ScheduleEvent_wp:
  assumes ok: "svc_ok S P V"
  shows "wp (ScheduleEvent S pre oc ev) (\<lambda>r w'. dv V w' = dv V w \<and> ov V w' = ov V w \<and>
     (case r of
        Inr _ \<Rightarrow> if scheduled_key pre oc ev (rv V w) then rv V w' = rv V w
           else \<exists>data. marshal_schedule (schedule_of oc ev) = Inr data \<and> rv V w' = schedule_entry pre oc ev data (rv V w)
      | Inl _ \<Rightarrow> rv V w' = rv V w \<or> rv V w' = partial_entry pre oc ev (rv V w)
           \<or> (\<exists>data. marshal_schedule (schedule_of oc ev) = Inr data \<and> rv V w' = schedule_entry pre oc ev data (rv V w)))) w"
  unfolding ScheduleEvent_def Let_def wp_attempt
  apply (rule wp_redis [OF ok])
   apply (auto simp: scheduled_key_def split: sum.split)[1]
   apply (rule wp_redis [OF ok])
    apply (auto)[1]
    apply (rule wp_redis [OF ok])
     apply (auto simp: schedule_entry_def add_entry_def partial_entry_def dest!: redis_sem_call)
  done

section \<open>Properties\<close>

lemma ScheduleEvent_rdata_ok: "schedule_entry pre oc ev data d = add_entry pre (schedule_key (ev_id ev) (oc_scheduled_at oc)) (unix (oc_scheduled_at oc)) data d"
  by (simp add: schedule_entry_def)

text \<open>C10. \<open>ScheduleEvent\<close>, over whatever the services do within their documented behaviour: when it succeeds
  and the key was free, exactly one entry is added to the store, under the key of the event and second, due at
  that second, with the marshalled schedule; when the key was taken, nothing changes; the tables, the messages
  and the dispatch queue are never touched.\<close>

theorem ScheduleEvent_adds_one_entry:
  assumes "svc_ok S P V" "rdata_ok (rv V w)" "is_ok (result_of (ScheduleEvent S pre oc ev) w)"
  shows "let d = rv V w; w' = after (ScheduleEvent S pre oc ev) w; d' = rv V w'; t = oc_scheduled_at oc in
    dv V w' = dv V w \<and> ov V w' = ov V w \<and> dispatch_queue pre d' = dispatch_queue pre d \<and>
    (if scheduled_key pre oc ev d then d' = d
     else \<exists>data. marshal_schedule (schedule_of oc ev) = Inr data
            \<and> pending_entries pre d' = (pending_entries pre d)(schedule_key (ev_id ev) t \<mapsto> (unix t, data)))"
proof -
  from assms(3) obtain u where u: "result_of (ScheduleEvent S pre oc ev) w = Inr u" by (rule is_okE)
  note r = wp_result [OF ScheduleEvent_wp [OF assms(1), of pre oc ev w]]
  show ?thesis
  proof (cases "scheduled_key pre oc ev (rv V w)")
    case True
    with r u show ?thesis by (simp add: Let_def)
  next
    case False
    with r u obtain data where "marshal_schedule (schedule_of oc ev) = Inr data"
      "rv V (after (ScheduleEvent S pre oc ev) w) = schedule_entry pre oc ev data (rv V w)" by auto
    moreover have "dispatch_queue pre (schedule_entry pre oc ev data (rv V w)) = dispatch_queue pre (rv V w)"
      unfolding schedule_entry_def by (rule redis_store.insert_ready)
    moreover have "pending_entries pre (schedule_entry pre oc ev data (rv V w)) = (pending_entries pre (rv V w))
        (schedule_key (ev_id ev) (oc_scheduled_at oc) \<mapsto> (unix (oc_scheduled_at oc), data))"
      unfolding schedule_entry_def by (rule redis_store.insert_pending [OF assms(2)])
    ultimately show ?thesis using r False by (simp add: Let_def)
  qed
qed

lemma demo_schedules: "is_ok (result_of (ScheduleEvent mem_svc [] demo_occurrence demo_event) (mem_at 0))"
proof -
  obtain data where "marshal_schedule (schedule_of demo_occurrence demo_event) = Inr data"
  proof -
    have "0 \<le> year_of 0 t \<and> year_of 0 t \<le> 9999" if "t \<in> set [60 * second, 0, zero_time]" for t
    proof -
      have "list_all (\<lambda>t. 0 \<le> year_of 0 t \<and> year_of 0 t \<le> 9999) [60 * second, 0, zero_time]" by code_simp
      with that show ?thesis unfolding list_all_iff by blast
    qed
    then have "is_ok (marshal_schedule (schedule_of demo_occurrence demo_event))"
      by (simp add: marshal_schedule_def enc_schedule_def marshal_time_def schedule_of_def demo_occurrence_def
          occurrence.defs schedule.defs is_ok_def)
    then show ?thesis using that by (rule is_okE)
  qed
  then show ?thesis
    by (simp add: ScheduleEvent_def Let_def attempt_def redis_def mem_svc_def result_of_def State_Monad.bind_def
        State_Monad.return_def no_rdata_def)
qed

theorem ScheduleEvent_adds_one_entry_witness:
  "let d' = m_redis (after (ScheduleEvent mem_svc [] demo_occurrence demo_event) (mem_at 0)) in
     \<exists>data. marshal_schedule (schedule_of demo_occurrence demo_event) = Inr data
       \<and> pending_entries [] d' (schedule_key (mem_uuid 0) (60 * second)) = Some (60, data)"
proof -
  have "\<not> scheduled_key [] demo_occurrence demo_event no_rdata" by (simp add: scheduled_key_def no_rdata_def)
  then show ?thesis
    using ScheduleEvent_adds_one_entry [OF mem_svc_ok _ demo_schedules]
    by (auto simp: Let_def demo_occurrence_def demo_event_def unix_def second_def)
qed

text \<open>Scheduling is idempotent: once \<open>ScheduleEvent\<close> has succeeded for an event and a second, a further call for
  the same event and second, with whatever other occurrence identifier or attempt, leaves Redis as it is.\<close>

theorem ScheduleEvent_idempotent:
  assumes "svc_ok S P V" "is_ok (result_of (ScheduleEvent S pre oc ev) w)"
    "ev_id ev' = ev_id ev" "unix (oc_scheduled_at oc') = unix (oc_scheduled_at oc)"
  shows "let w1 = after (ScheduleEvent S pre oc ev) w in rv V (after (ScheduleEvent S pre oc' ev') w1) = rv V w1"
proof -
  from assms(2) obtain u where u: "result_of (ScheduleEvent S pre oc ev) w = Inr u" by (rule is_okE)
  define w1 where "w1 = after (ScheduleEvent S pre oc ev) w"
  have "scheduled_key pre oc ev (rv V w1)"
    using wp_result [OF ScheduleEvent_wp [OF assms(1), of pre oc ev w]] u
    by (auto simp: w1_def scheduled_key_def schedule_entry_def add_entry_def split: if_splits)
  with assms(3,4) have "scheduled_key pre oc' ev' (rv V w1)" by (simp add: scheduled_key_def schedule_key_def)
  then have "wp (ScheduleEvent S pre oc' ev') (\<lambda>_ w'. rv V w' = rv V w1) w1"
    unfolding ScheduleEvent_def Let_def wp_attempt
    by (intro wp_redis [OF assms(1)]) (auto simp: scheduled_key_def)
  from wp_result [OF this] show ?thesis by (simp add: Let_def w1_def)
qed

theorem ScheduleEvent_idempotent_witness:
  "let w1 = after (ScheduleEvent mem_svc [] demo_occurrence demo_event) (mem_at 0);
       oc' = demo_occurrence\<lparr>oc_occurrence_id := mem_uuid 8\<rparr>
   in m_redis (after (ScheduleEvent mem_svc [] oc' demo_event) w1) = m_redis w1"
  using ScheduleEvent_idempotent [OF mem_svc_ok demo_schedules refl, of "demo_occurrence\<lparr>oc_occurrence_id := mem_uuid 8\<rparr>"]
  by (simp add: Let_def)

lemma lua_count:
  assumes "rdata_ok d" "scheduleLua (pre @ ScheduleKey) (pre @ scheduleDataKey) (pre @ dispatchQueueKey) now d = (x, d')"
  shows "d' = move_entries pre now d
    \<and> x = RInt (int (length (List.map_filter (rd_hashes d (pre @ scheduleDataKey)) (due_keys pre now d))))"
proof -
  obtain n' d1 where mv: "lua_move (pre @ ScheduleKey) (pre @ scheduleDataKey) (pre @ dispatchQueueKey)
      (due_keys pre now d) 0 d = (n', d1)" by fastforce
  with assms(2) have "x = RInt n'" by (simp add: scheduleLua_def due_keys_def)
  with lua_move_result [OF due_keys(1) [OF assms(1)] mv]
  have "x = RInt (int (length (List.map_filter (rd_hashes d (pre @ scheduleDataKey)) (due_keys pre now d))))" by simp
  with assms(2) show ?thesis by (simp add: move_entries_def)
qed

text \<open>C8. A successful \<open>GetDueSchedules\<close> moves exactly the entries due by the clock, as it reads it at its start, in
  seconds: it returns their number, their payloads are appended to the dispatch queue, one for each entry, and every
  other entry stays.\<close>

theorem GetDueSchedules_moves_due:
  assumes "svc_ok S P V" "rdata_ok (rv V w)" "result_of (GetDueSchedules S pre) w = Inr n"
  shows "let d = rv V w; d' = rv V (after (GetDueSchedules S pre) w); now = unix (result_of (time_now S) w) in \<exists>ks.
    distinct ks \<and> set ks = {k. \<exists>s v. pending_entries pre d k = Some (s, v) \<and> 0 \<le> s \<and> s \<le> now}
    \<and> n = int (length ks)
    \<and> dispatch_queue pre d' = dispatch_queue pre d @ map (\<lambda>k. snd (the (pending_entries pre d k))) ks
    \<and> pending_entries pre d' = (\<lambda>k. if k \<in> set ks then None else pending_entries pre d k)"
proof -
  define now where "now = unix (result_of (time_now S) w)"
  have "wp (GetDueSchedules S pre) (\<lambda>r w'. \<forall>n. r = Inr n \<longrightarrow> rv V w' = move_entries pre now (rv V w)
     \<and> n = int (length (List.map_filter (rd_hashes (rv V w) (pre @ scheduleDataKey)) (due_keys pre now (rv V w))))) w"
    unfolding GetDueSchedules_def wp_bind wp_attempt
    by (rule wp_time_now [OF assms(1)], rule wp_redis [OF assms(1)])
       (auto simp: now_def dest!: lua_count [OF assms(2)])
  from wp_result [OF this] assms(3) have
    d': "rv V (after (GetDueSchedules S pre) w) = move_entries pre now (rv V w)" and
    n: "n = int (length (List.map_filter (rd_hashes (rv V w) (pre @ scheduleDataKey)) (due_keys pre now (rv V w))))"
    by auto
  obtain ks where ks: "distinct ks" "set ks = {k. \<exists>s v. pending_entries pre (rv V w) k = Some (s, v) \<and> 0 \<le> s \<and> s \<le> now}"
    "dispatch_queue pre (move_entries pre now (rv V w)) = dispatch_queue pre (rv V w)
       @ map (\<lambda>k. snd (the (pending_entries pre (rv V w) k))) ks"
    by (rule redis_store.move_readyE [OF assms(2), of pre now])
  have "n = int (length ks)"
    using n ks(3) move_entries_result(3) [OF assms(2), of pre now] by (metis append_same_eq length_map same_append_eq)
  moreover have "pending_entries pre (move_entries pre now (rv V w)) = (\<lambda>k. if k \<in> set ks then None else pending_entries pre (rv V w) k)"
    using redis_store.move_pending [OF assms(2), of pre now] ks(2) by (auto simp: fun_eq_iff split: option.splits)
  ultimately show ?thesis unfolding Let_def d' now_def [symmetric] using ks by (intro exI [of _ ks]) simp
qed

text \<open>The entry of the sixtieth second is moved at the sixtieth second, and one second earlier nothing is.\<close>

lemma demo_scheduled:
  "rdata_ok (m_redis (after (ScheduleEvent mem_svc [] demo_occurrence demo_event) (mem_at 0)))"
  "\<exists>data. pending_entries [] (m_redis (after (ScheduleEvent mem_svc [] demo_occurrence demo_event) (mem_at 0)))
     = [schedule_key (mem_uuid 0) (60 * second) \<mapsto> (60, data)]"
proof -
  let ?d = "m_redis (after (ScheduleEvent mem_svc [] demo_occurrence demo_event) (mem_at 0))"
  have none: "pending_entries [] no_rdata = Map.empty" by (simp add: pending_entries_def no_rdata_def fun_eq_iff)
  from wp_result [OF ScheduleEvent_wp [OF mem_svc_ok, of "[]" demo_occurrence demo_event "mem_at 0"]] demo_schedules
  obtain data where d: "?d = schedule_entry [] demo_occurrence demo_event data no_rdata"
    by (auto simp: is_ok_def scheduled_key_def no_rdata_def split: sum.splits)
  show "rdata_ok ?d" unfolding d schedule_entry_def by (rule redis_store.insert_inv) simp
  have "pending_entries [] ?d = [schedule_key (mem_uuid 0) (60 * second) \<mapsto> (60, data)]"
    unfolding d schedule_entry_def
    by (simp add: redis_store.insert_pending none fun_eq_iff) (simp add: demo_event_def demo_occurrence_def unix_def second_def)
  then show "\<exists>data. pending_entries [] ?d = [schedule_key (mem_uuid 0) (60 * second) \<mapsto> (60, data)]" ..
qed

theorem GetDueSchedules_moves_due_witness:
  "let w = after (ScheduleEvent mem_svc [] demo_occurrence demo_event) (mem_at 0) in
     result_of (GetDueSchedules mem_svc []) (w\<lparr>m_time := 60 * second\<rparr>) = Inr 1
   \<and> result_of (GetDueSchedules mem_svc []) (w\<lparr>m_time := 59 * second\<rparr>) = Inr 0"
proof -
  define w where "w = after (ScheduleEvent mem_svc [] demo_occurrence demo_event) (mem_at 0)"
  obtain data where p: "pending_entries [] (m_redis w) = [schedule_key (mem_uuid 0) (60 * second) \<mapsto> (60, data)]"
    using demo_scheduled(2) by (auto simp: w_def)
  have "result_of (GetDueSchedules mem_svc []) (w\<lparr>m_time := t\<rparr>) = Inr (if 60 \<le> unix t then 1 else 0)" for t
  proof -
    let ?w = "w\<lparr>m_time := t\<rparr>"
    have "is_ok (result_of (GetDueSchedules mem_svc []) ?w)"
      by (simp add: GetDueSchedules_def attempt_def redis_def mem_svc_def result_of_def State_Monad.bind_def
          State_Monad.return_def scheduleLua_def split: prod.split)
    then obtain n where n: "result_of (GetDueSchedules mem_svc []) ?w = Inr n" by (rule is_okE)
    have ok: "rdata_ok (rv mem_views ?w)" using demo_scheduled(1) by (simp add: w_def)
    have now: "result_of (time_now mem_svc) ?w = t" by (simp add: mem_svc_def result_of_def)
    from GetDueSchedules_moves_due [OF mem_svc_ok ok n] obtain ks :: "string list" where
      "distinct ks" "set ks = (if 60 \<le> unix t then {schedule_key (mem_uuid 0) (60 * second)} else {})" "n = int (length ks)"
      by (auto simp: Let_def now p split: if_splits)
    then show ?thesis using distinct_card [of ks] by (simp add: n split: if_splits)
  qed
  then show ?thesis unfolding Let_def w_def [symmetric] by (simp add: unix_def second_def)
qed

text \<open>C5. From scheduling to the worker: after a successful \<open>ScheduleEvent\<close> of a free key, a move of due entries at any
  time not before the occurrence's second puts a payload into the dispatch queue that decodes to the very
  schedule made of the occurrence and the event, and removes the entry.\<close>

theorem scheduled_entry_reaches_queue:
  assumes "svc_ok S P V" "rdata_ok (rv V w)" "is_ok (result_of (ScheduleEvent S pre oc ev) w)"
    "\<not> scheduled_key pre oc ev (rv V w)" "ok_schedule up (schedule_of oc ev)"
    "0 \<le> unix (oc_scheduled_at oc)" "unix (oc_scheduled_at oc) \<le> now"
  shows "let d' = rv V (after (ScheduleEvent S pre oc ev) w) in
    (\<exists>data \<in> set (dispatch_queue pre (move_entries pre now d')). unmarshal_schedule up data = Inr (schedule_of oc ev))
    \<and> pending_entries pre (move_entries pre now d') (schedule_key (ev_id ev) (oc_scheduled_at oc)) = None"
proof -
  from assms(3) obtain u where u: "result_of (ScheduleEvent S pre oc ev) w = Inr u" by (rule is_okE)
  from wp_result [OF ScheduleEvent_wp [OF assms(1), of pre oc ev w]] u assms(4)
  obtain data where m: "marshal_schedule (schedule_of oc ev) = Inr data"
    and d': "rv V (after (ScheduleEvent S pre oc ev) w) = schedule_entry pre oc ev data (rv V w)" by auto
  have "unmarshal_schedule up data = Inr (schedule_of oc ev)"
    using marshal_schedule_ok [OF assms(5)] m by (metis sum.inject(2))
  moreover have "pending_entries pre (schedule_entry pre oc ev data (rv V w)) (schedule_key (ev_id ev) (oc_scheduled_at oc))
      = Some (unix (oc_scheduled_at oc), data)"
    unfolding schedule_entry_def using redis_store.insert_pending [OF assms(2)] by simp
  moreover have "rdata_ok (schedule_entry pre oc ev data (rv V w))"
    unfolding schedule_entry_def by (rule redis_store.insert_inv [OF assms(2)])
  ultimately show ?thesis
    using redis_store.due_moves [of "schedule_entry pre oc ev data (rv V w)" pre _ _ _ now] assms(6,7) d'
    by (metis (no_types, lifting))
qed

theorem scheduled_entry_reaches_queue_witness:
  "let d' = m_redis (after (ScheduleEvent mem_svc [] demo_occurrence demo_event) (mem_at 0)) in
    \<exists>data \<in> set (dispatch_queue [] (move_entries [] 61 d')). unmarshal_schedule Some data = Inr (schedule_of demo_occurrence demo_event)"
proof -
  have "printable 0 (60 * second)" "printable 0 zero_time" "printable 0 0" by code_simp+
  then have "ok_schedule Some (schedule_of demo_occurrence demo_event)"
    by (simp add: ok_schedule_def schedule_of_def demo_occurrence_def demo_event_def occurrence.defs schedule.defs is_int64_def)
  moreover have "unix (oc_scheduled_at demo_occurrence) = 60" by (simp add: demo_occurrence_def unix_def second_def)
  moreover have "\<not> scheduled_key [] demo_occurrence demo_event no_rdata" by (simp add: scheduled_key_def no_rdata_def)
  ultimately show ?thesis
    using scheduled_entry_reaches_queue [OF mem_svc_ok _ demo_schedules, of Some 61] by (simp add: Let_def)
qed

text \<open>C39. A payload without its member in the sorted set (what \<open>RemoveScheduledEvent\<close> and the clean-ups leave when the
  first of their two commands is carried out and the second is not) blocks its occurrence for good: scheduling it
  again succeeds, unless the first command, which asks for the payload, gets no answer; it changes nothing, and no move
  ever delivers the entry or clears the payload.\<close>

theorem orphan_payload_blocks_occurrence:
  assumes "svc_ok S P V" "rdata_ok (rv V w)"
    "rd_hashes (rv V w) (pre @ scheduleDataKey) (schedule_key (ev_id ev) (oc_scheduled_at oc)) = Some v"
    "score_of (schedule_key (ev_id ev) (oc_scheduled_at oc)) (rd_zsets (rv V w) (pre @ ScheduleKey)) = None"
  shows "let k = schedule_key (ev_id ev) (oc_scheduled_at oc); d' = rv V (after (ScheduleEvent S pre oc ev) w) in
    (is_ok (result_of (redis_do S (HEXISTS (pre @ scheduleDataKey) k)) w) \<longrightarrow> result_of (ScheduleEvent S pre oc ev) w = Inr ())
    \<and> d' = rv V w \<and> pending_entries pre d' k = None
    \<and> (\<forall>now. rd_hashes (move_entries pre now d') (pre @ scheduleDataKey) k = Some v
          \<and> pending_entries pre (move_entries pre now d') k = None)"
proof -
  let ?k = "schedule_key (ev_id ev) (oc_scheduled_at oc)"
  let ?asked = "redis S (HEXISTS (pre @ scheduleDataKey) ?k)"
  have "wp ?asked (\<lambda>r w'. rv V w' = rv V w \<and> (\<forall>x. r = Inr x \<longrightarrow> x = RBool True)) w"
    using assms(3) by (intro wp_redis [OF assms(1)]) auto
  moreover have "wp ?asked (\<lambda>r w'. is_ok (result_of (redis_do S (HEXISTS (pre @ scheduleDataKey) ?k)) w) \<longrightarrow> (\<exists>x. r = Inr x)) w"
    by (auto simp: wp_def redis_def result_of_def is_ok_def State_Monad.bind_def split: prod.split sum.split)
  ultimately have "wp ?asked (\<lambda>r w'. (rv V w' = rv V w \<and> (\<forall>x. r = Inr x \<longrightarrow> x = RBool True))
      \<and> (is_ok (result_of (redis_do S (HEXISTS (pre @ scheduleDataKey) ?k)) w) \<longrightarrow> (\<exists>x. r = Inr x))) w" by (rule wp_conj)
  then have "wp (ScheduleEvent S pre oc ev) (\<lambda>r w'. rv V w' = rv V w
      \<and> (is_ok (result_of (redis_do S (HEXISTS (pre @ scheduleDataKey) ?k)) w) \<longrightarrow> r = Inr ())) w"
    unfolding ScheduleEvent_def Let_def wp_attempt by (rule wp_mono) auto
  from wp_result [OF this] have d': "rv V (after (ScheduleEvent S pre oc ev) w) = rv V w" and
    res: "is_ok (result_of (redis_do S (HEXISTS (pre @ scheduleDataKey) ?k)) w) \<longrightarrow> result_of (ScheduleEvent S pre oc ev) w = Inr ()"
    by blast+
  have none: "pending_entries pre (rv V w) ?k = None" using assms(4) by (simp add: pending_entries_def split: option.split)
  have "rd_hashes (move_entries pre now (rv V w)) (pre @ scheduleDataKey) ?k = Some v" for now
    using assms(3,4) by (simp add: move_entries_result(2) [OF assms(2)] due_keys(2) [OF assms(2)])
  moreover have "pending_entries pre (move_entries pre now (rv V w)) ?k = None" for now
    using none by (simp add: redis_store.move_pending [OF assms(2)])
  ultimately show ?thesis using none d' res by (simp add: Let_def)
qed

theorem orphan_payload_blocks_occurrence_witness:
  "let w = (mem_at 0)\<lparr>m_redis := upd_hash scheduleDataKey (\<lambda>h. h(schedule_key (mem_uuid 0) (60 * second) \<mapsto> ''{}'')) no_rdata\<rparr>
   in result_of (ScheduleEvent mem_svc [] demo_occurrence demo_event) w = Inr ()
    \<and> m_redis (after (ScheduleEvent mem_svc [] demo_occurrence demo_event) w) = m_redis w"
proof -
  define d where "d = upd_hash scheduleDataKey (\<lambda>h. h(schedule_key (mem_uuid 0) (60 * second) \<mapsto> ''{}'')) no_rdata"
  have "rdata_ok d" by (simp add: d_def rdata_ok_upd)
  then show ?thesis
    using orphan_payload_blocks_occurrence [OF mem_svc_ok, of "(mem_at 0)\<lparr>m_redis := d\<rparr>" "[]" demo_event demo_occurrence "''{}''"] mem_answers
    by (simp add: Let_def d_def demo_event_def demo_occurrence_def score_of_def no_rdata_def)
qed

end
