(* ===== verification/EventRepository.thy ===== *)
theory EventRepository
  imports OccurrenceRepository Scheduler
begin

text \<open>
  \<open>internal/repository/event_repository.go\<close>: the events table, the action derived from the older webhook
  field, and the removal of an event's schedule entries from Redis. \<open>pre\<close> is the Redis key prefix and
  \<open>up\<close> the parser of identifiers.
\<close>

section \<open>Actions and webhooks\<close>

text \<open>A webhook string of the form \<open>q:name\<close> names a websocket client.\<close>

definition action_of_webhook :: "string \<Rightarrow> action" where
  "action_of_webhook wh =
     (if 2 < length wh \<and> take 2 wh = ''q:''
      then \<lparr>act_type = ActionTypeWebsocket, act_params = Some (enc_websocket_params \<lparr>ws_client_name = drop 2 wh\<rparr>)\<rparr>
      else \<lparr>act_type = ActionTypeWebhook, act_params = Some (enc_webhook_params \<lparr>wh_url = wh\<rparr>)\<rparr>)"

definition populateWebhookFromAction :: "event \<Rightarrow> event" where
  "populateWebhookFromAction ev =
     (case ev_action ev of
        None \<Rightarrow> ev
      | Some a \<Rightarrow>
        if act_type a = ActionTypeWebhook then
          (case GetWebhookParams a of Inl _ \<Rightarrow> ev | Inr p \<Rightarrow> ev\<lparr>ev_webhook := wh_url p\<rparr>)
        else if act_type a = ActionTypeWebsocket then
          (case GetWebsocketParams a of Inl _ \<Rightarrow> ev | Inr p \<Rightarrow> ev\<lparr>ev_webhook := ''q:'' @ ws_client_name p\<rparr>)
        else ev)"

text \<open>Marshalling the parameters cannot fail, so this never returns an error.\<close>

definition deriveAndSetAction :: "event \<Rightarrow> event" where
  "deriveAndSetAction ev =
     (if ev_webhook ev \<noteq> [] then ev\<lparr>ev_action := Some (action_of_webhook (ev_webhook ev))\<rparr>
      else if ev_action ev \<noteq> None then populateWebhookFromAction ev
      else ev)"

section \<open>Rows and events\<close>

text \<open>The columns of \<open>SELECT id, name, ..., action\<close> scanned into an event; \<open>hmac_secret\<close> is not among them.\<close>

definition scan_column :: "(json \<Rightarrow> 'a option) \<Rightarrow> json option \<Rightarrow> 'a option result" where
  "scan_column dec c =
     (case c of None \<Rightarrow> Inr None
      | Some j \<Rightarrow> (case dec j of None \<Rightarrow> Inl json_error | Some x \<Rightarrow> Inr (Some x)))"

definition event_of_row :: "event_row \<Rightarrow> event result" where
  "event_of_row r =
     (case scan_column dec_schedule_config (er_schedule r) of
        Inl e \<Rightarrow> Inl e
      | Inr sch \<Rightarrow>
        (case scan_column dec_action (er_action r) of
           Inl e \<Rightarrow> Inl e
         | Inr act \<Rightarrow> Inr \<lparr>ev_id = er_id r, ev_name = er_name r, ev_description = er_description r,
             ev_start_time = er_start_time r, ev_webhook = er_webhook r, ev_action = act, ev_metadata = er_metadata r,
             ev_schedule = sch, ev_tags = Some (er_tags r), ev_status = er_status r, ev_hmac_secret = None,
             ev_created_at = er_created_at r, ev_updated_at = er_updated_at r\<rparr>))"

fun events_of_rows :: "event_row list \<Rightarrow> event list result" where
  "events_of_rows [] = Inr []"
| "events_of_rows (r # rs) =
     (case event_of_row r of
        Inl e \<Rightarrow> Inl e
      | Inr ev \<Rightarrow> (case events_of_rows rs of Inl e \<Rightarrow> Inl e | Inr evs \<Rightarrow> Inr (ev # evs)))"

section \<open>Operations\<close>

definition Create :: "'w svc \<Rightarrow> event \<Rightarrow> ('w, event result) state" where
  "Create S ev = do {
     now \<leftarrow> time_now S;
     i \<leftarrow> new_uuid S;
     let ev1 = deriveAndSetAction (ev\<lparr>ev_id := i, ev_created_at := now,
       ev_updated_at := (case ev_updated_at ev of None \<Rightarrow> Some now | Some t \<Rightarrow> Some t),
       ev_status := (if ev_status ev = [] then EventStatusActive else ev_status ev)\<rparr>);
     attempt (sql S (InsertEvent (ev_id ev1) (ev_name ev1) (ev_description ev1) (map_option enc_schedule_config (ev_schedule ev1))
         (ev_start_time ev1) (ev_metadata ev1) (ev_webhook ev1) (ev_tags ev1) (ev_status ev1) (ev_created_at ev1)
         (ev_updated_at ev1) (map_option enc_action (ev_action ev1)))) (wrap_err ''error creating event'')
     (\<lambda>r. State_Monad.return (case r of
        DIds [j] \<Rightarrow> Inr (ev1\<lparr>ev_id := j\<rparr>)
      | _ \<Rightarrow> Inl (wrap_err ''error creating event'' scan_error))) }"

definition GetByID :: "'w svc \<Rightarrow> uuid \<Rightarrow> ('w, event option result) state" where
  "GetByID S i =
     attempt (sql S (SelectEvent i)) (wrap_err ''error getting event'')
     (\<lambda>r. State_Monad.return (case r of
        DEvents [] \<Rightarrow> Inr None
      | DEvents (row # _) \<Rightarrow>
          (case event_of_row row of
             Inl e \<Rightarrow> Inl (wrap_err ''error getting event'' e)
           | Inr ev \<Rightarrow> Inr (Some (populateWebhookFromAction ev)))
      | _ \<Rightarrow> Inl (wrap_err ''error getting event'' scan_error)))"

text \<open>\<open>List\<close>, \<open>ListByTags\<close> and \<open>ListActive\<close> differ in their statement and in the text of the error.\<close>

definition list_events :: "'w svc \<Rightarrow> stmt \<Rightarrow> string \<Rightarrow> ('w, event list result) state" where
  "list_events S st ctx =
     attempt (sql S st) (wrap_err ctx)
     (\<lambda>r. State_Monad.return (case r of
        DEvents rows \<Rightarrow>
          (case events_of_rows rows of
             Inl e \<Rightarrow> Inl (wrap_err ctx e)
           | Inr evs \<Rightarrow> Inr (map populateWebhookFromAction evs))
      | _ \<Rightarrow> Inl (wrap_err ctx scan_error)))"

definition ListAll :: "'w svc \<Rightarrow> ('w, event list result) state" where
  "ListAll S = list_events S SelectEvents ''error listing events''"

definition ListByTags :: "'w svc \<Rightarrow> string list \<Rightarrow> ('w, event list result) state" where
  "ListByTags S tags = list_events S (SelectEventsByTags tags) ''error listing events by tags''"

definition ListActive :: "'w svc \<Rightarrow> ('w, event list result) state" where
  "ListActive S = list_events S (SelectEventsByStatus EventStatusActive) ''error listing active events''"

definition Update :: "'w svc \<Rightarrow> event \<Rightarrow> ('w, event result) state" where
  "Update S ev = do {
     now \<leftarrow> time_now S;
     let ev1 = deriveAndSetAction (ev\<lparr>ev_updated_at := Some now\<rparr>);
     attempt (sql S (UpdateEventRow (ev_name ev1) (ev_description ev1) (map_option enc_schedule_config (ev_schedule ev1))
         (ev_start_time ev1) (ev_metadata ev1) (ev_webhook ev1) (ev_tags ev1) (ev_status ev1) (ev_updated_at ev1)
         (map_option enc_action (ev_action ev1)) (ev_id ev1))) (wrap_err ''error updating event'')
     (\<lambda>r. State_Monad.return (case r of
        DNum n \<Rightarrow> if n = 0 then Inl ErrEventNotFound else Inr ev1
      | _ \<Rightarrow> Inl (wrap_err ''error getting rows affected'' scan_error))) }"

text \<open>The anonymous struct with the event's identifier only.\<close>

definition dec_event_id :: "(string \<Rightarrow> uuid option) \<Rightarrow> json \<Rightarrow> uuid option" where
  "dec_event_id up j =
     dec_struct (\<lambda>kvs. decode_field (dec_uuid up) nil_uuid (values_of [''event_id''] ''event_id'' kvs)) nil_uuid j"

definition remove_if_of :: "(string \<Rightarrow> uuid option) \<Rightarrow> 'w svc \<Rightarrow> string \<Rightarrow> uuid \<Rightarrow> string \<Rightarrow> ('w, unit) state" where
  "remove_if_of up S pre i key =
     State_Monad.bind (redis S (HGET (pre @ scheduleDataKey) key))
     (\<lambda>r. case r of
        Inr (RStr data) \<Rightarrow>
          (case unmarshal (dec_event_id up) data of
             Inl _ \<Rightarrow> State_Monad.return ()
           | Inr j \<Rightarrow>
             if j = i then
               State_Monad.bind (ignore (redis S (ZREM (pre @ ScheduleKey) key)))
                 (\<lambda>_. ignore (redis S (HDEL (pre @ scheduleDataKey) key)))
             else State_Monad.return ())
      | _ \<Rightarrow> State_Monad.return ())"

definition RemoveEventOccurrencesFromRedis ::
  "(string \<Rightarrow> uuid option) \<Rightarrow> 'w svc \<Rightarrow> string \<Rightarrow> uuid \<Rightarrow> ('w, unit result) state" where
  "RemoveEventOccurrencesFromRedis up S pre i =
     attempt (redis S (ZRANGE_ALL (pre @ ScheduleKey))) id
     (\<lambda>r. State_Monad.bind (for_each (remove_if_of up S pre i) (case r of RArr keys \<Rightarrow> keys | _ \<Rightarrow> []))
        (\<lambda>_. State_Monad.return (Inr ())))"

definition Delete :: "(string \<Rightarrow> uuid option) \<Rightarrow> 'w svc \<Rightarrow> string \<Rightarrow> uuid \<Rightarrow> ('w, unit result) state" where
  "Delete up S pre i =
     attempt (sql S (SelectEventId i)) (wrap_err ''error checking event existence'')
     (\<lambda>r. if r = DIds [] then State_Monad.return (Inr ())
       else do {
         now \<leftarrow> time_now S;
         attempt (sql S (TouchEvent now i)) (wrap_err ''error updating event before deletion'')
         (\<lambda>_. attempt (sql S (DeleteEventRow i)) (wrap_err ''error deleting event'')
         (\<lambda>_. State_Monad.bind (ignore (RemoveEventOccurrencesFromRedis up S pre i))
         (\<lambda>_. State_Monad.return (Inr ())))) })"

definition DeleteOldEvents :: "'w svc \<Rightarrow> instant \<Rightarrow> ('w, unit result) state" where
  "DeleteOldEvents S cutoff =
     attempt (sql S (DeleteOldEventRows cutoff OccurrenceStatusDispatched)) id (\<lambda>_. State_Monad.return (Inr ()))"

definition DeleteOldOccurrences :: "'w svc \<Rightarrow> instant \<Rightarrow> ('w, unit result) state" where
  "DeleteOldOccurrences S cutoff =
     attempt (sql S (DeleteOldOccurrenceRows cutoff OccurrenceStatusDispatched OccurrenceStatusCompleted)) id
     (\<lambda>_. State_Monad.return (Inr ()))"

definition repo_CreateEvent :: "'w svc \<Rightarrow> event \<Rightarrow> ('w, unit result) state" where
  "repo_CreateEvent S ev =
     attempt (sql S (InsertEventPlain (ev_id ev) (ev_name ev) (ev_description ev) (ev_start_time ev) (ev_webhook ev)
        (ev_metadata ev) (map_option enc_schedule_config (ev_schedule ev)) (ev_tags ev) (ev_status ev) (ev_hmac_secret ev)))
       (wrap_err ''failed to create event'') (\<lambda>_. State_Monad.return (Inr ()))"

definition GetEvent :: "(string \<Rightarrow> uuid option) \<Rightarrow> 'w svc \<Rightarrow> string \<Rightarrow> ('w, event option result) state" where
  "GetEvent up S s =
     (case up s of
        None \<Rightarrow> State_Monad.return (Inl (Errorf ''invalid event ID format''))
      | Some i \<Rightarrow> GetByID S i)"

text \<open>
  \<open>ListEvents\<close> scans the columns by position, into ID, Name, Description, StartTime, ...: the fourth
  column is \<open>schedule\<close>, whose value (bytes, or NULL) \<open>database/sql\<close> does not store into a \<open>time.Time\<close>.
\<close>

fun scan_time :: "driver_value \<Rightarrow> instant result" where
  "scan_time _ = Inl scan_error"

record event_filter =
  ef_tags :: "string list"
  ef_status :: string
  ef_before :: "instant option"
  ef_after :: "instant option"

fun scan_listed :: "event_row list \<Rightarrow> event list result" where
  "scan_listed [] = Inr []"
| "scan_listed (r # rs) =
     (case scan_time (case er_schedule r of None \<Rightarrow> DNil | Some j \<Rightarrow> DBytes (print_json j)) of
        Inl e \<Rightarrow> Inl (wrap_err ''failed to scan event'' e)
      | Inr _ \<Rightarrow> (case event_of_row r of
          Inl e \<Rightarrow> Inl e
        | Inr ev \<Rightarrow> (case scan_listed rs of Inl e \<Rightarrow> Inl e | Inr evs \<Rightarrow> Inr (ev # evs))))"

definition ListEvents :: "'w svc \<Rightarrow> event_filter \<Rightarrow> ('w, event list result) state" where
  "ListEvents S f =
     attempt (sql S (SelectEventsFiltered (ef_status f) (ef_tags f) (ef_before f) (ef_after f))) (wrap_err ''failed to query events'')
     (\<lambda>r. State_Monad.return (case r of
        DEvents rows \<Rightarrow> (case scan_listed rows of Inl e \<Rightarrow> Inl e | Inr evs \<Rightarrow> Inr (map populateWebhookFromAction evs))
      | _ \<Rightarrow> Inl scan_error))"

section \<open>The derived action\<close>

lemma action_of_webhook_params:
  "act_type (action_of_webhook wh) = ActionTypeWebhook \<Longrightarrow> GetWebhookParams (action_of_webhook wh) = Inr \<lparr>wh_url = wh\<rparr>"
  "act_type (action_of_webhook wh) = ActionTypeWebsocket \<Longrightarrow>
     GetWebsocketParams (action_of_webhook wh) = Inr \<lparr>ws_client_name = drop 2 wh\<rparr> \<and> wh = ''q:'' @ drop 2 wh"
  by (auto simp: action_of_webhook_def GetWebhookParams_def GetWebsocketParams_def decode_params_def action_type_defs
      split: if_splits) (metis append_Cons append_Nil append_take_drop_id)

lemma action_of_webhook_type:
  "act_type (action_of_webhook wh) = ActionTypeWebhook \<or> act_type (action_of_webhook wh) = ActionTypeWebsocket"
  by (simp add: action_of_webhook_def)

definition webhook_consistent :: "event \<Rightarrow> bool" where
  "webhook_consistent ev \<longleftrightarrow> (ev_webhook ev \<noteq> [] \<longrightarrow> ev_action ev = Some (action_of_webhook (ev_webhook ev)))"

lemma populate_consistent:
  assumes "ev_action ev = Some (action_of_webhook wh)"
  shows "populateWebhookFromAction ev = ev\<lparr>ev_webhook := wh\<rparr>"
  using action_of_webhook_params [of wh] action_of_webhook_type [of wh] assms
  by (auto simp: populateWebhookFromAction_def action_type_defs)

lemma event_update_same [simp]: "ev\<lparr>ev_webhook := ev_webhook ev\<rparr> = ev"
  by simp

lemma populate_after_derive: "ev_webhook ev \<noteq> [] \<Longrightarrow> populateWebhookFromAction (deriveAndSetAction ev) = deriveAndSetAction ev"
  by (simp add: deriveAndSetAction_def populate_consistent)

lemma derive_keeps [simp]:
  "ev_id (deriveAndSetAction ev) = ev_id ev" "ev_status (deriveAndSetAction ev) = ev_status ev"
  "ev_schedule (deriveAndSetAction ev) = ev_schedule ev" "ev_tags (deriveAndSetAction ev) = ev_tags ev"
  "ev_start_time (deriveAndSetAction ev) = ev_start_time ev" "ev_name (deriveAndSetAction ev) = ev_name ev"
  by (simp_all add: deriveAndSetAction_def populateWebhookFromAction_def split: option.split sum.split)

section \<open>What a jsonb column gives back\<close>

lemma values_of_map_of:
  assumes "distinct (map fst kvs)" "list_all (\<lambda>kv. List.member names (fst kv)) kvs"
  shows "values_of names n kvs = (case map_of kvs n of None \<Rightarrow> [] | Some v \<Rightarrow> [v])"
proof -
  have "map snd (filter (\<lambda>kv. fst kv = n) kvs) = (case map_of kvs n of None \<Rightarrow> [] | Some v \<Rightarrow> [v])"
    using assms(1)
  proof (induction kvs)
    case (Cons kv kvs)
    have "filter (\<lambda>kv. fst kv = k) kvs = []" if "k \<notin> fst ` set kvs" for k
      using that by (auto simp: filter_empty_conv)
    with Cons show ?case by (auto simp: map_of_eq_None_iff split: option.splits)
  qed simp
  then show ?thesis by (simp only: values_of_own [OF assms(2)])
qed

lemma jsonb_object:
  assumes "jsonb_ok jb" "distinct (map fst kvs)" "list_all (\<lambda>kv. List.member names (fst kv)) kvs"
  obtains kvs' where "jb (JObj kvs) = JObj kvs'" "\<And>n. values_of names n kvs' = map jb (values_of names n kvs)"
proof -
  from assms(1,2) obtain kvs' where k: "jb (JObj kvs) = JObj kvs'" "distinct (map fst kvs')"
    "map_of kvs' = (\<lambda>k. map_option jb (map_of kvs k))"
    unfolding jsonb_ok_def by blast
  have "dom (map_of kvs') = dom (map_of kvs)" by (auto simp: k(3))
  then have "fst ` set kvs' = fst ` set kvs" by (simp add: dom_map_of_conv_image_fst)
  with assms(3) have "list_all (\<lambda>kv. List.member names (fst kv)) kvs'"
    unfolding list_all_iff List.member_iff by (metis (no_types, lifting) image_iff)
  from values_of_map_of [OF k(2) this] values_of_map_of [OF assms(2,3)] k(3)
  have "values_of names n kvs' = map jb (values_of names n kvs)" for n
    by (simp split: option.split)
  with k(1) show ?thesis by (rule that)
qed

lemma jsonb_simps [simp]:
  assumes "jsonb_ok jb"
  shows "jb JNull = JNull" "jb (JStr s) = JStr s" "jb (enc_int i) = enc_int i"
    "jb (enc_strings ss) = enc_strings ss" "jb (enc_ints is) = enc_ints is"
  using assms by (auto simp: jsonb_ok_def enc_strings_def enc_ints_def)

lemma jsonb_schedule_config:
  assumes jb: "jsonb_ok jb" and ok: "ok_schedule_config s"
  shows "dec_schedule_config (jb (enc_schedule_config s)) = Some s"
proof -
  obtain kvs where kvs: "enc_schedule_config s = JObj kvs" by (simp add: enc_schedule_config_def)
  have own: "distinct (map fst kvs)" "list_all (\<lambda>kv. List.member schedule_config_fields (fst kv)) kvs"
    using kvs by (auto simp: enc_schedule_config_def omit_def schedule_config_fields_def split: option.splits)
  obtain kvs' where kvs': "jb (JObj kvs) = JObj kvs'"
    "\<And>n. values_of schedule_config_fields n kvs' = map jb (values_of schedule_config_fields n kvs)"
    by (rule jsonb_object [OF jb own]) (rule that)
  have v: "values_of schedule_config_fields n kvs = map snd (filter (\<lambda>kv. fst kv = n) kvs)" for n
    by (rule values_of_own [OF own(2)])
  define l where "l = [(''frequency'', JStr (frequency s)), (''interval'', enc_int (interval s))]
      @ omit (by_day s = []) (''by_day'', enc_strings (by_day s))
      @ omit (by_month s = []) (''by_month'', enc_ints (by_month s))
      @ omit (by_month_day s = []) (''by_month_day'', enc_ints (by_month_day s))
      @ (case count_limit s of None \<Rightarrow> [] | Some c \<Rightarrow> [(''count'', enc_int c)])
      @ (case until_text s of None \<Rightarrow> [] | Some u \<Rightarrow> [(''until'', JStr u)])"
  have "kvs = l" using kvs by (simp add: enc_schedule_config_def l_def)
  with kvs'(2) v have vs: "values_of schedule_config_fields n kvs' = map jb (map snd (filter (\<lambda>kv. fst kv = n) l))" for n
    by metis
  show ?thesis
    unfolding kvs kvs'(1) dec_schedule_config_def using ok jb
    by (auto simp: vs l_def ok_schedule_config_def omit_def split: option.splits)
qed

lemma jsonb_action:
  assumes jb: "jsonb_ok jb"
  shows "dec_action (jb (enc_action a)) = Some (a\<lparr>act_params := Some (jb (raw_json (act_params a)))\<rparr>)"
proof -
  have own: "distinct (map fst [(''type'', JStr (act_type a)), (''params'', raw_json (act_params a))])"
    "list_all (\<lambda>kv. List.member action_fields (fst kv)) [(''type'', JStr (act_type a)), (''params'', raw_json (act_params a))]"
    by (simp_all add: action_fields_def)
  obtain kvs where kvs: "jb (JObj [(''type'', JStr (act_type a)), (''params'', raw_json (act_params a))]) = JObj kvs"
    "\<And>n. values_of action_fields n kvs
       = map jb (values_of action_fields n [(''type'', JStr (act_type a)), (''params'', raw_json (act_params a))])"
    by (rule jsonb_object [OF jb own]) (rule that)
  show ?thesis
    unfolding enc_action_def kvs(1) dec_action_def using jb own(2) by (simp add: kvs(2) values_of_own)
qed

lemma jsonb_params:
  assumes jb: "jsonb_ok jb"
  shows "dec_webhook_params (jb (enc_webhook_params p)) = Some p"
    "dec_websocket_params (jb (enc_websocket_params q)) = Some q"
proof -
  have one: "\<exists>kvs. jb (JObj [(n, JStr x)]) = JObj kvs \<and> values_of [n] n kvs = [JStr x]" for n x
  proof -
    have "list_all (\<lambda>kv. List.member [n] (fst kv)) [(n, JStr x)]" by simp
    then obtain kvs where "jb (JObj [(n, JStr x)]) = JObj kvs"
      "\<And>m. values_of [n] m kvs = map jb (values_of [n] m [(n, JStr x)])"
      using jsonb_object [OF jb, of "[(n, JStr x)]" "[n]"] by auto
    then show ?thesis using jb by (auto simp: values_of_own)
  qed
  show "dec_webhook_params (jb (enc_webhook_params p)) = Some p"
    using one [of "''url''" "wh_url p"] by (auto simp: enc_webhook_params_def dec_webhook_params_def)
  show "dec_websocket_params (jb (enc_websocket_params q)) = Some q"
    using one [of "''client_name''" "ws_client_name q"] by (auto simp: enc_websocket_params_def dec_websocket_params_def)
qed

text \<open>The action derived from a webhook names the same webhook after a stay in the table.\<close>

definition stored_action :: "(json \<Rightarrow> json) \<Rightarrow> action \<Rightarrow> action" where
  "stored_action jb a = a\<lparr>act_params := Some (jb (raw_json (act_params a)))\<rparr>"

lemma populate_stored:
  assumes "jsonb_ok jb" "ev_action ev = Some (stored_action jb (action_of_webhook wh))"
  shows "populateWebhookFromAction ev = ev\<lparr>ev_webhook := wh\<rparr>"
proof (cases "2 < length wh \<and> take 2 wh = ''q:''")
  case True
  then have "''q:'' @ drop 2 wh = wh" by (metis append_take_drop_id)
  with True assms show ?thesis
    by (simp add: populateWebhookFromAction_def stored_action_def action_of_webhook_def GetWebsocketParams_def
        decode_params_def raw_json_def jsonb_params action_type_defs)
next
  case False
  with assms show ?thesis
    by (simp add: populateWebhookFromAction_def stored_action_def action_of_webhook_def GetWebhookParams_def
        decode_params_def raw_json_def jsonb_params action_type_defs)
qed

section \<open>Events in the table\<close>

text \<open>The row that holds an event, and the event read back from it.\<close>

definition row_of_event :: "pg \<Rightarrow> string list \<Rightarrow> event \<Rightarrow> event_row" where
  "row_of_event P ts ev =
     \<lparr>er_id = ev_id ev, er_name = ev_name ev, er_description = ev_description ev,
      er_start_time = pg_time P (ev_start_time ev), er_webhook = ev_webhook ev,
      er_metadata = pg_jsonb P (ev_metadata ev), er_schedule = map_option (pg_jsonb P \<circ> enc_schedule_config) (ev_schedule ev),
      er_tags = ts, er_status = ev_status ev, er_hmac_secret = None, er_created_at = pg_time P (ev_created_at ev),
      er_updated_at = map_option (pg_time P) (ev_updated_at ev),
      er_action = map_option (pg_jsonb P \<circ> enc_action) (ev_action ev)\<rparr>"

definition stored_event :: "pg \<Rightarrow> event \<Rightarrow> event" where
  "stored_event P ev = ev\<lparr>ev_start_time := pg_time P (ev_start_time ev), ev_metadata := pg_jsonb P (ev_metadata ev),
     ev_action := map_option (stored_action (pg_jsonb P)) (ev_action ev), ev_hmac_secret := None,
     ev_created_at := pg_time P (ev_created_at ev), ev_updated_at := map_option (pg_time P) (ev_updated_at ev)\<rparr>"

definition storable :: "event \<Rightarrow> bool" where
  "storable ev \<longleftrightarrow> (case ev_schedule ev of None \<Rightarrow> True | Some s \<Rightarrow> ok_schedule_config s)"

lemma event_of_row_stored:
  assumes "pg_ok P" "storable ev" "ev_tags ev = Some ts"
  shows "event_of_row (row_of_event P ts ev) = Inr (stored_event P ev)"
proof -
  have jb: "jsonb_ok (pg_jsonb P)" using assms(1) by (simp add: pg_ok_def)
  have "scan_column dec_schedule_config (er_schedule (row_of_event P ts ev)) = Inr (ev_schedule ev)"
    using assms(2) jsonb_schedule_config [OF jb]
    by (auto simp: scan_column_def row_of_event_def storable_def split: option.splits)
  moreover have "scan_column dec_action (er_action (row_of_event P ts ev))
      = Inr (map_option (stored_action (pg_jsonb P)) (ev_action ev))"
    using jsonb_action [OF jb] by (auto simp: scan_column_def row_of_event_def stored_action_def split: option.splits)
  ultimately show ?thesis
    using assms(3) by (simp add: event_of_row_def row_of_event_def stored_event_def)
qed

text \<open>\<open>RETURNING\<close> and \<open>WHERE id\<close>.\<close>

lemma insert_event_effect:
  "sql_effect P (InsertEvent (ev_id ev) (ev_name ev) (ev_description ev) (map_option enc_schedule_config (ev_schedule ev))
         (ev_start_time ev) (ev_metadata ev) (ev_webhook ev) (ev_tags ev) (ev_status ev) (ev_created_at ev)
         (ev_updated_at ev) (map_option enc_action (ev_action ev))) db x db' \<longleftrightarrow>
   (\<exists>ts. ev_tags ev = Some ts \<and> \<not> has_event db (ev_id ev) \<and> x = DIds [ev_id ev]
      \<and> db' = db\<lparr>db_events := db_events db @ [row_of_event P ts ev]\<rparr>)"
  by (auto simp: sql_effect_def row_of_event_def option.map_comp comp_def split: option.splits intro: exI [of _ id])

definition created :: "uuid \<Rightarrow> instant \<Rightarrow> event \<Rightarrow> event" where
  "created i now ev = deriveAndSetAction (ev\<lparr>ev_id := i, ev_created_at := now,
       ev_updated_at := (case ev_updated_at ev of None \<Rightarrow> Some now | Some t \<Rightarrow> Some t),
       ev_status := (if ev_status ev = [] then EventStatusActive else ev_status ev)\<rparr>)"

lemma Create_wp:
  assumes ok: "svc_ok S P V"
  shows "wp (Create S ev) (\<lambda>r w'. rv V w' = rv V w \<and> ov V w' = ov V w \<and>
     (case r of
        Inr ev' \<Rightarrow> (\<exists>i now ts. ev' = created i now ev \<and> ev_tags ev = Some ts \<and> \<not> has_event (dv V w) i
           \<and> dv V w' = (dv V w)\<lparr>db_events := db_events (dv V w) @ [row_of_event P ts ev']\<rparr>)
      | Inl _ \<Rightarrow> dv V w' = dv V w \<or> (\<exists>i now ts. ev_tags ev = Some ts
           \<and> dv V w' = (dv V w)\<lparr>db_events := db_events (dv V w) @ [row_of_event P ts (created i now ev)]\<rparr>))) w"
  unfolding Create_def Let_def wp_bind wp_attempt
  apply (rule wp_time [OF ok], rule wp_uuid [OF ok], fold created_def, rule wp_sql [OF ok])
   apply (auto simp: insert_event_effect, auto simp: created_def)
  done

text \<open>Reading one event.\<close>

lemma GetByID_wp:
  assumes ok: "svc_ok S P V"
  shows "wp (GetByID S i) (\<lambda>r w'. rv V w' = rv V w \<and> dv V w' = dv V w \<and> ov V w' = ov V w \<and>
     (case r of
        Inr None \<Rightarrow> \<not> has_event (dv V w) i
      | Inr (Some ev) \<Rightarrow> (\<exists>row ev0. row \<in> set (db_events (dv V w)) \<and> er_id row = i \<and> event_of_row row = Inr ev0
           \<and> ev = populateWebhookFromAction ev0)
      | Inl _ \<Rightarrow> True)) w"
proof -
  have eff: "x = DEvents (filter (\<lambda>r. er_id r = i) (db_events db))" if "sql_effect P (SelectEvent i) db x db'" for db x db'
    using that by (auto simp: sql_effect_def)
  have none: "filter (\<lambda>r. er_id r = i) (db_events db) = [] \<longleftrightarrow> \<not> has_event db i" for db
    by (auto simp: has_event_iff filter_empty_conv)
  have row: "row \<in> set (db_events db) \<and> er_id row = i"
    if "filter (\<lambda>r. er_id r = i) (db_events db) = row # rest" for db row rest
  proof -
    from that have "row \<in> set (filter (\<lambda>r. er_id r = i) (db_events db))" by simp
    then show ?thesis by simp
  qed
  show ?thesis
    unfolding GetByID_def wp_attempt
    by (rule wp_sql_read [OF ok]) (auto dest!: eff simp: none dest: row split: list.splits sum.splits, use row in blast)
qed

text \<open>Changing one event: its row, and no other.\<close>

definition updated :: "instant \<Rightarrow> event \<Rightarrow> event" where
  "updated now ev = deriveAndSetAction (ev\<lparr>ev_updated_at := Some now\<rparr>)"

definition update_row :: "pg \<Rightarrow> string list \<Rightarrow> event \<Rightarrow> event_row \<Rightarrow> event_row" where
  "update_row P ts ev r =
     (if er_id r = ev_id ev
      then (row_of_event P ts ev)\<lparr>er_hmac_secret := er_hmac_secret r, er_created_at := er_created_at r\<rparr> else r)"

lemma update_event_effect:
  assumes "sql_effect P (UpdateEventRow (ev_name ev) (ev_description ev) (map_option enc_schedule_config (ev_schedule ev))
         (ev_start_time ev) (ev_metadata ev) (ev_webhook ev) (ev_tags ev) (ev_status ev) (ev_updated_at ev)
         (map_option enc_action (ev_action ev)) (ev_id ev)) db x db'"
  shows "\<exists>n. x = DNum n \<and> (n = 0 \<longleftrightarrow> \<not> has_event db (ev_id ev))
     \<and> (if n = 0 then db' = db else \<exists>ts. ev_tags ev = Some ts \<and> db' = db\<lparr>db_events := map (update_row P ts ev) (db_events db)\<rparr>)"
proof -
  have none: "filter (\<lambda>r. er_id r = i) (db_events db) = [] \<longleftrightarrow> \<not> has_event db i" for i
    by (auto simp: has_event_iff filter_empty_conv)
  have same: "map (update_row P ts ev) (db_events db) = db_events db" if "\<not> has_event db (ev_id ev)" for ts
    using that by (auto simp: has_event_iff update_row_def map_idI image_iff intro!: map_idI)
  have row: "(if er_id r = ev_id ev then r\<lparr>er_name := ev_name ev, er_description := ev_description ev,
       er_schedule := map_option (pg_jsonb P) (map_option enc_schedule_config (ev_schedule ev)),
       er_start_time := pg_time P (ev_start_time ev), er_metadata := pg_jsonb P (ev_metadata ev), er_webhook := ev_webhook ev,
       er_tags := ts, er_status := ev_status ev, er_updated_at := map_option (pg_time P) (ev_updated_at ev),
       er_action := map_option (pg_jsonb P) (map_option enc_action (ev_action ev))\<rparr> else r) = update_row P ts ev r" for r ts
    by (cases r) (simp add: update_row_def row_of_event_def option.map_comp)
  from assms show ?thesis
    by (cases "ev_tags ev") (auto simp: sql_effect_def none row same split: if_splits)
qed

lemma updated_keeps [simp]: "ev_id (updated now ev) = ev_id ev" "ev_tags (updated now ev) = ev_tags ev"
  by (simp_all add: updated_def)

lemma Update_wp:
  assumes ok: "svc_ok S P V"
  shows "wp (Update S ev) (\<lambda>r w'. rv V w' = rv V w \<and> ov V w' = ov V w \<and>
     (dv V w' = dv V w \<or> (\<exists>now ts. ev_tags ev = Some ts
        \<and> dv V w' = (dv V w)\<lparr>db_events := map (update_row P ts (updated now ev)) (db_events (dv V w))\<rparr>)) \<and>
     (case r of
        Inr ev' \<Rightarrow> has_event (dv V w) (ev_id ev) \<and> (\<exists>now ts. ev' = updated now ev \<and> ev_tags ev = Some ts
           \<and> dv V w' = (dv V w)\<lparr>db_events := map (update_row P ts ev') (db_events (dv V w))\<rparr>)
      | Inl e \<Rightarrow> e = ErrEventNotFound \<longrightarrow> \<not> has_event (dv V w) (ev_id ev) \<and> dv V w' = dv V w)) w"
  unfolding Update_def Let_def wp_bind wp_attempt
proof (rule wp_time [OF ok], fold updated_def, rule wp_sql [OF ok], goal_cases)
  case (1 now w1 x w2)
  then show ?case
    using update_event_effect [OF 1(4)] by (auto split: if_splits)
next
  case (2 now w1 e w2)
  show ?case
  proof (cases "dv V w2 = dv V w1")
    case True
    with 2 show ?thesis by simp
  next
    case False
    with 2(4) obtain x where "sql_effect P (UpdateEventRow (ev_name (updated now ev)) (ev_description (updated now ev))
       (map_option enc_schedule_config (ev_schedule (updated now ev))) (ev_start_time (updated now ev))
       (ev_metadata (updated now ev)) (ev_webhook (updated now ev)) (ev_tags (updated now ev)) (ev_status (updated now ev))
       (ev_updated_at (updated now ev)) (map_option enc_action (ev_action (updated now ev))) (ev_id (updated now ev)))
       (dv V w1) x (dv V w2)" by blast
    from update_event_effect [OF this] 2 show ?thesis by (auto split: if_splits)
  qed
qed

section \<open>Removing an event\<close>

text \<open>The entries whose payload names the event.\<close>

definition entry_of :: "(string \<Rightarrow> uuid option) \<Rightarrow> uuid \<Rightarrow> string \<Rightarrow> bool" where
  "entry_of up i v \<longleftrightarrow> unmarshal (dec_event_id up) v = Inr i"

definition of_event :: "(string \<Rightarrow> uuid option) \<Rightarrow> string \<Rightarrow> uuid \<Rightarrow> string \<Rightarrow> rdata \<Rightarrow> bool" where
  "of_event up pre i k d \<longleftrightarrow> (\<exists>v. rd_hashes d (pre @ scheduleDataKey) k = Some v \<and> entry_of up i v)"

text \<open>What a round of the loop may leave behind: nothing done, the member gone, both gone, or (the
  sorted set not answering) only the payload gone.\<close>

definition drop_member :: "string \<Rightarrow> string \<Rightarrow> rdata \<Rightarrow> rdata" where
  "drop_member pre k d = call (ZREM (pre @ ScheduleKey) k) d"

definition drop_payload :: "string \<Rightarrow> string \<Rightarrow> rdata \<Rightarrow> rdata" where
  "drop_payload pre k d = call (HDEL (pre @ scheduleDataKey) k) d"

lemma remove_if_of_wp:
  assumes ok: "svc_ok S P V"
  shows "wp (remove_if_of up S pre i k) (\<lambda>_ w'. dv V w' = dv V w \<and> ov V w' = ov V w \<and>
     (rv V w' = rv V w \<or> (of_event up pre i k (rv V w) \<and>
        rv V w' \<in> {drop_member pre k (rv V w), drop_payload pre k (rv V w), remove_entry pre k (rv V w)}))) w"
proof -
  have get: "redis_sem (HGET h k) d = (RStr v, d') \<Longrightarrow> d' = d \<and> rd_hashes d h k = Some v" for h d v d'
    by (auto simp: opt_reply_def split: option.splits)
  show ?thesis
    unfolding remove_if_of_def wp_bind
  proof (rule wp_redis [OF ok], goal_cases)
    case (1 x w1)
    then have "rv V w1 = rv V w" by simp
    with 1 show ?case
      by (cases x) (auto split: sum.split intro!: wp_redis [OF ok] dest!: redis_sem_call get
          simp: of_event_def entry_of_def drop_member_def drop_payload_def remove_entry_def opt_reply_def
          split: option.splits)
  qed auto
qed

text \<open>The entries of other events, and all other keys, stay as they are.\<close>

definition only_removes :: "(string \<Rightarrow> uuid option) \<Rightarrow> string \<Rightarrow> uuid \<Rightarrow> rdata \<Rightarrow> rdata \<Rightarrow> bool" where
  "only_removes up pre i d d' \<longleftrightarrow>
     rd_lists d' = rd_lists d \<and> rd_strings d' = rd_strings d
   \<and> (\<forall>z. z \<noteq> pre @ ScheduleKey \<longrightarrow> rd_zsets d' z = rd_zsets d z)
   \<and> (\<forall>h. h \<noteq> pre @ scheduleDataKey \<longrightarrow> rd_hashes d' h = rd_hashes d h)
   \<and> set (rd_zsets d' (pre @ ScheduleKey)) \<subseteq> set (rd_zsets d (pre @ ScheduleKey))
   \<and> rd_hashes d' (pre @ scheduleDataKey) \<subseteq>\<^sub>m rd_hashes d (pre @ scheduleDataKey)
   \<and> (\<forall>k. \<not> of_event up pre i k d \<longrightarrow>
        rd_hashes d' (pre @ scheduleDataKey) k = rd_hashes d (pre @ scheduleDataKey) k
        \<and> (\<forall>s. ZItem s k \<in> set (rd_zsets d' (pre @ ScheduleKey)) \<longleftrightarrow> ZItem s k \<in> set (rd_zsets d (pre @ ScheduleKey))))"

lemma only_removes_refl [simp]: "only_removes up pre i d d"
  by (simp add: only_removes_def)

lemma only_removes_of_event:
  "only_removes up pre i d d' \<Longrightarrow> of_event up pre i k d' \<Longrightarrow> of_event up pre i k d"
  by (force simp: only_removes_def of_event_def map_le_def dom_def)

lemma only_removes_trans:
  assumes "only_removes up pre i d d'" "only_removes up pre i d' d''"
  shows "only_removes up pre i d d''"
proof -
  have "\<not> of_event up pre i k d \<Longrightarrow> \<not> of_event up pre i k d'" for k
    using only_removes_of_event [OF assms(1)] by blast
  with assms show ?thesis
    unfolding only_removes_def by (auto intro: map_le_trans)
qed

lemma only_removes_step:
  assumes "of_event up pre i k d"
  shows "only_removes up pre i d (drop_member pre k d)" "only_removes up pre i d (drop_payload pre k d)"
    "only_removes up pre i d (remove_entry pre k d)"
  using assms by (auto simp: only_removes_def drop_member_def drop_payload_def remove_entry_def map_le_def)

lemma RemoveEventOccurrences_wp:
  assumes ok: "svc_ok S P V"
  shows "wp (RemoveEventOccurrencesFromRedis up S pre i) (\<lambda>_ w'. dv V w' = dv V w \<and> ov V w' = ov V w
     \<and> only_removes up pre i (rv V w) (rv V w')) w"
proof -
  have loop: "wp (for_each (remove_if_of up S pre i) ks) (\<lambda>_ w'. dv V w' = dv V w \<and> ov V w' = ov V w
     \<and> only_removes up pre i (rv V w) (rv V w')) w1"
    if "dv V w1 = dv V w" "ov V w1 = ov V w" "rv V w1 = rv V w" for ks w1
  proof (rule wp_for_each)
    fix k w2 assume I: "dv V w2 = dv V w \<and> ov V w2 = ov V w \<and> only_removes up pre i (rv V w) (rv V w2)"
    show "wp (remove_if_of up S pre i k) (\<lambda>_ w'. dv V w' = dv V w \<and> ov V w' = ov V w
        \<and> only_removes up pre i (rv V w) (rv V w')) w2"
      using remove_if_of_wp [OF ok]
      by (rule wp_mono) (use I only_removes_step [of up pre i k "rv V w2"] in
        \<open>auto intro: only_removes_trans [OF conjunct2 [OF conjunct2 [OF I]]]\<close>)
  qed (use that in simp)
  show ?thesis
    unfolding RemoveEventOccurrencesFromRedis_def wp_attempt
  proof (rule wp_redis [OF ok], goal_cases)
    case (1 x w1)
    then have "rv V w1 = rv V w" by simp
    with 1 show ?case by (simp add: loop)
  qed auto
qed

text \<open>With a Redis that answers every command, all of the event's entries are gone.\<close>

definition reliable :: "'w svc \<Rightarrow> bool" where
  "reliable S \<longleftrightarrow> (\<forall>c w. is_ok (result_of (redis_do S c) w))"

lemma wp_redis_reliable:
  assumes ok: "svc_ok S P V" and rel: "reliable S"
    and suc: "\<And>x w'. redis_sem c (rv V w) = (x, rv V w') \<Longrightarrow> dv V w' = dv V w \<Longrightarrow> ov V w' = ov V w \<Longrightarrow> Q (Inr x) w'"
  shows "wp (redis S c) Q w"
proof -
  obtain r w' where r: "run_state (redis_do S c) w = (r, w')" by fastforce
  from rel have "is_ok (result_of (redis_do S c) w)" by (simp add: reliable_def)
  with r have "is_ok r" by (simp add: result_of_def)
  then obtain x where x: "r = Inr x" by (rule is_okE)
  have "wp (redis S c) (\<lambda>r w'. is_ok r \<longrightarrow> Q r w') w"
    by (rule wp_redis [OF ok]) (auto intro: suc)
  with r x show ?thesis by (simp add: wp_def redis_def State_Monad.bind_def)
qed

definition purge :: "(string \<Rightarrow> uuid option) \<Rightarrow> string \<Rightarrow> uuid \<Rightarrow> string \<Rightarrow> rdata \<Rightarrow> rdata" where
  "purge up pre i k d = (if of_event up pre i k d then remove_entry pre k d else d)"

lemma remove_if_of_reliable:
  assumes ok: "svc_ok S P V" and rel: "reliable S"
  shows "wp (remove_if_of up S pre i k) (\<lambda>_ w'. rv V w' = purge up pre i k (rv V w)) w"
proof -
  have get: "redis_sem (HGET h k) d = (x, d') \<Longrightarrow> d' = d \<and> x = opt_reply (rd_hashes d h k)" for h d x d'
    by auto
  show ?thesis
    unfolding remove_if_of_def wp_bind
    by (rule wp_redis_reliable [OF ok rel], drule get)
       (auto split: sum.split option.split intro!: wp_redis_reliable [OF ok rel] dest!: redis_sem_call
         simp: of_event_def entry_of_def remove_entry_def opt_reply_def purge_def)
qed

lemma remove_all_reliable:
  assumes ok: "svc_ok S P V" and rel: "reliable S"
  shows "wp (for_each (remove_if_of up S pre i) ks) (\<lambda>_ w'. rv V w' = fold (purge up pre i) ks (rv V w)) w"
proof (induction ks arbitrary: w)
  case (Cons k ks)
  have "wp (for_each (remove_if_of up S pre i) ks)
      (\<lambda>_ w'. rv V w' = fold (purge up pre i) ks (purge up pre i k (rv V w))) w1"
    if "rv V w1 = purge up pre i k (rv V w)" for w1
    using Cons.IH [of w1] that by simp
  with remove_if_of_reliable [OF ok rel, of up pre i k w] show ?case
    by (simp, elim wp_mono) simp
qed simp

lemma rdata_ok_remove: "rdata_ok d \<Longrightarrow> rdata_ok (remove_entry pre k d)"
  by (rule redis_store.delete_inv)

lemma pending_after_purges:
  assumes "rdata_ok d"
  shows "pending_entries pre (fold (purge up pre i) ks d) =
    (\<lambda>k. if k \<in> set ks \<and> of_event up pre i k d then None else pending_entries pre d k)"
  using assms
proof (induction ks arbitrary: d)
  case (Cons k ks)
  have "rdata_ok (purge up pre i k d)" using Cons.prems by (simp add: purge_def rdata_ok_remove)
  note IH = Cons.IH [OF this]
  have "of_event up pre i k' (purge up pre i k d) \<longleftrightarrow> of_event up pre i k' d \<and> k' \<noteq> k" for k'
    by (auto simp: purge_def of_event_def remove_entry_def)
  moreover have "pending_entries pre (purge up pre i k d) =
    (if of_event up pre i k d then (pending_entries pre d)(k := None) else pending_entries pre d)"
    using redis_store.delete_pending [OF Cons.prems] by (simp add: purge_def)
  ultimately show ?case using IH by (auto simp: fun_eq_iff)
qed simp

lemma RemoveEventOccurrences_reliable:
  assumes ok: "svc_ok S P V" and rel: "reliable S" and d: "rdata_ok (rv V w)"
  shows "wp (RemoveEventOccurrencesFromRedis up S pre i) (\<lambda>r w'. r = Inr () \<and> pending_entries pre (rv V w') =
     (\<lambda>k. case pending_entries pre (rv V w) k of None \<Rightarrow> None
          | Some (s, v) \<Rightarrow> if entry_of up i v then None else Some (s, v))) w"
  unfolding RemoveEventOccurrencesFromRedis_def wp_attempt
proof (rule wp_redis_reliable [OF ok rel], goal_cases)
  case (1 x w1)
  define ks where "ks = zmembers (rd_zsets (rv V w) (pre @ ScheduleKey))"
  from 1 have x: "x = RArr ks" and same: "rv V w1 = rv V w" by (auto simp: ks_def)
  have pend: "pending_entries pre (fold (purge up pre i) ks (rv V w)) =
    (\<lambda>k. case pending_entries pre (rv V w) k of None \<Rightarrow> None
         | Some (s, v) \<Rightarrow> if entry_of up i v then None else Some (s, v))" (is "_ = ?p")
  proof
    fix k
    have "k \<in> set ks" if "score_of k (rd_zsets (rv V w) (pre @ ScheduleKey)) = Some s" for s
      using that d by (force simp: ks_def zmembers_def rdata_ok_def score_of_Some)
    then show "pending_entries pre (fold (purge up pre i) ks (rv V w)) k = ?p k"
      unfolding pending_after_purges [OF d]
      by (auto simp: pending_entries_def of_event_def split: option.splits)
  qed
  have "wp (for_each (remove_if_of up S pre i) ks) (\<lambda>_ w'. pending_entries pre (rv V w') = ?p) w1"
    using remove_all_reliable [OF ok rel] by (rule wp_mono) (simp add: same pend)
  with x show ?case by simp
qed

lemma touch_effect:
  "sql_effect P (TouchEvent t i) db x db' \<Longrightarrow>
     db' = db\<lparr>db_events := map (\<lambda>r. if er_id r = i then r\<lparr>er_updated_at := Some (pg_time P t)\<rparr> else r) (db_events db)\<rparr>"
  by (auto simp: sql_effect_def)

lemma filter_touched:
  "(\<And>r. er_id (f r) = er_id r) \<Longrightarrow>
     filter (\<lambda>r. er_id r \<noteq> i) (map (\<lambda>r. if er_id r = i then f r else r) rs) = filter (\<lambda>r. er_id r \<noteq> i) rs"
  by (induction rs) auto

lemma filter_other_occs:
  "db_ok db \<Longrightarrow> \<not> has_event db i \<Longrightarrow> filter (\<lambda>oc. oc_event_id oc \<noteq> i) (db_occs db) = db_occs db"
  by (auto simp: db_ok_def has_event_iff filter_id_conv)

lemma Delete_wp:
  assumes ok: "svc_ok S P V" and db: "db_ok (dv V w)"
  shows "wp (Delete up S pre i) (\<lambda>r w'. ov V w' = ov V w \<and> only_removes up pre i (rv V w) (rv V w') \<and>
     (r = Inr () \<longrightarrow> db_events (dv V w') = filter (\<lambda>r. er_id r \<noteq> i) (db_events (dv V w))
        \<and> db_occs (dv V w') = filter (\<lambda>oc. oc_event_id oc \<noteq> i) (db_occs (dv V w)))) w"
  unfolding Delete_def wp_attempt
proof (rule wp_sql_read [OF ok], goal_cases)
  case (2 x w1)
  note w1 = 2
  then have x: "x = DIds (map er_id (filter (\<lambda>r. er_id r = i) (db_events (dv V w))))" by (auto simp: sql_effect_def)
  show ?case
  proof (cases "has_event (dv V w) i")
    case False
    then have none: "filter (\<lambda>r. er_id r = i) (db_events (dv V w)) = []" "filter (\<lambda>r. er_id r \<noteq> i) (db_events (dv V w)) = db_events (dv V w)"
      by (auto simp: has_event_iff filter_empty_conv filter_id_conv)
    with x w1 filter_other_occs [OF db False] show ?thesis by simp
  next
    case True
    then have some: "filter (\<lambda>r. er_id r = i) (db_events (dv V w)) \<noteq> []"
      by (auto simp: has_event_iff filter_empty_conv)
    have rem: "wp (RemoveEventOccurrencesFromRedis up S pre i) (\<lambda>_ w'. ov V w' = ov V w
        \<and> only_removes up pre i (rv V w) (rv V w') \<and> dv V w' = dv V w3) w3"
      if "rv V w3 = rv V w" "ov V w3 = ov V w" for w3
      using RemoveEventOccurrences_wp [OF ok, of up pre i w3] by (rule wp_mono) (use that in auto)
    have del: "sql_effect P (DeleteEventRow i) d1 y d2 \<Longrightarrow> d2 = delete_events (\<lambda>r. er_id r = i) d1" for d1 y d2
      by (auto simp: sql_effect_def)
    have "filter (\<lambda>oc. \<not> list_ex (\<lambda>r. er_id r = i \<and> er_id r = oc_event_id oc)
        (map (\<lambda>r. if er_id r = i then r\<lparr>er_updated_at := u\<rparr> else r) (db_events (dv V w)))) (db_occs (dv V w))
      = filter (\<lambda>oc. oc_event_id oc \<noteq> i) (db_occs (dv V w))" for u
    proof -
      have lx: "list_ex (\<lambda>r. er_id r = i \<and> er_id r = j) rs \<longleftrightarrow> i = j \<and> i \<in> set (map er_id rs)" for j rs
        by (auto simp: list_ex_iff)
      have mp: "map er_id (map (\<lambda>r. if er_id r = i then r\<lparr>er_updated_at := u\<rparr> else r) rs) = map er_id rs" for rs
        by (induction rs) auto
      have "i \<in> set (map er_id (db_events (dv V w)))" using True by (simp add: has_event_iff)
      then show ?thesis unfolding lx mp by (intro filter_cong) auto
    qed
    with x some w1 show ?thesis
      by (auto intro!: wp_time [OF ok] wp_sql [OF ok] wp_mono [OF rem] dest!: touch_effect del
          simp: filter_touched delete_events_def)
  qed
qed auto

section \<open>Properties\<close>

text \<open>C31. An event that \<open>Create\<close> has stored is what \<open>GetByID\<close> then returns, up to what the columns keep: the times as a
  \<open>timestamptz\<close> holds them, metadata and action as \<open>jsonb\<close> holds them, the webhook string as given, and the custom
  HMAC secret lost (no statement writes or reads that column).\<close>

theorem Create_then_GetByID:
  assumes "svc_ok S P V" "pg_ok P" "storable ev" "ev_webhook ev \<noteq> []" "result_of (Create S ev) w = Inr ev'"
    "result_of (GetByID S (ev_id ev')) (after (Create S ev) w) = Inr found"
  shows "found = Some (stored_event P ev') \<and> ev_webhook (stored_event P ev') = ev_webhook ev
    \<and> ev_schedule (stored_event P ev') = ev_schedule ev \<and> ev_hmac_secret (stored_event P ev') = None"
proof -
  define w1 where "w1 = after (Create S ev) w"
  have jb: "jsonb_ok (pg_jsonb P)" using assms(2) by (simp add: pg_ok_def)
  from wp_result [OF Create_wp [OF assms(1), of ev w]] assms(5) obtain i now ts where c: "ev' = created i now ev"
    "ev_tags ev = Some ts" "\<not> has_event (dv V w) i"
    "dv V w1 = (dv V w)\<lparr>db_events := db_events (dv V w) @ [row_of_event P ts ev']\<rparr>"
    by (auto simp: w1_def)
  have id: "ev_id ev' = i" "ev_tags ev' = Some ts" "ev_schedule ev' = ev_schedule ev" and wh: "ev_webhook ev' = ev_webhook ev"
    and act: "ev_action ev' = Some (action_of_webhook (ev_webhook ev))"
    using c(1,2) assms(4) by (simp_all add: created_def deriveAndSetAction_def)
  have "storable ev'" using assms(3) id(3) by (simp add: storable_def)
  note row = event_of_row_stored [OF assms(2) this id(2)]
  have only: "r = row_of_event P ts ev'" if "r \<in> set (db_events (dv V w1))" "er_id r = i" for r
    using that c(3,4) by (auto simp: has_event_iff)
  have has: "has_event (dv V w1) i" using c(4) id(1) by (simp add: has_event_iff row_of_event_def)
  from wp_result [OF GetByID_wp [OF assms(1), of "ev_id ev'" w1]] assms(6) has id(1)
  obtain r ev0 where "r \<in> set (db_events (dv V w1))" "er_id r = i" "event_of_row r = Inr ev0"
    "found = Some (populateWebhookFromAction ev0)"
    by (auto simp: w1_def split: option.splits)
  with only row have f: "found = Some (populateWebhookFromAction (stored_event P ev'))" by auto
  have "ev_action (stored_event P ev') = Some (stored_action (pg_jsonb P) (action_of_webhook (ev_webhook ev)))"
    by (simp add: stored_event_def act)
  from populate_stored [OF jb this] f wh id(3) show ?thesis by (simp add: stored_event_def)
qed

definition demo_created :: event where
  "demo_created = created (mem_uuid 1) 0 demo_event"

lemma demo_create:
  "result_of (Create mem_svc demo_event) (mem_at 0) = Inr demo_created"
  "after (Create mem_svc demo_event) (mem_at 0) =
     (mem_at 0)\<lparr>m_db := no_dbdata\<lparr>db_events := [row_of_event mem_pg [''nightly''] demo_created]\<rparr>, m_next := 2\<rparr>"
  by (simp_all add: Create_def attempt_def sql_def mem_svc_def result_of_def after_def State_Monad.bind_def
      State_Monad.return_def demo_event_def demo_created_def created_def Let_def deriveAndSetAction_def mem_at_def
      no_dbdata_def has_event_def row_of_event_def mem_pg_def)

theorem Create_then_GetByID_witness:
  "result_of (GetByID mem_svc (mem_uuid 1)) (after (Create mem_svc demo_event) (mem_at 0))
     = Inr (Some (stored_event mem_pg demo_created))"
proof -
  have id: "ev_id demo_created = mem_uuid 1" by (simp add: demo_created_def created_def)
  have st: "storable demo_created" "ev_tags demo_created = Some [''nightly'']"
    by (simp_all add: demo_created_def created_def storable_def demo_event_def)
  have "event_of_row (row_of_event mem_pg [''nightly''] demo_created) = Inr (stored_event mem_pg demo_created)"
    using event_of_row_stored [OF mem_pg_ok st] .
  then obtain found where "result_of (GetByID mem_svc (ev_id demo_created)) (after (Create mem_svc demo_event) (mem_at 0)) = Inr found"
    unfolding demo_create(2)
    by (simp add: GetByID_def attempt_def sql_def mem_svc_def result_of_def State_Monad.bind_def State_Monad.return_def
        no_dbdata_def row_of_event_def)
  moreover have "storable demo_event" "ev_webhook demo_event \<noteq> []" by (simp_all add: storable_def demo_event_def)
  ultimately show ?thesis
    using Create_then_GetByID [OF mem_svc_ok mem_pg_ok _ _ demo_create(1)] by (auto simp: id)
qed

text \<open>\<open>Update\<close> changes the row of its event and no other, keeps that row's creation time and HMAC secret, and
  reports \<open>ErrEventNotFound\<close> only when there is no such row, having changed nothing.\<close>

theorem Update_changes_only_its_event:
  assumes "svc_ok S P V"
  shows "let r = result_of (Update S ev) w; db = dv V w; db' = dv V (after (Update S ev) w) in
    filter (\<lambda>x. er_id x \<noteq> ev_id ev) (db_events db') = filter (\<lambda>x. er_id x \<noteq> ev_id ev) (db_events db)
    \<and> db_occs db' = db_occs db \<and> map er_hmac_secret (db_events db') = map er_hmac_secret (db_events db)
    \<and> map er_created_at (db_events db') = map er_created_at (db_events db)
    \<and> (r = Inl ErrEventNotFound \<longrightarrow> \<not> has_event db (ev_id ev) \<and> db' = db)
    \<and> (is_ok r \<longrightarrow> has_event db (ev_id ev) \<and> (\<exists>now ts. ev_tags ev = Some ts
         \<and> r = Inr (updated now ev) \<and> db_events db' = map (update_row P ts (updated now ev)) (db_events db)))"
proof -
  define r where "r = result_of (Update S ev) w"
  define db' where "db' = dv V (after (Update S ev) w)"
  note u = wp_result [OF Update_wp [OF assms, of ev w], folded r_def db'_def]
  have f: "filter (\<lambda>x. er_id x \<noteq> ev_id ev) (map (update_row P ts (updated now ev)) rs) = filter (\<lambda>x. er_id x \<noteq> ev_id ev) rs"
    and h: "map er_hmac_secret (map (update_row P ts (updated now ev)) rs) = map er_hmac_secret rs"
    and c: "map er_created_at (map (update_row P ts (updated now ev)) rs) = map er_created_at rs" for ts now rs
    by (induction rs) (auto simp: update_row_def row_of_event_def)
  from u have "db' = dv V w \<or> (\<exists>now ts. ev_tags ev = Some ts
      \<and> db' = (dv V w)\<lparr>db_events := map (update_row P ts (updated now ev)) (db_events (dv V w))\<rparr>)" by blast
  then have "filter (\<lambda>x. er_id x \<noteq> ev_id ev) (db_events db') = filter (\<lambda>x. er_id x \<noteq> ev_id ev) (db_events (dv V w))
      \<and> db_occs db' = db_occs (dv V w) \<and> map er_hmac_secret (db_events db') = map er_hmac_secret (db_events (dv V w))
      \<and> map er_created_at (db_events db') = map er_created_at (db_events (dv V w))"
    using f h c by (auto simp del: map_map)
  moreover from u have "r = Inl ErrEventNotFound \<longrightarrow> \<not> has_event (dv V w) (ev_id ev) \<and> db' = dv V w" by auto
  moreover have "is_ok r \<longrightarrow> has_event (dv V w) (ev_id ev) \<and> (\<exists>now ts. ev_tags ev = Some ts
         \<and> r = Inr (updated now ev) \<and> db_events db' = map (update_row P ts (updated now ev)) (db_events (dv V w)))"
  proof
    assume "is_ok r"
    then obtain ev' where r: "r = Inr ev'" by (rule is_okE)
    with u obtain now ts where n: "has_event (dv V w) (ev_id ev)" "ev' = updated now ev" "ev_tags ev = Some ts"
      and db': "db' = (dv V w)\<lparr>db_events := map (update_row P ts ev') (db_events (dv V w))\<rparr>" by auto
    from db' have "db_events db' = map (update_row P ts (updated now ev)) (db_events (dv V w))" by (simp add: n(2))
    with n r show "has_event (dv V w) (ev_id ev) \<and> (\<exists>now ts. ev_tags ev = Some ts
         \<and> r = Inr (updated now ev) \<and> db_events db' = map (update_row P ts (updated now ev)) (db_events (dv V w)))" by blast
  qed
  ultimately show ?thesis unfolding Let_def r_def [symmetric] db'_def [symmetric] by blast
qed

theorem Update_changes_only_its_event_witness:
  "db_occs (m_db (after (Update mem_svc demo_event) demo_mem)) = db_occs (m_db demo_mem)"
  using Update_changes_only_its_event [OF mem_svc_ok, of demo_event demo_mem] by (simp add: Let_def)

text \<open>C32. A successful \<open>Delete\<close> leaves no row of the event and none of its occurrences, and all other rows as they
  were; in Redis it touches no entry of another event, no queue and no other key.\<close>

theorem Delete_removes_event:
  assumes "svc_ok S P V" "db_ok (dv V w)" "result_of (Delete up S pre i) w = Inr ()"
  shows "let db = dv V w; w' = after (Delete up S pre i) w in
    db_events (dv V w') = filter (\<lambda>r. er_id r \<noteq> i) (db_events db)
    \<and> db_occs (dv V w') = filter (\<lambda>oc. oc_event_id oc \<noteq> i) (db_occs db)
    \<and> ov V w' = ov V w \<and> only_removes up pre i (rv V w) (rv V w')"
  using wp_result [OF Delete_wp [OF assms(1,2), of up pre i]] assms(3) by (simp add: Let_def)

theorem Delete_removes_event_witness:
  "result_of (Delete Some mem_svc [] (mem_uuid 0)) demo_mem = Inr ()
    \<and> db_events (m_db (after (Delete Some mem_svc [] (mem_uuid 0)) demo_mem)) = []"
proof -
  have r: "result_of (Delete Some mem_svc [] (mem_uuid 0)) demo_mem = Inr ()"
    by (simp add: Delete_def attempt_def sql_def redis_def mem_svc_def result_of_def State_Monad.bind_def State_Monad.return_def
        demo_mem_def demo_row_def no_dbdata_def RemoveEventOccurrencesFromRedis_def ignore_def no_rdata_def mem_at_def zmembers_def)
  from Delete_removes_event [OF mem_svc_ok _ r] r show ?thesis
    by (simp add: Let_def demo_mem_def demo_row_def no_dbdata_def db_ok_def)
qed

text \<open>With a Redis that answers, \<open>RemoveEventOccurrencesFromRedis\<close> removes exactly the pending entries whose payload
  names the event.\<close>

theorem RemoveEventOccurrences_exact:
  assumes "svc_ok S P V" "reliable S" "rdata_ok (rv V w)"
  shows "let w' = after (RemoveEventOccurrencesFromRedis up S pre i) w in
    result_of (RemoveEventOccurrencesFromRedis up S pre i) w = Inr ()
    \<and> pending_entries pre (rv V w') = (\<lambda>k. case pending_entries pre (rv V w) k of None \<Rightarrow> None
        | Some (s, v) \<Rightarrow> if entry_of up i v then None else Some (s, v))"
  using wp_result [OF RemoveEventOccurrences_reliable [OF assms]] by (simp add: Let_def)

lemma mem_reliable: "reliable mem_svc"
  by (simp add: reliable_def mem_answers)

theorem RemoveEventOccurrences_exact_witness:
  "result_of (RemoveEventOccurrencesFromRedis Some mem_svc [] (mem_uuid 0)) demo_mem = Inr ()"
  using RemoveEventOccurrences_exact [OF mem_svc_ok mem_reliable, of demo_mem Some "[]" "mem_uuid 0"] by (simp add: Let_def)

text \<open>The webhook string decides: whatever action an event carries, \<open>deriveAndSetAction\<close> replaces it by the one its
  webhook string denotes, a websocket client for \<open>q:name\<close> and a URL otherwise; reading the webhook back from
  that action, also after a stay in a \<open>jsonb\<close> column, gives the same string.\<close>

theorem webhook_decides_action:
  assumes "ev_webhook ev \<noteq> []" "jsonb_ok jb"
  shows "let ev' = deriveAndSetAction ev in ev_action ev' = Some (action_of_webhook (ev_webhook ev))
    \<and> webhook_consistent ev' \<and> populateWebhookFromAction ev' = ev'
    \<and> (\<forall>x. ev_action x = map_option (stored_action jb) (ev_action ev') \<longrightarrow>
         ev_webhook (populateWebhookFromAction x) = ev_webhook ev)"
proof -
  have "ev_action (deriveAndSetAction ev) = Some (action_of_webhook (ev_webhook ev))" "ev_webhook (deriveAndSetAction ev) = ev_webhook ev"
    using assms(1) by (simp_all add: deriveAndSetAction_def)
  then show ?thesis
    using populate_after_derive [OF assms(1)] populate_stored [OF assms(2)]
    by (auto simp: Let_def webhook_consistent_def)
qed

theorem webhook_decides_action_witness:
  "ev_action (deriveAndSetAction (demo_event\<lparr>ev_webhook := ''q:worker''\<rparr>)) = Some (action_of_webhook ''q:worker'')
    \<and> act_type (action_of_webhook ''q:worker'') = ActionTypeWebsocket"
  using webhook_decides_action [of "demo_event\<lparr>ev_webhook := ''q:worker''\<rparr>" id] mem_pg_ok
  by (simp add: Let_def pg_ok_def mem_pg_def action_of_webhook_def)

text \<open>\<open>ListEvents\<close> cannot return an event: it scans its fourth column, the schedule, into the start time, so it fails
  whenever a row matches the filter.\<close>

theorem ListEvents_returns_no_event:
  assumes "result_of (ListEvents S f) w = Inr evs"
  shows "evs = []"
proof -
  have "scan_listed rows = Inr xs \<Longrightarrow> xs = []" for rows xs
    by (cases rows) auto
  then have "wp (ListEvents S f) (\<lambda>r _. \<forall>evs. r = Inr evs \<longrightarrow> evs = []) w"
    unfolding ListEvents_def wp_attempt
    by (intro wpI) (auto split: dbreply.splits sum.splits)
  from wp_result [OF this] assms show ?thesis by simp
qed

theorem ListEvents_returns_no_event_witness:
  "result_of (ListEvents mem_svc \<lparr>ef_tags = [], ef_status = ''paused'', ef_before = None, ef_after = None\<rparr>) demo_mem = Inr []"
proof -
  have "result_of (ListEvents mem_svc \<lparr>ef_tags = [], ef_status = ''paused'', ef_before = None, ef_after = None\<rparr>) demo_mem
      = Inr []"
    by (simp add: ListEvents_def attempt_def sql_def mem_svc_def result_of_def State_Monad.bind_def State_Monad.return_def
        demo_mem_def demo_row_def no_dbdata_def newest_first_def event_status_defs mem_at_def)
  with ListEvents_returns_no_event [OF this] show ?thesis by simp
qed

end
