(* ===== verification/Expander.thy ===== *)
theory Expander
  imports EventRepository "HOL-Library.Sublist"
begin

text \<open>
  \<open>internal/scheduler/expander.go\<close>: turning an event into schedule entries for the window from
  \<open>now - gracePeriod\<close> to \<open>now + lookAheadDuration\<close>. A computation that may not return (a loop without
  progress, or a panic) is an \<open>option\<close>, \<open>None\<close> when it does not.
\<close>

record expander =
  ex_prefix :: string
  lookAheadDuration :: duration
  gracePeriod :: duration

section \<open>Scheduling with retries\<close>

fun contains :: "string \<Rightarrow> string \<Rightarrow> bool" where
  "contains s sub =
     (if length sub \<le> length s then
        (if s = sub then True
         else if length sub < length s then
           (if take (length sub) s = sub then True
            else (case s of [] \<Rightarrow> False | _ # s' \<Rightarrow> contains s' sub))
         else False)
      else False)"

declare contains.simps [simp del]

definition isRedisTimeoutOrConnError :: "string \<Rightarrow> bool" where
  "isRedisTimeoutOrConnError e \<longleftrightarrow>
     contains e ''timeout'' \<or> contains e ''connection refused'' \<or> contains e ''i/o timeout''
     \<or> contains e ''network is unreachable''"

text \<open>The loop with \<open>n\<close> attempts left; sleeping and logging have no effect in the model.\<close>

fun schedule_attempts :: "nat \<Rightarrow> 'w svc \<Rightarrow> string \<Rightarrow> occurrence \<Rightarrow> event \<Rightarrow> ('w, unit) state" where
  "schedule_attempts 0 S pre oc ev = State_Monad.return ()"
| "schedule_attempts (Suc n) S pre oc ev =
     State_Monad.bind (ScheduleEvent S pre oc ev)
       (\<lambda>r. case r of
          Inr _ \<Rightarrow> State_Monad.return ()
        | Inl e \<Rightarrow> if isRedisTimeoutOrConnError (error_text e) then schedule_attempts n S pre oc ev
                  else State_Monad.return ())"

definition maxRetries :: nat where "maxRetries = 3"

definition scheduleWithRetry :: "'w svc \<Rightarrow> string \<Rightarrow> occurrence \<Rightarrow> event \<Rightarrow> ('w, unit) state" where
  "scheduleWithRetry S pre oc ev = schedule_attempts maxRetries S pre oc ev"

section \<open>The times of a recurring event\<close>

definition after_grace :: "instant \<Rightarrow> instant \<Rightarrow> instant list" where
  "after_grace g t = (if g < t then [t] else [])"

definition in_window :: "instant \<Rightarrow> instant \<Rightarrow> instant \<Rightarrow> instant list" where
  "in_window g endt t = (if g < t \<and> t < endt then [t] else [])"

text \<open>\<open>weekdayMap[day]\<close>; a missing key reads as the zero value, Sunday.\<close>

definition weekday_of :: "string \<Rightarrow> int" where
  "weekday_of day =
     (if day = ''MO'' then 1 else if day = ''TU'' then 2 else if day = ''WE'' then 3
      else if day = ''TH'' then 4 else if day = ''FR'' then 5 else if day = ''SA'' then 6 else 0)"

definition weekly_day :: "instant \<Rightarrow> string \<Rightarrow> instant" where
  "weekly_day t day = add_date 0 t 0 0 ((weekday_of day - weekday 0 t + 7) mod 7)"

definition monthly_day :: "instant \<Rightarrow> int \<Rightarrow> instant" where
  "monthly_day t day =
     (case date_of 0 t of (y, m, _) \<Rightarrow>
        go_date 0 y m day (hour_of 0 t) (minute_of 0 t) (second_of 0 t) (nanosecond_of t))"

definition yearly_month :: "instant \<Rightarrow> int \<Rightarrow> instant" where
  "yearly_month t month =
     (case date_of 0 t of (y, _, d) \<Rightarrow>
        go_date 0 y month d (hour_of 0 t) (minute_of 0 t) (second_of 0 t) (nanosecond_of t))"

text \<open>The body of the loop that the switch selects.\<close>

definition window_body :: "schedule_config \<Rightarrow> instant \<Rightarrow> instant \<Rightarrow> instant \<Rightarrow> instant list" where
  "window_body sc g endt t =
     (if frequency sc = ''weekly'' \<and> by_day sc \<noteq> [] then concat (map (\<lambda>d. in_window g endt (weekly_day t d)) (by_day sc))
      else if frequency sc = ''monthly'' \<and> by_month_day sc \<noteq> [] then
        concat (map (\<lambda>d. in_window g endt (monthly_day t d)) (by_month_day sc))
      else if frequency sc = ''yearly'' \<and> by_month sc \<noteq> [] then
        concat (map (\<lambda>m. in_window g endt (yearly_month t m)) (by_month sc))
      else after_grace g t)"

text \<open>\<open>occurrences[:*schedule.Count]\<close> panics on a negative count.\<close>

definition limit_count :: "int option \<Rightarrow> instant list \<Rightarrow> instant list option" where
  "limit_count c ts =
     (case c of
        None \<Rightarrow> Some ts
      | Some n \<Rightarrow> if int (length ts) \<le> n then Some ts else if n < 0 then None else Some (take (nat n) ts))"

definition limit_until :: "string option \<Rightarrow> instant list \<Rightarrow> instant list result" where
  "limit_until u ts =
     (case u of
        None \<Rightarrow> Inr ts
      | Some s \<Rightarrow> (case parse_rfc3339 s of
          None \<Rightarrow> Inl (wrap_err ''invalid until date'' (Errorf ''parsing time''))
        | Some ut \<Rightarrow> Inr (filter (\<lambda>t. t < ut) ts)))"

definition expand_times :: "schedule_config \<Rightarrow> instant \<Rightarrow> instant \<Rightarrow> instant \<Rightarrow> instant list result option" where
  "expand_times sc startTime graceStart endTime =
     (if \<not> List.member frequencies (frequency sc) then Some (Inl (Errorf (''invalid frequency: '' @ frequency sc)))
      else do {
        ts \<leftarrow> for_loop (advance (frequency sc) (interval sc)) (window_body sc graceStart endTime) endTime startTime;
        ts' \<leftarrow> limit_count (count_limit sc) ts;
        Some (limit_until (until_text sc) ts') })"

section \<open>Expansion\<close>

definition pending_occurrence :: "uuid \<Rightarrow> uuid \<Rightarrow> instant \<Rightarrow> instant \<Rightarrow> occurrence" where
  "pending_occurrence oid ev t now =
     \<lparr>oc_id = 0, oc_occurrence_id = oid, oc_event_id = ev, oc_scheduled_at = t, oc_status = OccurrenceStatusPending,
      oc_attempt_count = 0, oc_timestamp = now, oc_status_code = 0, oc_response_body = [], oc_error_message = [],
      oc_started_at = zero_time, oc_completed_at = zero_time\<rparr>"

text \<open>One time of a recurring event: skipped when an occurrence exists at it, or when that cannot be told.\<close>

definition schedule_time :: "'w svc \<Rightarrow> string \<Rightarrow> instant \<Rightarrow> event \<Rightarrow> instant \<Rightarrow> ('w, unit) state" where
  "schedule_time S pre now ev t =
     State_Monad.bind (ExistsAtTime S (ev_id ev) t)
       (\<lambda>r. case r of
          Inl _ \<Rightarrow> State_Monad.return ()
        | Inr exists \<Rightarrow>
          if exists then State_Monad.return ()
          else do { oid \<leftarrow> new_uuid S; scheduleWithRetry S pre (pending_occurrence oid (ev_id ev) t now) ev })"

text \<open>What the clock says is read first; the rest is given that reading.\<close>

definition expand_recurring_at :: "'w svc \<Rightarrow> expander \<Rightarrow> schedule_config \<Rightarrow> event \<Rightarrow> instant \<Rightarrow> ('w, unit result) state option" where
  "expand_recurring_at S X sc ev now =
     (case expand_times sc (ev_start_time ev) (add_dur now (- gracePeriod X)) (add_dur now (lookAheadDuration X)) of
        None \<Rightarrow> None
      | Some (Inl e) \<Rightarrow> Some (State_Monad.return (Inl e))
      | Some (Inr ts) \<Rightarrow> Some (State_Monad.bind (for_each (schedule_time S (ex_prefix X) now ev) ts)
          (\<lambda>_. State_Monad.return (Inr ()))))"

definition expand_non_recurring_at :: "'w svc \<Rightarrow> expander \<Rightarrow> event \<Rightarrow> instant \<Rightarrow> ('w, unit result) state" where
  "expand_non_recurring_at S X ev now =
     (let graceStart = add_dur now (- gracePeriod X); startTime = ev_start_time ev;
          endTime = add_dur now (lookAheadDuration X)
      in if endTime < startTime then State_Monad.return (Inr ())
         else if startTime < graceStart then State_Monad.return (Inr ())
         else do {
           oid \<leftarrow> new_uuid S;
           _ \<leftarrow> scheduleWithRetry S (ex_prefix X) (pending_occurrence oid (ev_id ev) startTime now) ev;
           State_Monad.return (Inr ()) })"

text \<open>\<open>None\<close> stands for a run that does not return; it never gets to change the world.\<close>

definition run_option :: "('w, 'a) state option \<Rightarrow> ('w, 'a option) state" where
  "run_option m = (case m of None \<Rightarrow> State_Monad.return None
     | Some c \<Rightarrow> State_Monad.bind c (\<lambda>x. State_Monad.return (Some x)))"

definition expandRecurringEvent :: "'w svc \<Rightarrow> expander \<Rightarrow> schedule_config \<Rightarrow> event \<Rightarrow> ('w, unit result option) state" where
  "expandRecurringEvent S X sc ev = do { now \<leftarrow> time_now S; run_option (expand_recurring_at S X sc ev now) }"

definition expandNonRecurringEvent :: "'w svc \<Rightarrow> expander \<Rightarrow> event \<Rightarrow> ('w, unit result) state" where
  "expandNonRecurringEvent S X ev = do { now \<leftarrow> time_now S; expand_non_recurring_at S X ev now }"

text \<open>An event, whichever it is; the loop over the active events stops where one expansion does not return.\<close>

definition expandEvent :: "'w svc \<Rightarrow> expander \<Rightarrow> event \<Rightarrow> ('w, unit result option) state" where
  "expandEvent S X ev =
     (case ev_schedule ev of
        Some sc \<Rightarrow> expandRecurringEvent S X sc ev
      | None \<Rightarrow> State_Monad.bind (expandNonRecurringEvent S X ev) (\<lambda>r. State_Monad.return (Some r)))"

fun expand_each :: "'w svc \<Rightarrow> expander \<Rightarrow> event list \<Rightarrow> ('w, unit result option) state" where
  "expand_each S X [] = State_Monad.return (Some (Inr ()))"
| "expand_each S X (ev # evs) =
     State_Monad.bind (expandEvent S X ev)
       (\<lambda>r. case r of None \<Rightarrow> State_Monad.return None | Some _ \<Rightarrow> expand_each S X evs)"

definition ExpandEvents :: "'w svc \<Rightarrow> expander \<Rightarrow> ('w, unit result option) state" where
  "ExpandEvents S X =
     State_Monad.bind (ListActive S)
       (\<lambda>r. case r of
          Inl e \<Rightarrow> State_Monad.return (Some (Inl (wrap_err ''failed to get active events'' e)))
        | Inr evs \<Rightarrow> expand_each S X evs)"

section \<open>Substrings\<close>

lemma contains_iff: "contains s sub \<longleftrightarrow> sublist sub s"
proof (induction s)
  case Nil
  then show ?case by (cases sub) (simp_all add: contains.simps)
next
  case (Cons c s)
  have len: "sublist sub (c # s) \<Longrightarrow> length sub \<le> length (c # s)" by (rule sublist_length_le)
  have pre: "take (length sub) (c # s) = sub \<longleftrightarrow> prefix sub (c # s)"
    by (metis append_eq_conv_conj prefix_def take_is_prefix)
  have full: "sub = c # s" if "sublist sub (c # s)" "length sub = length (c # s)"
  proof -
    from that(1) obtain ps ss where e: "c # s = ps @ sub @ ss" by (auto simp: sublist_def)
    from arg_cong [OF e, of length] that(2) have "ps = []" "ss = []" by auto
    with e show ?thesis by simp
  qed
  show ?case
  proof (cases "length sub < length (c # s)")
    case True
    then have "contains (c # s) sub \<longleftrightarrow> c # s = sub \<or> take (length sub) (c # s) = sub \<or> contains s sub"
      by (subst contains.simps) auto
    with Cons pre show ?thesis by (auto simp: sublist_Cons_right)
  next
    case False
    then have "contains (c # s) sub \<longleftrightarrow> sub = c # s" by (subst contains.simps) auto
    moreover have "sublist sub (c # s) \<longleftrightarrow> sub = c # s"
      using len full False by (metis le_neq_implies_less sublist_order.order_refl)
    ultimately show ?thesis by simp
  qed
qed

section \<open>What scheduling with retries leaves in Redis\<close>

definition schedule_result :: "string \<Rightarrow> occurrence \<Rightarrow> event \<Rightarrow> rdata \<Rightarrow> rdata \<Rightarrow> bool" where
  "schedule_result pre oc ev d d' \<longleftrightarrow> d' = d \<or> (\<not> scheduled_key pre oc ev d \<and> (d' = partial_entry pre oc ev d
     \<or> (\<exists>data. marshal_schedule (schedule_of oc ev) = Inr data \<and> d' = schedule_entry pre oc ev data d)))"

lemma zadd_twice: "zadd s m (zadd s m zs) = zadd s m zs"
  by (simp add: zadd_def zrem_def filter_insort_triv)

lemma upd_zset_twice: "upd_zset k f (upd_zset k f d) = upd_zset k (\<lambda>z. f (f z)) d"
  by (simp add: upd_zset_def)

lemma partial_then:
  "scheduled_key pre oc ev (partial_entry pre oc ev d) = scheduled_key pre oc ev d"
  "partial_entry pre oc ev (partial_entry pre oc ev d) = partial_entry pre oc ev d"
  "schedule_entry pre oc ev data (partial_entry pre oc ev d) = schedule_entry pre oc ev data d"
  by (simp_all add: scheduled_key_def partial_entry_def schedule_entry_def add_entry_def upd_zset_twice zadd_twice)

lemma scheduled_after [simp]: "scheduled_key pre oc ev (schedule_entry pre oc ev data d)"
  by (simp add: scheduled_key_def schedule_entry_def add_entry_def)

lemma schedule_result_trans:
  "schedule_result pre oc ev d d' \<Longrightarrow> schedule_result pre oc ev d' d'' \<Longrightarrow> schedule_result pre oc ev d d''"
  by (auto simp: schedule_result_def partial_then)

lemma ScheduleEvent_result_wp:
  assumes ok: "svc_ok S P V"
  shows "wp (ScheduleEvent S pre oc ev) (\<lambda>r w'. dv V w' = dv V w \<and> ov V w' = ov V w
     \<and> schedule_result pre oc ev (rv V w) (rv V w')
     \<and> (is_ok r \<longrightarrow> scheduled_key pre oc ev (rv V w'))) w"
proof -
  have "wp (ScheduleEvent S pre oc ev) (\<lambda>r w'. scheduled_key pre oc ev (rv V w) \<longrightarrow> rv V w' = rv V w) w"
    unfolding ScheduleEvent_def Let_def wp_attempt
    by (rule wp_redis [OF ok]) (auto simp: scheduled_key_def)
  then show ?thesis
    using ScheduleEvent_wp [OF ok, of pre oc ev w]
    by (auto simp: wp_def schedule_result_def split: prod.splits sum.splits if_splits)
qed

lemma schedule_attempts_wp:
  assumes ok: "svc_ok S P V"
  shows "wp (schedule_attempts n S pre oc ev) (\<lambda>_ w'. dv V w' = dv V w \<and> ov V w' = ov V w
     \<and> schedule_result pre oc ev (rv V w) (rv V w')) w"
proof (induction n arbitrary: w)
  case (Suc n)
  show ?case
    unfolding schedule_attempts.simps wp_bind
  proof (rule wp_mono [OF ScheduleEvent_result_wp [OF ok]], goal_cases)
    case (1 r w1)
    have "wp (schedule_attempts n S pre oc ev) (\<lambda>_ w'. dv V w' = dv V w \<and> ov V w' = ov V w
       \<and> schedule_result pre oc ev (rv V w) (rv V w')) w1"
      using Suc.IH [of w1] by (rule wp_mono) (use 1 in \<open>auto intro: schedule_result_trans\<close>)
    with 1 show ?case by (cases r) auto
  qed
qed (simp add: schedule_result_def)

section \<open>Expanded times\<close>

lemma visits_before: "visits adv endt t = Some ts \<Longrightarrow> x \<in> set ts \<Longrightarrow> x < endt"
proof (induction ts arbitrary: t)
  case (Cons u us)
  then show ?case by (auto elim: visits_Some_cases)
qed simp

lemma set_in_window [simp]: "set (in_window g e t) = (if g < t \<and> t < e then {t} else {})"
  by (simp add: in_window_def)

lemma set_after_grace [simp]: "set (after_grace g t) = (if g < t then {t} else {})"
  by (simp add: after_grace_def)

lemma window_body_in_window:
  "x \<in> set (window_body sc g e t) \<Longrightarrow> t < e \<Longrightarrow> g < x \<and> x < e"
  by (auto simp: window_body_def split: if_splits)

lemma limit_count_prefix: "limit_count c ts = Some ts' \<Longrightarrow> \<exists>n. ts' = take n ts \<and> (\<forall>k. c = Some k \<longrightarrow> int (length ts') \<le> k)"
  by (auto simp: limit_count_def split: option.splits if_splits intro: exI [of _ "length ts"])

lemma limit_until_filter:
  "limit_until u ts = Inr ts' \<Longrightarrow> \<exists>p. ts' = filter p ts
     \<and> (\<forall>s ut. u = Some s \<longrightarrow> parse_rfc3339 s = Some ut \<longrightarrow> (\<forall>t \<in> set ts'. t < ut))"
  by (auto simp: limit_until_def split: option.splits intro: exI [of _ "\<lambda>_. True"])

text \<open>A successful expansion, taken apart.\<close>

lemma expand_timesE:
  assumes "expand_times sc st g e = Some (Inr ts)"
  obtains vs n p where "frequency sc \<in> set frequencies" "visits (advance (frequency sc) (interval sc)) e st = Some vs"
    "ts = filter p (take n (concat (map (window_body sc g e) vs)))"
    "\<forall>k. count_limit sc = Some k \<longrightarrow> int (length ts) \<le> k"
    "\<forall>s ut. until_text sc = Some s \<longrightarrow> parse_rfc3339 s = Some ut \<longrightarrow> (\<forall>t \<in> set ts. t < ut)"
proof -
  from assms obtain l l' where f: "frequency sc \<in> set frequencies"
    and l: "for_loop (advance (frequency sc) (interval sc)) (window_body sc g e) e st = Some l"
    and l': "limit_count (count_limit sc) l = Some l'" and u: "limit_until (until_text sc) l' = Inr ts"
    by (auto simp: expand_times_def Option.bind_eq_Some_conv split: if_splits)
  from for_loop_Some_visits [OF l] obtain vs where vs: "visits (advance (frequency sc) (interval sc)) e st = Some vs" by blast
  with for_loop_visits [OF vs, of "window_body sc g e"] l have "l = concat (map (window_body sc g e) vs)" by simp
  moreover from limit_count_prefix [OF l'] obtain n where "l' = take n l" "\<forall>k. count_limit sc = Some k \<longrightarrow> int (length l') \<le> k" by blast
  moreover from limit_until_filter [OF u] obtain p where "ts = filter p l'"
    "\<forall>s ut. until_text sc = Some s \<longrightarrow> parse_rfc3339 s = Some ut \<longrightarrow> (\<forall>t \<in> set ts. t < ut)" by blast
  moreover have "length (filter p l') \<le> length l'" by simp
  ultimately show ?thesis using that [OF f vs, of p n] by force
qed

lemma expand_times_window:
  assumes "expand_times sc st g e = Some (Inr ts)" "t \<in> set ts"
  shows "g < t \<and> t < e"
proof -
  obtain vs n p where vs: "visits (advance (frequency sc) (interval sc)) e st = Some vs"
    and ts: "ts = filter p (take n (concat (map (window_body sc g e) vs)))"
    using assms(1) by (rule expand_timesE)
  from assms(2) ts have "t \<in> set (concat (map (window_body sc g e) vs))" by (auto dest: in_set_takeD)
  then obtain x where "x \<in> set vs" "t \<in> set (window_body sc g e x)" by auto
  with window_body_in_window visits_before [OF vs] show ?thesis by blast
qed

lemma expand_times_returns:
  assumes "interval_ok (frequency sc) (interval sc)" "sane st" "sane e" "\<forall>c. count_limit sc = Some c \<longrightarrow> 0 \<le> c"
  shows "\<exists>r. expand_times sc st g e = Some r"
proof -
  obtain vs where "visits (advance (frequency sc) (interval sc)) e st = Some vs"
    using advance_returns [OF assms(1-3)] by blast
  note for_loop_visits [OF this, of "window_body sc g e"]
  moreover have "\<exists>l'. limit_count (count_limit sc) l = Some l'" for l
    using assms(4) by (auto simp: limit_count_def split: option.split)
  ultimately show ?thesis by (auto simp: expand_times_def Option.bind_eq_Some_conv)
qed

text \<open>Without a \<open>by_\<close> list the times are the visits after the grace start, one interval apart.\<close>

definition plain_rule :: "schedule_config \<Rightarrow> bool" where
  "plain_rule sc \<longleftrightarrow> (frequency sc = ''weekly'' \<longrightarrow> by_day sc = []) \<and> (frequency sc = ''monthly'' \<longrightarrow> by_month_day sc = [])
     \<and> (frequency sc = ''yearly'' \<longrightarrow> by_month sc = [])"

lemma sorted_wrt_filter_take: "sorted_wrt R xs \<Longrightarrow> sorted_wrt R (filter p (take n xs))"
  by (intro sorted_wrt_filter sorted_wrt_take)

lemma expand_times_spaced:
  assumes e: "expand_times sc st g endt = Some (Inr ts)" and "plain_rule sc"
    and ok: "interval_ok (frequency sc) (interval sc)" "sane st" "sane endt"
  shows "sorted_wrt (\<lambda>a b. a + least_gap (frequency sc) \<le> b) ts"
proof -
  obtain vs n p where vs: "visits (advance (frequency sc) (interval sc)) endt st = Some vs"
    and ts: "ts = filter p (take n (concat (map (window_body sc g endt) vs)))"
    using e by (rule expand_timesE)
  have "concat (map (window_body sc g endt) vs) = filter (\<lambda>t. g < t) vs" for vs
    using assms(2) by (induction vs) (auto simp: plain_rule_def window_body_def after_grace_def)
  with ts show ?thesis
    by (simp add: sorted_wrt_filter_take sorted_wrt_filter advance_spaced [OF vs ok])
qed

section \<open>Weekdays\<close>

lemma weekday_add_days: "weekday 0 (t + k * day_ns) = (weekday 0 t + k) mod 7"
proof -
  have u: "unix (t + k * day_ns) = unix t + k * 86400"
    unfolding unix_def day_ns_def second_def using div_mult_self1 [of 1000000000 t "k * 86400"] by (simp add: mult.assoc)
  have d: "(unix t + k * 86400) div 86400 = unix t div 86400 + k" by simp
  have "weekday 0 (t + k * day_ns) = (unix t div 86400 + unix_epoch_day + 1 + k) mod 7"
    unfolding weekday_def local_secs_def u add_0_right d by (simp add: ac_simps)
  then show ?thesis by (simp add: weekday_def local_secs_def mod_add_left_eq)
qed

lemma weekday_range: "0 \<le> weekday off t" "weekday off t < 7"
  by (simp_all add: weekday_def)

lemma weekday_of_range: "0 \<le> weekday_of d" "weekday_of d < 7"
  by (simp_all add: weekday_of_def)

lemma weekly_day:
  assumes "sane t"
  shows "weekday 0 (weekly_day t d) = weekday_of d" "t \<le> weekly_day t d" "weekly_day t d < t + 7 * day_ns"
proof -
  define k where "k = (weekday_of d - weekday 0 t + 7) mod 7"
  have k: "0 \<le> k" "k < 7" by (simp_all add: k_def)
  have wd: "weekly_day t d = t + k * day_ns"
    unfolding weekly_day_def k_def [symmetric] using k by (intro add_days assms) simp
  have "(weekday 0 t + k) mod 7 = weekday_of d mod 7"
    unfolding k_def by (simp add: mod_add_right_eq)
  then show "weekday 0 (weekly_day t d) = weekday_of d"
    using weekday_of_range [of d] by (simp add: wd weekday_add_days)
  show "t \<le> weekly_day t d" "weekly_day t d < t + 7 * day_ns"
    using k by (simp_all add: wd day_ns_def)
qed

section \<open>What an expansion adds\<close>

definition new_payload :: "event \<Rightarrow> instant \<Rightarrow> instant \<Rightarrow> string \<Rightarrow> bool" where
  "new_payload ev now t v \<longleftrightarrow>
     (\<exists>oid. marshal_schedule (schedule_of (pending_occurrence oid (ev_id ev) t now) ev) = Inr v)"

text \<open>Every payload has its member in the sorted set. New entries only, each for one of the times, under its key, at its second, with its payload.\<close>

definition no_orphans :: "string \<Rightarrow> rdata \<Rightarrow> bool" where
  "no_orphans pre d \<longleftrightarrow> (\<forall>k. rd_hashes d (pre @ scheduleDataKey) k \<noteq> None \<longrightarrow> pending_entries pre d k \<noteq> None)"

definition adds_entries :: "string \<Rightarrow> event \<Rightarrow> instant \<Rightarrow> instant set \<Rightarrow> rdata \<Rightarrow> rdata \<Rightarrow> bool" where
  "adds_entries pre ev now T d d' \<longleftrightarrow>
     rdata_ok d' \<and> rd_lists d' = rd_lists d \<and> rd_strings d' = rd_strings d \<and> (no_orphans pre d \<longrightarrow> no_orphans pre d')
   \<and> (\<forall>k. pending_entries pre d' k \<noteq> pending_entries pre d k \<longrightarrow>
        pending_entries pre d k = None \<and> (\<exists>t \<in> T. k = schedule_key (ev_id ev) t
          \<and> (\<exists>v. new_payload ev now t v \<and> pending_entries pre d' k = Some (unix t, v))))"

lemma adds_refl [simp]: "rdata_ok d \<Longrightarrow> adds_entries pre ev now T d d"
  by (simp add: adds_entries_def)

lemma adds_mono: "adds_entries pre ev now T d d' \<Longrightarrow> T \<subseteq> U \<Longrightarrow> adds_entries pre ev now U d d'"
  unfolding adds_entries_def by (meson subsetD)

lemma adds_trans:
  assumes "adds_entries pre ev now T d d'" "adds_entries pre ev now T d' d''"
  shows "adds_entries pre ev now T d d''"
  using assms unfolding adds_entries_def by (metis option.distinct(1))

lemma adds_keeps: "adds_entries pre ev now T d d' \<Longrightarrow> pending_entries pre d k = Some x \<Longrightarrow> pending_entries pre d' k = Some x"
  unfolding adds_entries_def by (metis option.distinct(1))

lemma partial_pending:
  assumes "rdata_ok d" "\<not> scheduled_key pre oc ev d"
  shows "pending_entries pre (partial_entry pre oc ev d) = pending_entries pre d" "rdata_ok (partial_entry pre oc ev d)"
proof -
  have "zset_ok (rd_zsets d (pre @ ScheduleKey))" using assms(1) by (simp add: rdata_ok_def)
  with assms(2) show "pending_entries pre (partial_entry pre oc ev d) = pending_entries pre d"
    by (auto simp: pending_entries_def partial_entry_def scheduled_key_def score_of_zadd fun_eq_iff split: option.split)
  show "rdata_ok (partial_entry pre oc ev d)"
    using assms(1) by (auto simp: partial_entry_def intro!: codec_intros)
qed

lemma schedule_result_adds:
  assumes "rdata_ok d" "schedule_result pre (pending_occurrence oid (ev_id ev) t now) ev d d'"
  shows "adds_entries pre ev now {t} d d'"
proof -
  let ?oc = "pending_occurrence oid (ev_id ev) t now"
  have t: "oc_scheduled_at ?oc = t" by (simp add: pending_occurrence_def)
  consider "d' = d" | "\<not> scheduled_key pre ?oc ev d" "d' = partial_entry pre ?oc ev d"
    | data where "\<not> scheduled_key pre ?oc ev d" "marshal_schedule (schedule_of ?oc ev) = Inr data"
        "d' = schedule_entry pre ?oc ev data d"
    using assms(2) by (auto simp: schedule_result_def)
  then show ?thesis
  proof cases
    case 1
    with assms(1) show ?thesis by simp
  next
    case 2
    with partial_pending [OF assms(1) 2(1)] show ?thesis
      by (simp add: adds_entries_def no_orphans_def) (simp add: partial_entry_def)
  next
    case 3
    from 3(1) have none: "pending_entries pre d (schedule_key (ev_id ev) t) = None"
      by (simp add: scheduled_key_def pending_entries_def t)
    from 3(2) have "new_payload ev now t data" by (auto simp: new_payload_def)
    moreover have "rdata_ok d'" using redis_store.insert_inv [OF assms(1)] by (simp add: 3(3) schedule_entry_def)
    ultimately show ?thesis
      using none redis_store.insert_pending [OF assms(1)]
      by (auto simp: adds_entries_def no_orphans_def 3(3) schedule_entry_def t) (auto simp: add_entry_def)
  qed
qed

lemma schedule_time_wp:
  assumes ok: "svc_ok S P V" and d: "rdata_ok (rv V w)"
  shows "wp (schedule_time S pre now ev t) (\<lambda>_ w'. dv V w' = dv V w \<and> ov V w' = ov V w
     \<and> adds_entries pre ev now {t} (rv V w) (rv V w')) w"
  unfolding schedule_time_def wp_bind
proof (rule wp_mono [OF ExistsAtTime_wp [OF ok]], goal_cases)
  case (1 r w1)
  then have v: "dv V w1 = dv V w" "rv V w1 = rv V w" "ov V w1 = ov V w" by simp_all
  have "wp (scheduleWithRetry S pre (pending_occurrence oid (ev_id ev) t now) ev)
      (\<lambda>_ w'. dv V w' = dv V w \<and> ov V w' = ov V w \<and> adds_entries pre ev now {t} (rv V w) (rv V w')) w2"
    if "rv V w2 = rv V w" "dv V w2 = dv V w" "ov V w2 = ov V w" for oid w2
    unfolding scheduleWithRetry_def using schedule_attempts_wp [OF ok]
    by (rule wp_mono) (use that schedule_result_adds [OF d] in auto)
  with v d show ?case by (auto split: sum.split intro!: wp_uuid [OF ok])
qed

lemma schedule_times_wp:
  assumes ok: "svc_ok S P V" and d: "rdata_ok (rv V w)"
  shows "wp (for_each (schedule_time S pre now ev) ts) (\<lambda>_ w'. dv V w' = dv V w \<and> ov V w' = ov V w
     \<and> adds_entries pre ev now (set ts) (rv V w) (rv V w')) w"
proof (rule wp_for_each)
  fix t w1
  assume t: "t \<in> set ts" and I: "dv V w1 = dv V w \<and> ov V w1 = ov V w \<and> adds_entries pre ev now (set ts) (rv V w) (rv V w1)"
  then have "rdata_ok (rv V w1)" by (simp add: adds_entries_def)
  from schedule_time_wp [OF ok this]
  show "wp (schedule_time S pre now ev t) (\<lambda>_ w'. dv V w' = dv V w \<and> ov V w' = ov V w
      \<and> adds_entries pre ev now (set ts) (rv V w) (rv V w')) w1"
    by (rule wp_mono) (use I t in \<open>auto intro: adds_trans elim: adds_mono\<close>)
qed (use d in simp)

lemma expandRecurring_wp:
  assumes ok: "svc_ok S P V" and d: "rdata_ok (rv V w)" and now: "now = result_of (time_now S) w"
  shows "wp (expandRecurringEvent S X sc ev) (\<lambda>r w'. dv V w' = dv V w \<and> ov V w' = ov V w
     \<and> (case expand_times sc (ev_start_time ev) (add_dur now (- gracePeriod X)) (add_dur now (lookAheadDuration X)) of
          None \<Rightarrow> r = None \<and> rv V w' = rv V w
        | Some (Inl e) \<Rightarrow> r = Some (Inl e) \<and> rv V w' = rv V w
        | Some (Inr ts) \<Rightarrow> r = Some (Inr ()) \<and> adds_entries (ex_prefix X) ev now (set ts) (rv V w) (rv V w'))) w"
  unfolding expandRecurringEvent_def wp_bind
proof (rule wp_time_now [OF ok], goal_cases)
  case (1 w1)
  have "wp (for_each (schedule_time S (ex_prefix X) now ev) ts) (\<lambda>_ w'. dv V w' = dv V w \<and> ov V w' = ov V w
      \<and> adds_entries (ex_prefix X) ev now (set ts) (rv V w) (rv V w')) w1" for ts
    using schedule_times_wp [OF ok, of w1 "ex_prefix X" now ev ts] d 1 by simp
  then show ?case
    unfolding now [symmetric] using 1
    by (auto simp: expand_recurring_at_def run_option_def split: option.split sum.split elim!: wp_mono)
qed

lemma expandNonRecurring_wp:
  assumes ok: "svc_ok S P V" and d: "rdata_ok (rv V w)" and now: "now = result_of (time_now S) w"
  shows "wp (expandNonRecurringEvent S X ev) (\<lambda>r w'. r = Inr () \<and> dv V w' = dv V w \<and> ov V w' = ov V w
     \<and> (if add_dur now (- gracePeriod X) \<le> ev_start_time ev \<and> ev_start_time ev \<le> add_dur now (lookAheadDuration X)
          then adds_entries (ex_prefix X) ev now {ev_start_time ev} (rv V w) (rv V w')
          else rv V w' = rv V w)) w"
  unfolding expandNonRecurringEvent_def wp_bind
proof (rule wp_time_now [OF ok], goal_cases)
  case (1 w1)
  let ?t = "ev_start_time ev"
  have sched: "wp (scheduleWithRetry S (ex_prefix X) (pending_occurrence oid (ev_id ev) ?t now) ev)
      (\<lambda>_ w'. dv V w' = dv V w \<and> ov V w' = ov V w \<and> adds_entries (ex_prefix X) ev now {?t} (rv V w) (rv V w')) w2"
    if "rv V w2 = rv V w" "dv V w2 = dv V w" "ov V w2 = ov V w" for oid w2
    unfolding scheduleWithRetry_def using schedule_attempts_wp [OF ok]
    by (rule wp_mono) (use that schedule_result_adds [OF d] in auto)
  show ?case
    unfolding now [symmetric] using 1
    by (auto simp: expand_non_recurring_at_def Let_def intro!: wp_uuid [OF ok] wp_mono [OF sched])
qed

section \<open>Nothing in the window is missed\<close>

definition sql_answers :: "'w svc \<Rightarrow> stmt \<Rightarrow> bool" where
  "sql_answers S st \<longleftrightarrow> (\<forall>w. is_ok (result_of (sql_do S st) w))"

lemma wp_sql_answers:
  assumes "sql_answers S st" "wp (sql S st) (\<lambda>r w'. is_ok r \<longrightarrow> Q r w') w"
  shows "wp (sql S st) Q w"
proof -
  obtain r w' where r: "run_state (sql_do S st) w = (r, w')" by fastforce
  from assms(1) have "is_ok (result_of (sql_do S st) w)" by (simp add: sql_answers_def)
  with r have "is_ok r" by (simp add: result_of_def)
  then obtain x where x: "r = Inr x" by (rule is_okE)
  with r assms(2) show ?thesis by (simp add: wp_def sql_def State_Monad.bind_def)
qed

text \<open>Marshalling an entry fails only on a year that RFC 3339 does not write.\<close>

definition year_ok :: "instant \<Rightarrow> bool" where
  "year_ok t \<longleftrightarrow> 0 \<le> year_of 0 t \<and> year_of 0 t \<le> 9999"

lemma year_ok_zero_time: "year_ok zero_time"
  by (simp add: year_ok_def year_of_def zero_time_def date_of_def local_secs_def unix_def second_def
      unix_epoch_day_def civil_def year_yday_def year_start_def month_of_def month_off_def leap_def day_number_def
      Let_def split: prod.split)

lemma marshal_new_entry:
  "year_ok t \<Longrightarrow> year_ok now \<Longrightarrow> is_ok (marshal_schedule (schedule_of (pending_occurrence oid i t now) ev))"
  using year_ok_zero_time
  by (simp add: marshal_schedule_def enc_schedule_def marshal_time_def year_ok_def schedule_of_def
      pending_occurrence_def occurrence.defs schedule.defs is_ok_def)

lemma ScheduleEvent_reliable:
  assumes ok: "svc_ok S P V" and rel: "reliable S" and m: "is_ok (marshal_schedule (schedule_of oc ev))"
  shows "wp (ScheduleEvent S pre oc ev) (\<lambda>r w'. r = Inr ()) w"
proof -
  from m obtain data where "marshal_schedule (schedule_of oc ev) = Inr data" by (rule is_okE)
  then show ?thesis
    unfolding ScheduleEvent_def Let_def wp_attempt
    by (intro wp_redis_reliable [OF ok rel]) (auto intro!: wp_redis_reliable [OF ok rel])
qed

definition occurrence_at :: "pg \<Rightarrow> dbdata \<Rightarrow> uuid \<Rightarrow> instant \<Rightarrow> bool" where
  "occurrence_at P db i t \<longleftrightarrow> (\<exists>oc \<in> set (db_occs db). oc_event_id oc = i \<and> oc_scheduled_at oc = pg_time P t)"

lemma scheduled_pending:
  "no_orphans pre d \<Longrightarrow> scheduled_key pre (pending_occurrence oid (ev_id ev) t now) ev d
     \<Longrightarrow> pending_entries pre d (schedule_key (ev_id ev) t) \<noteq> None"
  by (simp add: no_orphans_def scheduled_key_def pending_occurrence_def)

lemma scheduleWithRetry_reliable:
  assumes ok: "svc_ok S P V" and rel: "reliable S" and y: "year_ok t" "year_ok now"
    and d: "rdata_ok (rv V w)" "no_orphans pre (rv V w)"
  shows "wp (scheduleWithRetry S pre (pending_occurrence oid (ev_id ev) t now) ev)
      (\<lambda>_ w'. pending_entries pre (rv V w') (schedule_key (ev_id ev) t) \<noteq> None) w"
proof -
  let ?oc = "pending_occurrence oid (ev_id ev) t now"
  have "wp (ScheduleEvent S pre ?oc ev) (\<lambda>r w'. r = Inr () \<and> scheduled_key pre ?oc ev (rv V w')
      \<and> schedule_result pre ?oc ev (rv V w) (rv V w')) w"
    using wp_conj [OF ScheduleEvent_reliable [OF ok rel marshal_new_entry [OF y], of pre oid "ev_id ev" ev w]
        ScheduleEvent_result_wp [OF ok, of pre ?oc ev w]]
    by (rule wp_mono) auto
  then show ?thesis
    unfolding scheduleWithRetry_def maxRetries_def numeral_3_eq_3 schedule_attempts.simps wp_bind
  proof (rule wp_mono, goal_cases)
    case (1 r w3)
    then have "adds_entries pre ev now {t} (rv V w) (rv V w3)" using schedule_result_adds [OF d(1)] by blast
    with d(2) have "no_orphans pre (rv V w3)" by (simp add: adds_entries_def)
    with 1 scheduled_pending [of pre "rv V w3" oid ev t now] show ?case by simp
  qed
qed

lemma schedule_time_reliable:
  assumes ok: "svc_ok S P V" and rel: "reliable S" "sql_answers S (ExistsOccurrence (ev_id ev) t)"
    and y: "year_ok t" "year_ok now" and d: "rdata_ok (rv V w)" "no_orphans pre (rv V w)"
  shows "wp (schedule_time S pre now ev t) (\<lambda>_ w'. occurrence_at P (dv V w) (ev_id ev) t
     \<or> pending_entries pre (rv V w') (schedule_key (ev_id ev) t) \<noteq> None) w"
proof -
  note sched = scheduleWithRetry_reliable [OF ok rel(1) y]
  show ?thesis
    unfolding schedule_time_def wp_bind ExistsAtTime_def wp_attempt
    by (rule wp_sql_answers [OF rel(2)], rule wp_sql_read [OF ok])
       (use d in \<open>auto simp: sql_effect_def list_ex_iff occurrence_at_def intro!: wp_uuid [OF ok] wp_mono [OF sched]\<close>)
qed

lemma schedule_times_reliable:
  assumes ok: "svc_ok S P V" and rel: "reliable S" "\<And>t. sql_answers S (ExistsOccurrence (ev_id ev) t)"
    and y: "\<And>t. t \<in> set ts \<Longrightarrow> year_ok t" "year_ok now" and d: "rdata_ok (rv V w)" "no_orphans pre (rv V w)"
  shows "wp (for_each (schedule_time S pre now ev) ts) (\<lambda>_ w'. \<forall>t \<in> set ts. occurrence_at P (dv V w) (ev_id ev) t
     \<or> pending_entries pre (rv V w') (schedule_key (ev_id ev) t) \<noteq> None) w"
  using y(1) d
proof (induction ts arbitrary: w)
  case (Cons t ts)
  from Cons.prems have yt: "year_ok t" by simp
  show ?case
    unfolding for_each.simps wp_bind
  proof (rule wp_mono [OF wp_conj [OF schedule_time_reliable [OF ok rel yt y(2) Cons.prems(2,3)]
          schedule_time_wp [OF ok Cons.prems(2), of pre now ev t]]], goal_cases)
    case (1 r w1)
    then have w1: "rdata_ok (rv V w1)" "no_orphans pre (rv V w1)" "dv V w1 = dv V w"
      using Cons.prems(3) by (simp_all add: adds_entries_def)
    from 1 have first: "occurrence_at P (dv V w) (ev_id ev) t \<or> pending_entries pre (rv V w1) (schedule_key (ev_id ev) t) \<noteq> None"
      by simp
    have "wp (for_each (schedule_time S pre now ev) ts) (\<lambda>_ w'. (\<forall>t \<in> set ts. occurrence_at P (dv V w1) (ev_id ev) t
        \<or> pending_entries pre (rv V w') (schedule_key (ev_id ev) t) \<noteq> None)
        \<and> adds_entries pre ev now (set ts) (rv V w1) (rv V w')) w1"
      using wp_conj [OF Cons.IH [OF _ w1(1,2)] schedule_times_wp [OF ok w1(1), of pre now ev ts]] Cons.prems(1)
      by (auto elim: wp_mono)
    then show ?case
    proof (rule wp_mono, goal_cases)
      case (1 r' w2)
      then have "pending_entries pre (rv V w1) k \<noteq> None \<Longrightarrow> pending_entries pre (rv V w2) k \<noteq> None" for k
        using adds_keeps by (metis not_None_eq)
      with 1 \<open>dv V w1 = dv V w\<close> first show ?case by auto
    qed
  qed
qed simp

end
