(* ===== verification/Expansion.thy ===== *)
theory Expansion
  imports Expander
begin

text \<open>
  What the expander promises: it returns, it adds entries only for times of its window, within the rule's
  count and end, it misses no time of a simple rule, and it keeps to the named weekdays.
\<close>

section \<open>Years within a window\<close>

lemma year_of_start: "year_ok t \<longleftrightarrow> year_start 0 \<le> local_secs 0 t div 86400 + unix_epoch_day
    \<and> local_secs 0 t div 86400 + unix_epoch_day < year_start 10000"
proof -
  define n where "n = local_secs 0 t div 86400 + unix_epoch_day"
  obtain y yd where yd: "year_yday n = (y, yd)" by fastforce
  then have y: "year_of 0 t = y"
    by (simp add: year_of_def date_of_def civil_def n_def Let_def)
  note b = year_yday [OF yd]
  have "0 \<le> y \<longleftrightarrow> year_start 0 \<le> n"
    using b year_start_mono [of 0 y] year_start_mono [of "y + 1" 0] year_start_Suc [of y] by (cases "0 \<le> y") (auto split: if_splits)
  moreover have "y \<le> 9999 \<longleftrightarrow> n < year_start 10000"
    using b year_start_mono [of "y + 1" 10000] year_start_mono [of 10000 y] year_start_Suc [of y] by (cases "y \<le> 9999") (auto split: if_splits)
  ultimately show ?thesis by (simp add: year_ok_def y n_def)
qed

lemma year_ok_between: "year_ok a \<Longrightarrow> year_ok b \<Longrightarrow> a \<le> t \<Longrightarrow> t \<le> b \<Longrightarrow> year_ok t"
  using zdiv_mono1 [of "unix a" "unix t" 86400] zdiv_mono1 [of "unix t" "unix b" 86400]
    zdiv_mono1 [of a t second] zdiv_mono1 [of t b second]
  by (simp add: year_of_start local_secs_def unix_def second_def)
section \<open>What an expansion adds\<close>

definition window_opens :: "expander \<Rightarrow> instant \<Rightarrow> instant" where
  "window_opens X now = add_dur now (- gracePeriod X)"

definition window_closes :: "expander \<Rightarrow> instant \<Rightarrow> instant" where
  "window_closes X now = add_dur now (lookAheadDuration X)"

definition before_until :: "schedule_config \<Rightarrow> instant \<Rightarrow> bool" where
  "before_until sc t \<longleftrightarrow> (\<forall>u ut. until_text sc = Some u \<longrightarrow> parse_rfc3339 u = Some ut \<longrightarrow> t < ut)"

lemma adds_entries_card:
  assumes "adds_entries pre ev now (set ts) d d'"
  shows "card {k. pending_entries pre d' k \<noteq> pending_entries pre d k} \<le> length ts"
proof -
  have "{k. pending_entries pre d' k \<noteq> pending_entries pre d k} \<subseteq> schedule_key (ev_id ev) ` set ts"
    using assms by (auto simp: adds_entries_def)
  then have "card {k. pending_entries pre d' k \<noteq> pending_entries pre d k} \<le> card (schedule_key (ev_id ev) ` set ts)"
    by (simp add: card_mono)
  also have "\<dots> \<le> length ts" using card_image_le [of "set ts"] card_length [of ts] by (meson List.finite_set le_trans)
  finally show ?thesis .
qed

text \<open>C7. The expansion of a recurring event touches neither the tables nor the queues. Every schedule entry it changes
  is new, carries the payload of the event, and is for a time strictly inside the window around the clock's
  reading and before the rule's end; a rule with a count adds at most that many entries.\<close>

theorem recurring_expansion_fills_window:
  assumes "svc_ok S P V" "rdata_ok (rv V w)"
  shows "let now = result_of (time_now S) w; w' = after (expandRecurringEvent S X sc ev) w;
             old = pending_entries (ex_prefix X) (rv V w); new = pending_entries (ex_prefix X) (rv V w')
    in dv V w' = dv V w \<and> rd_lists (rv V w') = rd_lists (rv V w)
     \<and> (\<forall>c. count_limit sc = Some c \<longrightarrow> card {k. new k \<noteq> old k} \<le> nat c)
     \<and> (\<forall>k. new k \<noteq> old k \<longrightarrow> old k = None \<and> (\<exists>t v. window_opens X now < t \<and> t < window_closes X now \<and> before_until sc t
          \<and> k = schedule_key (ev_id ev) t \<and> new_payload ev now t v \<and> new k = Some (unix t, v)))"
proof -
  define now w' where "now = result_of (time_now S) w" and "w' = after (expandRecurringEvent S X sc ev) w"
  note post = wp_result [OF expandRecurring_wp [OF assms now_def], of X sc ev, folded w'_def]
  consider (same) "rv V w' = rv V w" | (times) ts where
      "expand_times sc (ev_start_time ev) (window_opens X now) (window_closes X now) = Some (Inr ts)"
      "adds_entries (ex_prefix X) ev now (set ts) (rv V w) (rv V w')"
    using post by (auto simp: window_opens_def window_closes_def split: option.splits sum.splits)
  then show ?thesis
  proof cases
    case same
    with post show ?thesis by (simp add: Let_def flip: w'_def)
  next
    case times
    obtain vs :: "instant list" and n p where "\<forall>k. count_limit sc = Some k \<longrightarrow> int (length ts) \<le> k"
      and until: "\<forall>s ut. until_text sc = Some s \<longrightarrow> parse_rfc3339 s = Some ut \<longrightarrow> (\<forall>t \<in> set ts. t < ut)"
      using times(1) by (rule expand_timesE)
    with adds_entries_card [OF times(2)] have count: "\<forall>c. count_limit sc = Some c \<longrightarrow>
        card {k. pending_entries (ex_prefix X) (rv V w') k \<noteq> pending_entries (ex_prefix X) (rv V w) k} \<le> nat c"
      by fastforce
    have "window_opens X now < t \<and> t < window_closes X now \<and> before_until sc t" if "t \<in> set ts" for t
      using expand_times_window [OF times(1) that] until that by (auto simp: before_until_def)
    with times(2) post count show ?thesis
      unfolding Let_def now_def [symmetric] w'_def [symmetric] by (simp add: adds_entries_def) blast
  qed
qed

definition demo_rule_config :: schedule_config where
  "demo_rule_config = \<lparr>frequency = ''hourly'', interval = 1, by_day = [], by_month = [], by_month_day = [],
     count_limit = Some 3, until_text = None\<rparr>"

definition demo_expander :: expander where
  "demo_expander = \<lparr>ex_prefix = [], lookAheadDuration = 24 * hour, gracePeriod = 5 * minute\<rparr>"

theorem recurring_expansion_fills_window_witness:
  "let w' = after (expandRecurringEvent mem_svc demo_expander demo_rule_config demo_event) demo_mem
   in m_db w' = m_db demo_mem \<and> card {k. pending_entries [] (m_redis w') k \<noteq> pending_entries [] no_rdata k} \<le> 3"
  using recurring_expansion_fills_window [OF mem_svc_ok demo_mem_ok(1) [folded mem_views_simps(1)], of demo_expander demo_rule_config demo_event]
  by (simp add: Let_def demo_rule_config_def demo_expander_def) (simp add: demo_mem_def)
section \<open>Nothing in the window is missed\<close>

text \<open>The times of a simple rule: every iterate of the advance inside the window.\<close>

lemma simple_rule_times:
  assumes "interval_ok (frequency sc) (interval sc)" "plain_rule sc" "count_limit sc = None" "until_text sc = None"
    "sane st" "sane e"
  obtains vs where "visits (advance (frequency sc) (interval sc)) e st = Some vs"
    "expand_times sc st g e = Some (Inr (filter (\<lambda>t. g < t) vs))"
proof -
  obtain vs where vs: "visits (advance (frequency sc) (interval sc)) e st = Some vs"
    using advance_returns [OF assms(1,5,6)] by blast
  have body: "concat (map (window_body sc g e) us) = filter (\<lambda>t. g < t) us" for us
    using assms(2) by (induction us) (auto simp: plain_rule_def window_body_def after_grace_def)
  from for_loop_visits [OF vs, of "window_body sc g e"] body [of vs]
  have "expand_times sc st g e = Some (Inr (filter (\<lambda>t. g < t) vs))"
    using interval_ok_frequency [OF assms(1)] assms(3,4)
    by (simp add: expand_times_def limit_count_def limit_until_def)
  with vs show ?thesis by (rule that)
qed

text \<open>C6. Nothing is missed: with a Redis that answers and no orphaned payloads, after the expansion of an event
  with a simple rule every repetition of its start time inside the window either has its occurrence in the
  database already or is a pending entry of the schedule.\<close>

theorem recurring_expansion_misses_nothing:
  assumes "svc_ok S P V" "reliable S" "\<And>t. sql_answers S (ExistsOccurrence (ev_id ev) t)"
    "rdata_ok (rv V w)" "no_orphans (ex_prefix X) (rv V w)"
    "interval_ok (frequency sc) (interval sc)" "plain_rule sc" "count_limit sc = None" "until_text sc = None"
    "now = result_of (time_now S) w" "sane (ev_start_time ev)" "sane (window_closes X now)"
    "year_ok (window_opens X now)" "year_ok now" "year_ok (window_closes X now)"
    "t = (advance (frequency sc) (interval sc) ^^ n) (ev_start_time ev)" "window_opens X now < t"
    "\<And>m. m \<le> n \<Longrightarrow> (advance (frequency sc) (interval sc) ^^ m) (ev_start_time ev) < window_closes X now"
  shows "let w' = after (expandRecurringEvent S X sc ev) w in
     occurrence_at P (dv V w) (ev_id ev) t \<or> pending_entries (ex_prefix X) (rv V w') (schedule_key (ev_id ev) t) \<noteq> None"
proof -
  obtain vs where vs: "visits (advance (frequency sc) (interval sc)) (window_closes X now) (ev_start_time ev) = Some vs"
    and ts: "expand_times sc (ev_start_time ev) (window_opens X now) (window_closes X now)
      = Some (Inr (filter (\<lambda>t. window_opens X now < t) vs))"
    by (rule simple_rule_times [OF assms(6-9,11,12)])
  define l where "l = filter (\<lambda>t. window_opens X now < t) vs"
  have "t \<in> set l"
    using frequency.visits_iterates [OF vs assms(18)] assms(16,17) by (simp add: l_def)
  have y: "year_ok u" if "u \<in> set l" for u
    using that visits_before [OF vs] by (intro year_ok_between [OF assms(13,15)]) (auto simp: l_def less_imp_le)
  have "wp (expandRecurringEvent S X sc ev) (\<lambda>_ w'. \<forall>t \<in> set l. occurrence_at P (dv V w) (ev_id ev) t
      \<or> pending_entries (ex_prefix X) (rv V w') (schedule_key (ev_id ev) t) \<noteq> None) w"
    unfolding expandRecurringEvent_def wp_bind
  proof (rule wp_time_now [OF assms(1)], goal_cases)
    case (1 w1)
    with schedule_times_reliable [OF assms(1-3) y assms(14), of l w1 "ex_prefix X"] assms(4,5)
    show ?case
      unfolding assms(10) [symmetric]
      by (auto simp: expand_recurring_at_def run_option_def ts [unfolded window_opens_def window_closes_def]
          l_def window_opens_def elim!: wp_mono)
  qed
  from wp_result [OF this] \<open>t \<in> set l\<close> show ?thesis by (simp add: Let_def)
qed
definition simple_rule_config :: schedule_config where
  "simple_rule_config = demo_rule_config\<lparr>count_limit := None\<rparr>"

lemma demo_window:
  "window_opens demo_expander (120 * second) = - 180 * second" "window_closes demo_expander (120 * second) = 86520 * second"
  by (simp_all add: window_opens_def window_closes_def demo_expander_def add_dur_def hour_def minute_def second_def)

lemma demo_times: "(advance ''hourly'' 1 ^^ 0) (60 * second) = 60 * second" "(advance ''hourly'' 1 ^^ 1) (60 * second) = 3660 * second"
  by (simp_all add: advance_def frequency_defs dur_mul_def wrap64_id is_int64_def hour_def add_dur_def second_def)

lemma demo_fields:
  "ev_start_time demo_event = 60 * second" "ev_id demo_event = mem_uuid 0" "ex_prefix demo_expander = []"
  "frequency simple_rule_config = ''hourly''" "interval simple_rule_config = 1" "count_limit simple_rule_config = None"
  "until_text simple_rule_config = None"
  by (simp_all add: demo_event_def demo_expander_def simple_rule_config_def demo_rule_config_def)

lemma demo_years: "year_ok (- 180 * second)" "year_ok (120 * second)" "year_ok (86520 * second)"
proof -
  have "list_all year_ok [- 180 * second, 120 * second, 86520 * second]" by code_simp
  then show "year_ok (- 180 * second)" "year_ok (120 * second)" "year_ok (86520 * second)" by simp_all
qed

lemma mem_sql_answers: "sql_answers mem_svc (ExistsOccurrence i t)"
  by (simp add: sql_answers_def mem_svc_def result_of_def)

theorem recurring_expansion_misses_nothing_witness:
  "pending_entries [] (m_redis (after (expandRecurringEvent mem_svc demo_expander simple_rule_config demo_event) demo_mem))
     (schedule_key (mem_uuid 0) (3660 * second)) \<noteq> None"
proof -
  have now: "result_of (time_now mem_svc) demo_mem = 120 * second"
    by (simp add: mem_svc_def result_of_def demo_mem_def)
  have "interval_ok (frequency simple_rule_config) (interval simple_rule_config)" "plain_rule simple_rule_config"
    by (simp_all add: simple_rule_config_def demo_rule_config_def interval_ok_def interval_limit_def frequency_defs plain_rule_def)
  note rule = this
  have occ: "\<not> occurrence_at mem_pg (m_db demo_mem) i t" for i t
    by (simp add: occurrence_at_def demo_mem_def no_dbdata_def)
  have sane: "sane (60 * second)" "sane (86520 * second)" "- 180 * second < 3660 * second"
    by (simp_all add: sane_def unix_def second_def)
  have start: "m \<le> 1 \<Longrightarrow> (advance ''hourly'' 1 ^^ m) (60 * second) < 86520 * second" for m :: nat
    using demo_times by (auto simp: le_Suc_eq second_def)
  have orphans: "no_orphans [] (m_redis demo_mem)" by (simp add: no_orphans_def demo_mem_def no_rdata_def)
  show ?thesis
    using recurring_expansion_misses_nothing [OF mem_svc_ok mem_reliable mem_sql_answers _ _ rule, of demo_mem demo_expander
        "120 * second" demo_event "3660 * second" 1] demo_times(2) demo_years sane start occ orphans
    by (simp add: now demo_window demo_fields del: not_None_eq One_nat_def)
qed
section \<open>The times of a rule\<close>

lemma visits_are_iterates: "visits adv e t = Some ts \<Longrightarrow> x \<in> set ts \<Longrightarrow> \<exists>n. x = (adv ^^ n) t \<and> (\<forall>m \<le> n. (adv ^^ m) t < e)"
proof (induction ts arbitrary: t)
  case (Cons u us)
  from Cons.prems(1) have u: "u = t" "t < e" "visits adv e (adv t) = Some us" by (auto elim: visits_Some_cases)
  show ?case
  proof (cases "x = u")
    case False
    with Cons.prems(2) Cons.IH [OF u(3)] obtain n where n: "x = (adv ^^ n) (adv t)" "\<forall>m \<le> n. (adv ^^ m) (adv t) < e" by auto
    have "(adv ^^ m) t < e" if "m \<le> Suc n" for m
      using that n(2) u(2) by (cases m) (auto simp: funpow_swap1)
    with n(1) show ?thesis by (intro exI [of _ "Suc n"]) (simp add: funpow_swap1)
  qed (use u in \<open>auto intro: exI [of _ 0]\<close>)
qed simp

definition until_readable :: "schedule_config \<Rightarrow> bool" where
  "until_readable sc \<longleftrightarrow> (\<forall>u. until_text sc = Some u \<longrightarrow> parse_rfc3339 u \<noteq> None)"

lemma limit_until_readable:
  "until_readable sc \<Longrightarrow> limit_until (until_text sc) ts = Inr (filter (before_until sc) ts)"
  by (auto simp: until_readable_def limit_until_def before_until_def split: option.split intro!: filter_cong)

text \<open>C26. The times of a rule without \<open>by_\<close> lists and count: the loop returns, its list holds exactly the repetitions of
  the start time inside the window and before the rule's end, in order, and two of them are at least the
  frequency's least gap apart.\<close>

theorem simple_rule_expansion:
  assumes "interval_ok (frequency sc) (interval sc)" "plain_rule sc" "count_limit sc = None" "until_readable sc"
    "sane st" "sane e"
  shows "\<exists>ts. expand_times sc st g e = Some (Inr ts)
     \<and> (\<forall>t. t \<in> set ts \<longleftrightarrow> g < t \<and> before_until sc t
          \<and> (\<exists>n. t = (advance (frequency sc) (interval sc) ^^ n) st \<and> (\<forall>m \<le> n. (advance (frequency sc) (interval sc) ^^ m) st < e)))
     \<and> sorted_wrt (\<lambda>a b. a + least_gap (frequency sc) \<le> b) ts"
proof -
  let ?adv = "advance (frequency sc) (interval sc)"
  obtain vs where vs: "visits ?adv e st = Some vs" using advance_returns [OF assms(1,5,6)] by blast
  define ts where "ts = filter (before_until sc) (filter (\<lambda>t. g < t) vs)"
  have "concat (map (window_body sc g e) us) = filter (\<lambda>t. g < t) us" for us
    using assms(2) by (induction us) (auto simp: plain_rule_def window_body_def after_grace_def)
  with for_loop_visits [OF vs, of "window_body sc g e"]
  have e: "expand_times sc st g e = Some (Inr ts)"
    using interval_ok_frequency [OF assms(1)] assms(3) limit_until_readable [OF assms(4)]
    by (simp add: expand_times_def limit_count_def ts_def)
  moreover have "x \<in> set vs \<longleftrightarrow> (\<exists>n. x = (?adv ^^ n) st \<and> (\<forall>m \<le> n. (?adv ^^ m) st < e))" for x
    using visits_are_iterates [OF vs] frequency.visits_iterates [OF vs] by blast
  ultimately show ?thesis
    using expand_times_spaced [OF e assms(2,1,5,6)] by (auto simp: ts_def)
qed

theorem simple_rule_expansion_witness:
  "\<exists>ts. expand_times simple_rule_config (60 * second) 0 (7260 * second) = Some (Inr ts) \<and> 3660 * second \<in> set ts"
proof -
  have r: "interval_ok (frequency simple_rule_config) (interval simple_rule_config)" "plain_rule simple_rule_config"
    "count_limit simple_rule_config = None" "until_readable simple_rule_config"
    by (simp_all add: demo_fields interval_ok_def interval_limit_def frequency_defs plain_rule_def until_readable_def)
  have s: "sane (60 * second)" "sane (7260 * second)" by (simp_all add: sane_def unix_def second_def)
  obtain ts where "expand_times simple_rule_config (60 * second) 0 (7260 * second) = Some (Inr ts)"
    "\<And>t. t \<in> set ts \<longleftrightarrow> 0 < t \<and> before_until simple_rule_config t \<and> (\<exists>n. t = (advance ''hourly'' 1 ^^ n) (60 * second)
       \<and> (\<forall>m \<le> n. (advance ''hourly'' 1 ^^ m) (60 * second) < 7260 * second))"
    using simple_rule_expansion [OF r s, of 0] by (auto simp: demo_fields)
  then show ?thesis
    using demo_times by (auto simp: before_until_def demo_fields second_def le_Suc_eq intro!: exI [of _ 1])
qed
section \<open>Termination\<close>

text \<open>C27. The expansion of a recurring event returns: whatever the services do, when the rule's interval is within the
  limit of its frequency, its count is not negative, and the start and the end of the window are in range, also with
  \<open>by_day\<close>, \<open>by_month_day\<close> and \<open>by_month\<close> lists.\<close>

theorem recurring_expansion_returns:
  assumes "interval_ok (frequency sc) (interval sc)" "\<forall>c. count_limit sc = Some c \<longrightarrow> 0 \<le> c"
    "sane (ev_start_time ev)" "sane (window_closes X (result_of (time_now S) w))"
  shows "result_of (expandRecurringEvent S X sc ev) w \<noteq> None"
proof -
  obtain r where "expand_times sc (ev_start_time ev) (window_opens X (result_of (time_now S) w))
      (window_closes X (result_of (time_now S) w)) = Some r"
    using expand_times_returns [OF assms(1,3,4,2)] by blast
  then show ?thesis
    by (auto simp: expandRecurringEvent_def expand_recurring_at_def run_option_def result_of_def window_opens_def
        window_closes_def State_Monad.bind_def split: prod.split sum.split)
qed

theorem recurring_expansion_returns_witness:
  "result_of (expandRecurringEvent mem_svc demo_expander demo_rule_config demo_event) demo_mem \<noteq> None"
proof -
  have "result_of (time_now mem_svc) demo_mem = 120 * second"
    by (simp add: mem_svc_def result_of_def demo_mem_def)
  moreover have "sane (60 * second)" "sane (86520 * second)" by (simp_all add: sane_def unix_def second_def)
  moreover have "interval_ok (frequency demo_rule_config) (interval demo_rule_config)" "\<forall>c. count_limit demo_rule_config = Some c \<longrightarrow> 0 \<le> c"
    by (simp_all add: demo_rule_config_def interval_ok_def interval_limit_def frequency_defs)
  ultimately show ?thesis by (intro recurring_expansion_returns) (simp_all add: demo_window demo_fields)
qed

section \<open>Weekly rules with named days\<close>

lemma weekly_visits:
  assumes "visits (advance FrequencyWeekly i) e st = Some vs" "interval_ok FrequencyWeekly i" "sane st" "sane e" "x \<in> set vs"
  shows "sane x \<and> (\<exists>k. x = st + k * (7 * day_ns))"
  using assms(1,3,5)
proof (induction vs arbitrary: st)
  case (Cons u us)
  from Cons.prems(1) have u: "u = st" "st < e" and us: "visits (advance FrequencyWeekly i) e (advance FrequencyWeekly i st) = Some us"
    by (auto elim: visits_Some_cases)
  have i: "1 \<le> i" "i \<le> 10 ^ 11" using assms(2) by (simp_all add: interval_ok_def interval_limit_def frequency_defs)
  then have adv: "advance FrequencyWeekly i st = st + i * (7 * day_ns)"
    using Cons.prems(2) add_days [of st "7 * i"] by (simp add: advance_def frequency_defs wrap64_id is_int64_def)
  show ?case
  proof (cases "x = u")
    case True
    with u Cons.prems(2) show ?thesis by (auto intro: exI [of _ 0])
  next
    case False
    with Cons.prems(3) have x: "x \<in> set us" by simp
    with us have "advance FrequencyWeekly i st < e" by (auto elim: visits_Some_cases)
    with adv i have "sane (advance FrequencyWeekly i st)"
      using Cons.prems(2) assms(4) zdiv_mono1 [of st "advance FrequencyWeekly i st" second]
        zdiv_mono1 [of "advance FrequencyWeekly i st" e second] by (auto simp: sane_def unix_def second_def day_ns_def)
    from Cons.IH [OF us this x] obtain k where "sane x" "x = st + i * (7 * day_ns) + k * (7 * day_ns)" by (auto simp: adv)
    then show ?thesis by (auto simp: algebra_simps intro: exI [of _ "i + k"])
  qed
qed simp

text \<open>C29. A weekly rule with named days yields times on the named days only, whole days after the start, so at the
  start's time of day; a day whose name is none of the seven reads as Sunday.\<close>

theorem weekly_times_on_named_days:
  assumes "frequency sc = ''weekly''" "by_day sc \<noteq> []" "interval_ok ''weekly'' (interval sc)" "sane st" "sane e"
    "expand_times sc st g e = Some (Inr ts)" "t \<in> set ts"
  shows "(\<exists>d \<in> set (by_day sc). weekday 0 t = weekday_of d) \<and> (\<exists>k. 0 \<le> k \<and> t = st + k * day_ns)"
proof -
  obtain vs n p where vs: "visits (advance (frequency sc) (interval sc)) e st = Some vs"
    and ts: "ts = filter p (take n (concat (map (window_body sc g e) vs)))"
    using assms(6) by (rule expand_timesE)
  from assms(7) ts have "t \<in> set (concat (map (window_body sc g e) vs))" by (auto dest: in_set_takeD)
  then obtain x where x: "x \<in> set vs" "t \<in> set (window_body sc g e x)" by auto
  then obtain d where d: "d \<in> set (by_day sc)" "t = weekly_day x d"
    using assms(1,2) by (auto simp: window_body_def split: if_splits)
  from vs assms(1) have "visits (advance FrequencyWeekly (interval sc)) e st = Some vs" by (simp add: frequency_defs)
  from weekly_visits [OF this _ assms(4,5) x(1)] assms(3) obtain k where k: "sane x" "x = st + k * (7 * day_ns)"
    by (auto simp: frequency_defs)
  have "st \<le> x" using advance_spaced(1) [OF vs] assms x(1) by simp
  define j where "j = (weekday_of d - weekday 0 x + 7) mod 7"
  have j: "0 \<le> j" "j < 7" by (simp_all add: j_def)
  have "weekly_day x d = x + j * day_ns"
    unfolding weekly_day_def j_def [symmetric] using j by (intro add_days k(1)) simp
  with k d have t: "t = st + (7 * k + j) * day_ns" by (simp add: algebra_simps)
  from k \<open>st \<le> x\<close> have "0 \<le> k" by (simp add: day_ns_def zero_le_mult_iff)
  with j have "0 \<le> 7 * k + j" by simp
  with t have "\<exists>k. 0 \<le> k \<and> t = st + k * day_ns" by blast
  moreover have "weekday 0 t = weekday_of d" using weekly_day(1) [OF k(1), of d] d by simp
  ultimately show ?thesis using d(1) by blast
qed
definition weekly_config :: schedule_config where
  "weekly_config = \<lparr>frequency = ''weekly'', interval = 2, by_day = [''MO'', ''FR''], by_month = [], by_month_day = [],
     count_limit = None, until_text = None\<rparr>"

theorem weekly_times_on_named_days_witness:
  "\<exists>ts. expand_times weekly_config (60 * second) 0 (864060 * second) = Some (Inr ts)
     \<and> (\<forall>t \<in> set ts. weekday 0 t \<in> {1, 5})"
proof -
  have s: "sane (60 * second)" "sane (864060 * second)" by (simp_all add: sane_def unix_def second_def)
  have w: "frequency weekly_config = ''weekly''" "by_day weekly_config \<noteq> []" "interval_ok ''weekly'' (interval weekly_config)"
    by (simp_all add: weekly_config_def interval_ok_def interval_limit_def frequency_defs)
  obtain r where "expand_times weekly_config (60 * second) 0 (864060 * second) = Some r"
    using expand_times_returns [of weekly_config "60 * second" "864060 * second" 0] w s by (auto simp: weekly_config_def)
  moreover have "until_text weekly_config = None" "''weekly'' \<in> set frequencies"
    by (simp_all add: weekly_config_def frequencies_def frequency_defs)
  ultimately obtain ts where "expand_times weekly_config (60 * second) 0 (864060 * second) = Some (Inr ts)"
    using w(1) by (auto simp: expand_times_def Option.bind_eq_Some_conv limit_until_def)
  moreover from weekly_times_on_named_days [OF w s this] have "weekday 0 t \<in> {1, 5}" if "t \<in> set ts" for t
    using that by (auto simp: weekly_config_def weekday_of_def)
  ultimately show ?thesis by blast
qed

section \<open>One-time events\<close>

lemma one_time_reliable:
  assumes "svc_ok S P V" "reliable S" "rdata_ok (rv V w)" "no_orphans (ex_prefix X) (rv V w)"
    "now = result_of (time_now S) w" "year_ok now" "year_ok (ev_start_time ev)"
    "window_opens X now \<le> ev_start_time ev" "ev_start_time ev \<le> window_closes X now"
  shows "pending_entries (ex_prefix X) (rv V (after (expandNonRecurringEvent S X ev) w)) (schedule_key (ev_id ev) (ev_start_time ev)) \<noteq> None"
proof -
  have "wp (expandNonRecurringEvent S X ev)
      (\<lambda>_ w'. pending_entries (ex_prefix X) (rv V w') (schedule_key (ev_id ev) (ev_start_time ev)) \<noteq> None) w"
    unfolding expandNonRecurringEvent_def wp_bind
  proof (rule wp_time_now [OF assms(1)], goal_cases)
    case (1 w1)
    with assms(8,9) scheduleWithRetry_reliable [OF assms(1,2,7,6), of _ "ex_prefix X"] assms(3,4) show ?case
      unfolding assms(5) [symmetric]
      by (auto simp: expand_non_recurring_at_def Let_def window_opens_def window_closes_def
          intro!: wp_uuid [OF assms(1)] elim!: wp_mono)
  qed
  from wp_result [OF this] show ?thesis .
qed

text \<open>C28. The expansion of a one-time event: outside the window (which includes its ends here) nothing changes; inside,
  with a Redis that answers, the event's start has a pending entry afterwards, and no other entry has changed.\<close>

theorem one_time_expansion:
  assumes "svc_ok S P V" "reliable S" "rdata_ok (rv V w)" "no_orphans (ex_prefix X) (rv V w)"
    "now = result_of (time_now S) w" "year_ok now" "year_ok (ev_start_time ev)"
  shows "let w' = after (expandNonRecurringEvent S X ev) w; t = ev_start_time ev; key = schedule_key (ev_id ev) t;
             new = pending_entries (ex_prefix X) (rv V w')
    in dv V w' = dv V w
     \<and> (if window_opens X now \<le> t \<and> t \<le> window_closes X now
        then new key \<noteq> None \<and> (\<forall>k. k \<noteq> key \<longrightarrow> new k = pending_entries (ex_prefix X) (rv V w) k)
        else rv V w' = rv V w)"
proof -
  let ?t = "ev_start_time ev" and ?w' = "after (expandNonRecurringEvent S X ev) w"
  note post = wp_result [OF expandNonRecurring_wp [OF assms(1,3,5), of X ev], folded window_opens_def window_closes_def]
  show ?thesis
  proof (cases "window_opens X now \<le> ?t \<and> ?t \<le> window_closes X now")
    case False
    with post show ?thesis by (auto simp: Let_def)
  next
    case True
    with one_time_reliable [OF assms] post show ?thesis
      by (auto simp: Let_def adds_entries_def)
  qed
qed

theorem one_time_expansion_witness:
  "pending_entries [] (m_redis (after (expandNonRecurringEvent mem_svc demo_expander demo_event) demo_mem))
     (schedule_key (mem_uuid 0) (60 * second)) \<noteq> None"
proof -
  have "result_of (time_now mem_svc) demo_mem = 120 * second" by (simp add: mem_svc_def result_of_def demo_mem_def)
  moreover have "no_orphans [] (m_redis demo_mem)" by (simp add: no_orphans_def demo_mem_def no_rdata_def)
  moreover have "year_ok (60 * second)" using year_ok_between [OF demo_years(1,2)] by (simp add: second_def)
  moreover have "- 180 * second \<le> 60 * second" "60 * second \<le> 86520 * second" by (simp_all add: second_def)
  ultimately show ?thesis
    using one_time_expansion [OF mem_svc_ok mem_reliable, of demo_mem demo_expander "120 * second" demo_event] demo_years(2)
    by (simp add: demo_fields demo_window Let_def del: not_None_eq)
qed
section \<open>Retries\<close>

definition transient :: "unit result \<Rightarrow> bool" where
  "transient r \<longleftrightarrow> (\<exists>e. r = Inl e \<and> (\<exists>p \<in> {''timeout'', ''connection refused'', ''network is unreachable''}. sublist p (error_text e)))"

lemma transient_iff: "isRedisTimeoutOrConnError (error_text e) \<longleftrightarrow> transient (Inl e)"
proof -
  have "sublist ''timeout'' ''i/o timeout''" by (simp add: sublist_code)
  then show ?thesis
    unfolding isRedisTimeoutOrConnError_def contains_iff transient_def by (auto intro: sublist_order.order.trans)
qed

lemma schedule_attempts_runs:
  "\<exists>k \<le> n. after (schedule_attempts n S pre oc ev) w = (after (ScheduleEvent S pre oc ev) ^^ k) w
     \<and> (\<forall>j. Suc j < k \<longrightarrow> transient (result_of (ScheduleEvent S pre oc ev) ((after (ScheduleEvent S pre oc ev) ^^ j) w)))
     \<and> (0 < n \<longrightarrow> 0 < k) \<and> (0 < k \<and> k < n \<longrightarrow> \<not> transient (result_of (ScheduleEvent S pre oc ev) ((after (ScheduleEvent S pre oc ev) ^^ (k - 1)) w)))"
proof (induction n arbitrary: w)
  case (Suc n)
  let ?call = "ScheduleEvent S pre oc ev"
  show ?case
  proof (cases "transient (result_of ?call w)")
    case False
    then have "after (schedule_attempts (Suc n) S pre oc ev) w = after ?call w"
      by (auto simp: after_def result_of_def State_Monad.bind_def transient_iff split: prod.split sum.split)
    with False show ?thesis by (intro exI [of _ 1]) simp
  next
    case True
    then have "after (schedule_attempts (Suc n) S pre oc ev) w = after (schedule_attempts n S pre oc ev) (after ?call w)"
      by (auto simp: after_def result_of_def State_Monad.bind_def transient_iff transient_def split: prod.split sum.split)
    moreover from Suc.IH [of "after ?call w"] obtain k where
      k: "k \<le> n" "after (schedule_attempts n S pre oc ev) (after ?call w) = (after ?call ^^ k) (after ?call w)"
      "\<And>j. Suc j < k \<Longrightarrow> transient (result_of ?call ((after ?call ^^ j) (after ?call w)))" "0 < n \<Longrightarrow> 0 < k"
      "0 < k \<and> k < n \<Longrightarrow> \<not> transient (result_of ?call ((after ?call ^^ (k - 1)) (after ?call w)))" by blast
    moreover have "transient (result_of ?call ((after ?call ^^ j) w))" if "Suc j < Suc k" for j
      using that True k(3) by (cases j) (auto simp: funpow_swap1)
    moreover have "\<not> transient (result_of ?call ((after ?call ^^ k) w))" if "k < n"
      using that k(4,5) by (cases k) (auto simp: funpow_swap1)
    ultimately show ?thesis by (intro exI [of _ "Suc k"]) (simp add: funpow_swap1)
  qed
qed (simp add: after_def)

text \<open>\<open>scheduleWithRetry\<close> is one, two or three calls of \<open>ScheduleEvent\<close>: it calls again only after an error that
  mentions a timeout or a connection problem, and stops at the first other outcome.\<close>

theorem scheduleWithRetry_bounded:
  "\<exists>k \<in> {1, 2, 3}. after (scheduleWithRetry S pre oc ev) w = (after (ScheduleEvent S pre oc ev) ^^ k) w
     \<and> (\<forall>j. Suc j < k \<longrightarrow> transient (result_of (ScheduleEvent S pre oc ev) ((after (ScheduleEvent S pre oc ev) ^^ j) w)))
     \<and> (k < 3 \<longrightarrow> \<not> transient (result_of (ScheduleEvent S pre oc ev) ((after (ScheduleEvent S pre oc ev) ^^ (k - 1)) w)))"
proof -
  obtain k where "k \<le> 3" "after (schedule_attempts 3 S pre oc ev) w = (after (ScheduleEvent S pre oc ev) ^^ k) w"
    "\<forall>j. Suc j < k \<longrightarrow> transient (result_of (ScheduleEvent S pre oc ev) ((after (ScheduleEvent S pre oc ev) ^^ j) w))"
    "0 < k" "0 < k \<and> k < 3 \<longrightarrow> \<not> transient (result_of (ScheduleEvent S pre oc ev) ((after (ScheduleEvent S pre oc ev) ^^ (k - 1)) w))"
    using schedule_attempts_runs [of 3 S pre oc ev w] by auto
  then show ?thesis
    unfolding scheduleWithRetry_def maxRetries_def by (intro bexI [of _ k]) auto
qed

theorem scheduleWithRetry_bounded_witness:
  "\<exists>k \<in> {1, 2, 3}. after (scheduleWithRetry mem_svc [] demo_occurrence demo_event) demo_mem
     = (after (ScheduleEvent mem_svc [] demo_occurrence demo_event) ^^ k) demo_mem"
  using scheduleWithRetry_bounded [of mem_svc "[]" demo_occurrence demo_event demo_mem] by blast

end
