(* ===== verification/Actions.thy ===== *)
theory Actions
  imports Services Sha256
begin

text \<open>
  \<open>internal/services/hmac_service.go\<close> and \<open>internal/actions\<close>: signing, the manager that selects an
  executor by action type, and the executors for webhooks, websocket clients and API calls. What
  \<open>http.NewRequest\<close> says of a method and a URL is a parameter (\<open>re\<close>, \<open>None\<close> when it accepts them).
\<close>

section \<open>Signatures\<close>

text \<open>The service is its default secret.\<close>

definition SignPayload :: "string \<Rightarrow> string \<Rightarrow> string \<Rightarrow> string" where
  "SignPayload defaultSecret payload secret =
     (let key = (if secret = [] then defaultSecret else secret)
      in hex (hmac_sha256 (bytes_of key) (bytes_of payload)))"

definition ValidateSignature :: "string \<Rightarrow> string \<Rightarrow> string \<Rightarrow> string \<Rightarrow> bool" where
  "ValidateSignature defaultSecret payload signature secret =
     (let key = (if secret = [] then defaultSecret else secret)
      in bytes_of signature = bytes_of (SignPayload defaultSecret payload key))"

lemma bytes_of_inject: "bytes_of s = bytes_of t \<longleftrightarrow> s = t"
proof -
  have "inj (\<lambda>c. of_nat (of_char c) :: byte)"
  proof (rule injI)
    fix c e :: char assume "(of_nat (of_char c) :: byte) = of_nat (of_char e)"
    then have "(of_char c :: nat) mod 256 = of_char e mod 256" by (simp add: word_of_nat_eq_iff take_bit_eq_mod)
    then show "c = e" by simp
  qed
  then show ?thesis by (simp add: bytes_of_def inj_map_eq_map)
qed

lemma ValidateSignature_iff: "ValidateSignature ds p sig sec \<longleftrightarrow> sig = SignPayload ds p sec"
  by (simp add: ValidateSignature_def SignPayload_def Let_def bytes_of_inject)

section \<open>The actions manager\<close>

type_synonym 'w executor = "event \<Rightarrow> json option \<Rightarrow> ('w, unit result) state"
type_synonym 'w actions_manager = "string \<rightharpoonup> 'w executor"

definition NewActionsManager :: "'w actions_manager" where
  "NewActionsManager = Map.empty"

definition Register :: "string \<Rightarrow> 'w executor \<Rightarrow> 'w actions_manager \<Rightarrow> 'w actions_manager" where
  "Register ty ex am = am(ty \<mapsto> ex)"

definition Execute :: "'w actions_manager \<Rightarrow> event \<Rightarrow> ('w, unit result) state" where
  "Execute am ev =
     (case ev_action ev of
        None \<Rightarrow> State_Monad.return (Inl (Errorf ''event action is nil''))
      | Some a \<Rightarrow>
        (case am (act_type a) of
           None \<Rightarrow> State_Monad.return (Inl (Errorf (''no executor registered for action type: '' @ act_type a)))
         | Some ex \<Rightarrow> ex ev (act_params a)))"

section \<open>Payloads\<close>

text \<open>A map is marshalled with its keys in order.\<close>

definition webhook_payload :: "event \<Rightarrow> instant \<Rightarrow> string option" where
  "webhook_payload ev now =
     do { da \<leftarrow> marshal_time now; sa \<leftarrow> marshal_time (ev_start_time ev);
          Some (print_json (JObj
            [(''description'', JStr (ev_description ev)), (''dispatched_at'', JStr da), (''event_id'', JStr (ev_id ev)),
             (''metadata'', ev_metadata ev), (''name'', JStr (ev_name ev)), (''scheduled_at'', JStr sa),
             (''tags'', enc_tags (ev_tags ev))])) }"

definition websocket_payload :: "event \<Rightarrow> string option" where
  "websocket_payload ev =
     do { sa \<leftarrow> marshal_time (ev_start_time ev);
          Some (print_json (JObj
            [(''description'', JStr (ev_description ev)), (''event_id'', JStr (ev_id ev)), (''metadata'', ev_metadata ev),
             (''name'', JStr (ev_name ev)), (''scheduled_at'', JStr sa), (''tags'', enc_tags (ev_tags ev)),
             (''type'', JStr ''event'')])) }"

definition marshal_error :: error where
  "marshal_error = Errorf ''json: error calling MarshalJSON''"

section \<open>Executors\<close>

definition success_status :: "int \<Rightarrow> bool" where
  "success_status status \<longleftrightarrow> 200 \<le> status \<and> status < 300"

text \<open>\<open>http.Header.Set\<close> with the canonical form of the key.\<close>

definition token_char :: "char \<Rightarrow> bool" where
  "token_char c \<longleftrightarrow> (65 \<le> code c \<and> code c \<le> 90) \<or> (97 \<le> code c \<and> code c \<le> 122) \<or> is_digit c
     \<or> List.member [CHR ''!'', CHR 0x23, CHR 0x24, CHR 0x25, CHR 0x26, CHR 0x27, CHR ''*'', CHR ''+'', CHR ''-'', CHR ''.'',
          CHR 0x5E, CHR ''_'', CHR 0x60, CHR ''|'', CHR ''~''] c"

fun canonical_from :: "bool \<Rightarrow> string \<Rightarrow> string" where
  "canonical_from up [] = []"
| "canonical_from up (c # cs) =
     (if up then (if 97 \<le> code c \<and> code c \<le> 122 then char_of (code c - 32) else c) else lower_char c)
       # canonical_from (c = CHR ''-'') cs"

definition canonical_header :: "string \<Rightarrow> string" where
  "canonical_header k = (if list_all token_char k then canonical_from True k else k)"

definition set_header :: "string \<times> string \<Rightarrow> (string \<times> string) list \<Rightarrow> (string \<times> string) list" where
  "set_header kv hs = put (canonical_header (fst kv)) (snd kv) hs"

definition signature_headers :: "string option \<Rightarrow> event \<Rightarrow> string \<Rightarrow> (string \<times> string) list" where
  "signature_headers hmac ev payload =
     (case hmac of
        None \<Rightarrow> []
      | Some ds \<Rightarrow> [(''X-Qhronos-Signature'',
          (case ev_hmac_secret ev of
             None \<Rightarrow> SignPayload ds payload ''''
           | Some sec \<Rightarrow> if sec = [] then SignPayload ds payload '''' else SignPayload ds payload sec))])"

definition webhook_request :: "string option \<Rightarrow> event \<Rightarrow> string \<Rightarrow> string \<Rightarrow> http_request" where
  "webhook_request hmac ev url payload =
     \<lparr>rq_method = ''POST'', rq_url = url,
      rq_headers = fold set_header ((''Content-Type'', ''application/json'') # signature_headers hmac ev payload) [],
      rq_body = payload\<rparr>"

text \<open>The tail of both HTTP executors: send, and judge the status.\<close>

definition send_request :: "'w svc \<Rightarrow> http_request \<Rightarrow> (error \<Rightarrow> error) \<Rightarrow> string \<Rightarrow> ('w, unit result) state" where
  "send_request S q wrap ctx =
     State_Monad.bind (http_do S q)
       (\<lambda>r. State_Monad.return (case r of
          Inl e \<Rightarrow> Inl (wrap (Errorf e))
        | Inr status \<Rightarrow> if success_status status then Inr () else Inl (Errorf (ctx @ show_int status))))"

definition WebhookExecutor :: "'w svc \<Rightarrow> string option \<Rightarrow> (string \<Rightarrow> string \<Rightarrow> string option) \<Rightarrow> 'w executor" where
  "WebhookExecutor S hmac re ev params =
     (case decode_params ''failed to unmarshal webhook params'' dec_webhook_params params of
        Inl e \<Rightarrow> State_Monad.return (Inl e)
      | Inr p \<Rightarrow>
        if wh_url p = [] then State_Monad.return (Inl (Errorf ''webhook URL is empty in action params''))
        else do {
          now \<leftarrow> time_now S;
          (case webhook_payload ev now of
             None \<Rightarrow> State_Monad.return (Inl (wrap_err ''error marshaling webhook payload'' marshal_error))
           | Some payload \<Rightarrow>
             (case re ''POST'' (wh_url p) of
                Some e \<Rightarrow> State_Monad.return (Inl (wrap_err ''error creating webhook request'' (Errorf e)))
              | None \<Rightarrow> send_request S (webhook_request hmac ev (wh_url p) payload) id ''received non-2xx status code: '')) })"

definition WebsocketExecutor :: "'w svc \<Rightarrow> 'w executor" where
  "WebsocketExecutor S ev params =
     (case decode_params ''failed to unmarshal websocket params'' dec_websocket_params params of
        Inl e \<Rightarrow> State_Monad.return (Inl e)
      | Inr p \<Rightarrow>
        if ws_client_name p = [] then State_Monad.return (Inl (Errorf ''client_name is empty in websocket action params''))
        else (case websocket_payload ev of
          None \<Rightarrow> State_Monad.return (Inl (wrap_err ''error marshaling websocket payload'' marshal_error))
        | Some payload \<Rightarrow>
            State_Monad.bind (notify_client S (ws_client_name p) payload)
              (\<lambda>r. State_Monad.return (case r of None \<Rightarrow> Inr () | Some e \<Rightarrow> Inl (Errorf e)))))"

definition apicall_request :: "apicall_params \<Rightarrow> http_request" where
  "apicall_request p =
     \<lparr>rq_method = api_method p, rq_url = api_url p, rq_headers = fold set_header (api_headers p) [],
      rq_body = (case api_body p of None \<Rightarrow> [] | Some j \<Rightarrow> print_json j)\<rparr>"

definition APICallExecutor :: "'w svc \<Rightarrow> (string \<Rightarrow> string \<Rightarrow> string option) \<Rightarrow> 'w executor" where
  "APICallExecutor S re ev params =
     (case decode_params ''failed to unmarshal apicall params'' dec_apicall_params params of
        Inl e \<Rightarrow> State_Monad.return (Inl e)
      | Inr p \<Rightarrow>
        if api_url p = [] \<or> api_method p = [] then
          State_Monad.return (Inl (Errorf ''apicall action requires both url and method''))
        else (case re (api_method p) (api_url p) of
          Some e \<Rightarrow> State_Monad.return (Inl (wrap_err ''failed to build apicall request'' (Errorf e)))
        | None \<Rightarrow> send_request S (apicall_request p) (wrap_err ''apicall request failed'') ''apicall returned non-2xx status: ''))"

text \<open>The manager that \<open>NewDispatcher\<close> sets up.\<close>

definition dispatch_manager :: "'w svc \<Rightarrow> string option \<Rightarrow> (string \<Rightarrow> string \<Rightarrow> string option) \<Rightarrow> 'w actions_manager" where
  "dispatch_manager S hmac re =
     Register ActionTypeAPICall (APICallExecutor S re)
       (Register ActionTypeWebsocket (WebsocketExecutor S)
         (Register ActionTypeWebhook (WebhookExecutor S hmac re) NewActionsManager))"

section \<open>What an execution sends\<close>

text \<open>The recipient that an action names.\<close>

definition addressed_to :: "action \<Rightarrow> message \<Rightarrow> bool" where
  "addressed_to a m \<longleftrightarrow>
     (case m of
        HttpRequest q \<Rightarrow>
          (act_type a = ActionTypeWebhook \<and> rq_method q = ''POST''
             \<and> Option.bind (act_params a) dec_webhook_params = Some \<lparr>wh_url = rq_url q\<rparr>)
          \<or> (act_type a = ActionTypeAPICall \<and> (\<exists>p. Option.bind (act_params a) dec_apicall_params = Some p
               \<and> q = apicall_request p))
      | ToClient c _ \<Rightarrow> act_type a = ActionTypeWebsocket
          \<and> Option.bind (act_params a) dec_websocket_params = Some \<lparr>ws_client_name = c\<rparr>)"

text \<open>A message or none; one, to the named recipient, when the execution succeeds.\<close>

definition sends :: "action \<Rightarrow> message list \<Rightarrow> unit result \<Rightarrow> message list \<Rightarrow> bool" where
  "sends a old r new \<longleftrightarrow>
     (new = old \<and> \<not> is_ok r) \<or> (\<exists>m. new = old @ [m] \<and> addressed_to a m)"

lemma decode_params_bind:
  "decode_params ctx dec ps = Inr p \<longleftrightarrow> Option.bind ps dec = Some p"
  by (auto simp: decode_params_def split: option.splits)

lemma send_request_wp:
  assumes "svc_ok S P V"
  shows "wp (send_request S q f ctx) (\<lambda>r w'. rv V w' = rv V w \<and> dv V w' = dv V w \<and> ov V w' = ov V w @ [HttpRequest q]) w"
  unfolding send_request_def wp_bind by (rule wp_http [OF assms]) simp

lemma WebhookExecutor_wp:
  assumes ok: "svc_ok S P V" and a: "act_type a = ActionTypeWebhook" "params = act_params a"
  shows "wp (WebhookExecutor S hmac re ev params) (\<lambda>r w'. rv V w' = rv V w \<and> dv V w' = dv V w \<and> sends a (ov V w) r (ov V w')) w"
proof -
  have addr: "addressed_to a (HttpRequest (webhook_request hmac ev (wh_url p) payload))"
    if "Option.bind params dec_webhook_params = Some p" for p payload
    using that a by (auto simp: addressed_to_def webhook_request_def)
  show ?thesis
    unfolding WebhookExecutor_def
    by (auto split: sum.split option.split simp: sends_def decode_params_bind addr
        intro!: wp_time [OF ok] wp_mono [OF send_request_wp [OF ok]])
qed

lemma WebsocketExecutor_wp:
  assumes ok: "svc_ok S P V" and a: "act_type a = ActionTypeWebsocket" "params = act_params a"
  shows "wp (WebsocketExecutor S ev params) (\<lambda>r w'. rv V w' = rv V w \<and> dv V w' = dv V w \<and> sends a (ov V w) r (ov V w')) w"
proof -
  have addr: "addressed_to a (ToClient (ws_client_name p) payload)"
    if "Option.bind params dec_websocket_params = Some p" for p payload
    using that a by (auto simp: addressed_to_def)
  show ?thesis
    unfolding WebsocketExecutor_def
    by (auto split: sum.split option.split simp: sends_def decode_params_bind addr intro!: wp_notify [OF ok])
qed

lemma APICallExecutor_wp:
  assumes ok: "svc_ok S P V" and a: "act_type a = ActionTypeAPICall" "params = act_params a"
  shows "wp (APICallExecutor S re ev params) (\<lambda>r w'. rv V w' = rv V w \<and> dv V w' = dv V w \<and> sends a (ov V w) r (ov V w')) w"
proof -
  have addr: "addressed_to a (HttpRequest (apicall_request p))"
    if "Option.bind params dec_apicall_params = Some p" for p
    using that a by (auto simp: addressed_to_def)
  show ?thesis
    unfolding APICallExecutor_def
    by (auto split: sum.split option.split simp: sends_def decode_params_bind addr
        intro!: wp_mono [OF send_request_wp [OF ok]])
qed

lemma Execute_wp:
  assumes ok: "svc_ok S P V"
  shows "wp (Execute (dispatch_manager S hmac re) ev) (\<lambda>r w'. rv V w' = rv V w \<and> dv V w' = dv V w
     \<and> (case ev_action ev of None \<Rightarrow> \<not> is_ok r \<and> ov V w' = ov V w | Some a \<Rightarrow> sends a (ov V w) r (ov V w'))) w"
proof (cases "ev_action ev")
  case (Some a)
  consider "act_type a = ActionTypeWebhook" | "act_type a = ActionTypeWebsocket" | "act_type a = ActionTypeAPICall"
    | "act_type a \<notin> {ActionTypeWebhook, ActionTypeWebsocket, ActionTypeAPICall}"
    by blast
  then show ?thesis
  proof cases
    case 1
    with Some WebhookExecutor_wp [OF ok 1 refl] show ?thesis
      by (simp add: Execute_def dispatch_manager_def Register_def action_type_defs)
  next
    case 2
    with Some WebsocketExecutor_wp [OF ok 2 refl] show ?thesis
      by (simp add: Execute_def dispatch_manager_def Register_def action_type_defs)
  next
    case 3
    with Some APICallExecutor_wp [OF ok 3 refl] show ?thesis
      by (simp add: Execute_def dispatch_manager_def Register_def action_type_defs)
  next
    case 4
    then have "dispatch_manager S hmac re (act_type a) = None"
      by (simp add: dispatch_manager_def Register_def NewActionsManager_def)
    with Some show ?thesis by (simp add: Execute_def sends_def)
  qed
qed (simp add: Execute_def)

end
