(* ===== verification/Dispatcher.thy ===== *)
theory Dispatcher
  imports EventRepository Actions
begin

text \<open>
  \<open>internal/scheduler/dispatcher.go\<close>: one dispatch of a queue entry, the turn of a worker around it (pop,
  dispatch, retry or drop), and the turn of the poller that brings retries back to the queue.
\<close>

definition retryQueueKey :: string where "retryQueueKey = ''retry:queue''"

record dispatcher =
  di_prefix :: string
  di_maxRetries :: int
  di_retryDelay :: duration
  di_hmac :: "string option"
  di_request_error :: "string \<Rightarrow> string \<Rightarrow> string option"

section \<open>Dispatching one entry\<close>

definition error_occurrence :: "schedule \<Rightarrow> instant \<Rightarrow> string \<Rightarrow> string \<Rightarrow> occurrence" where
  "error_occurrence sched now respBody errMsg =
     \<lparr>oc_id = 0, oc_occurrence_id = oc_occurrence_id sched, oc_event_id = oc_event_id sched,
      oc_scheduled_at = oc_scheduled_at sched, oc_status = OccurrenceStatusFailed, oc_attempt_count = 0,
      oc_timestamp = now, oc_status_code = 0, oc_response_body = respBody, oc_error_message = errMsg,
      oc_started_at = zero_time, oc_completed_at = zero_time\<rparr>"

definition logErrOccurrence :: "'w svc \<Rightarrow> schedule \<Rightarrow> string \<Rightarrow> string \<Rightarrow> ('w, unit) state" where
  "logErrOccurrence S sched respBody errMsg = do {
     now \<leftarrow> time_now S;
     ignore (occ_Create S (error_occurrence sched now respBody errMsg)) }"

definition log_occurrence :: "schedule \<Rightarrow> event \<Rightarrow> unit result \<Rightarrow> instant \<Rightarrow> instant \<Rightarrow> occurrence" where
  "log_occurrence sched ev r now1 now2 =
     \<lparr>oc_id = 0, oc_occurrence_id = oc_occurrence_id sched, oc_event_id = ev_id ev, oc_scheduled_at = oc_scheduled_at sched,
      oc_status = (case r of Inl _ \<Rightarrow> OccurrenceStatusFailed | Inr _ \<Rightarrow> OccurrenceStatusCompleted),
      oc_attempt_count = wrap64 (oc_attempt_count sched + 1), oc_timestamp = now1, oc_status_code = 0,
      oc_response_body = [], oc_error_message = (case r of Inl e \<Rightarrow> error_text e | Inr _ \<Rightarrow> []),
      oc_started_at = oc_scheduled_at sched, oc_completed_at = now2\<rparr>"

text \<open>The two cases in which a completed dispatch ends the event.\<close>

definition until_passed :: "'w svc \<Rightarrow> string option \<Rightarrow> ('w, bool) state" where
  "until_passed S u =
     (case u of
        None \<Rightarrow> State_Monad.return False
      | Some s \<Rightarrow> (case parse_rfc3339 s of
          None \<Rightarrow> State_Monad.return False
        | Some ut \<Rightarrow> do { now \<leftarrow> time_now S; State_Monad.return (ut < now) }))"

definition recurring_finished :: "'w svc \<Rightarrow> event \<Rightarrow> schedule_config \<Rightarrow> ('w, bool) state" where
  "recurring_finished S ev sc = do {
     byCount \<leftarrow> (case count_limit sc of
        None \<Rightarrow> State_Monad.return False
      | Some c \<Rightarrow> State_Monad.bind (CountCompletedByEventID S (ev_id ev))
          (\<lambda>r. State_Monad.return (case r of Inl _ \<Rightarrow> False | Inr n \<Rightarrow> c \<le> n)));
     if byCount then State_Monad.return True else until_passed S (until_text sc) }"

definition inactivate :: "'w svc \<Rightarrow> event \<Rightarrow> ('w, unit) state" where
  "inactivate S ev = ignore (Update S (ev\<lparr>ev_status := EventStatusInactive\<rparr>))"

definition auto_inactivate :: "'w svc \<Rightarrow> event \<Rightarrow> unit result \<Rightarrow> ('w, unit) state" where
  "auto_inactivate S ev r =
     (if ev_status ev = EventStatusActive \<and> is_ok r then
        (case ev_schedule ev of
           None \<Rightarrow> inactivate S ev
         | Some sc \<Rightarrow> State_Monad.bind (recurring_finished S ev sc)
             (\<lambda>fin. if fin then inactivate S ev else State_Monad.return ()))
      else State_Monad.return ())"

definition DispatchAction :: "'w svc \<Rightarrow> dispatcher \<Rightarrow> schedule \<Rightarrow> ('w, unit result) state" where
  "DispatchAction S D sched =
     State_Monad.bind (GetByID S (oc_event_id sched))
       (\<lambda>r. case r of
          Inl e \<Rightarrow>
            (let key = schedule_key (oc_event_id sched) (oc_scheduled_at sched) in do {
               _ \<leftarrow> logErrOccurrence S sched '''' (''event not found for dispatch: '' @ error_text e);
               _ \<leftarrow> ignore (redis S (ZREM (di_prefix D @ ScheduleKey) key));
               _ \<leftarrow> ignore (redis S (HDEL (di_prefix D @ scheduleDataKey) key));
               State_Monad.return (Inl (Errorf (''event not found for dispatch: '' @ oc_event_id sched @ '', error: '' @ error_text e))) })
        | Inr None \<Rightarrow> do {
            _ \<leftarrow> logErrOccurrence S sched '''' ''event is nil after GetByID'';
            State_Monad.return (Inl (Errorf (''event is nil after GetByID: '' @ oc_event_id sched))) }
        | Inr (Some ev) \<Rightarrow>
            if ev_action ev = None then do {
              _ \<leftarrow> logErrOccurrence S sched '''' ''event action is nil'';
              State_Monad.return (Inl (Errorf (''event action is nil for event '' @ ev_id ev))) }
            else do {
              dispatchError \<leftarrow> Execute (dispatch_manager S (di_hmac D) (di_request_error D)) ev;
              now1 \<leftarrow> time_now S;
              now2 \<leftarrow> time_now S;
              _ \<leftarrow> ignore (occ_Create S (log_occurrence sched ev dispatchError now1 now2));
              _ \<leftarrow> auto_inactivate S ev dispatchError;
              State_Monad.return dispatchError })"

section \<open>The worker\<close>

text \<open>What a worker does with an entry whose dispatch failed.\<close>

definition retry_later :: "'w svc \<Rightarrow> dispatcher \<Rightarrow> schedule \<Rightarrow> ('w, unit) state" where
  "retry_later S D sched =
     (let attempts = wrap64 (oc_attempt_count sched + 1) in
      if di_maxRetries D \<le> attempts then State_Monad.return ()
      else case marshal_schedule (sched\<lparr>oc_attempt_count := attempts\<rparr>) of
        Inl _ \<Rightarrow> State_Monad.return ()
      | Inr updatedData \<Rightarrow> do {
          now \<leftarrow> time_now S;
          ignore (redis S (ZADD (di_prefix D @ retryQueueKey) (unix (add_dur now (di_retryDelay D))) updatedData)) })"

definition process_item :: "(string \<Rightarrow> uuid option) \<Rightarrow> 'w svc \<Rightarrow> dispatcher \<Rightarrow> string \<Rightarrow> ('w, unit) state" where
  "process_item up S D item =
     (case unmarshal_schedule up item of
        Inl _ \<Rightarrow> State_Monad.return ()
      | Inr sched \<Rightarrow>
          State_Monad.bind (DispatchAction S D sched)
            (\<lambda>r. case r of Inl _ \<Rightarrow> retry_later S D sched | Inr _ \<Rightarrow> State_Monad.return ()))"

text \<open>One turn of a worker; the pop times out on an empty queue.\<close>

definition worker_turn :: "(string \<Rightarrow> uuid option) \<Rightarrow> 'w svc \<Rightarrow> dispatcher \<Rightarrow> ('w, unit) state" where
  "worker_turn up S D =
     State_Monad.bind (redis S (BRPOP (di_prefix D @ dispatchQueueKey)))
       (\<lambda>r. case r of
          Inr (RArr [_, item]) \<Rightarrow> process_item up S D item
        | _ \<Rightarrow> State_Monad.return ())"

section \<open>The retry poller\<close>

fun lua_retry :: "string \<Rightarrow> string \<Rightarrow> string list \<Rightarrow> rdata \<Rightarrow> rdata" where
  "lua_retry z q [] d = d"
| "lua_retry z q (v # vs) d = lua_retry z q vs (call (ZREM z v) (call (RPUSH q v) d))"

definition retryLua :: "string \<Rightarrow> string \<Rightarrow> int \<Rightarrow> rdata \<Rightarrow> rreply \<times> rdata" where
  "retryLua z q now d =
     (let due = zrange_by_score None now (rd_zsets d z) in (RArr due, lua_retry z q due d))"

definition poller_turn :: "'w svc \<Rightarrow> dispatcher \<Rightarrow> ('w, unit) state" where
  "poller_turn S D = do {
     now \<leftarrow> time_now S;
     ignore (redis S (EVAL (retryLua (di_prefix D @ retryQueueKey) (di_prefix D @ dispatchQueueKey) (unix now)))) }"

section \<open>The effect of a dispatch\<close>

text \<open>Recording an occurrence adds one row or none.\<close>

definition may_record :: "pg \<Rightarrow> occurrence \<Rightarrow> dbdata \<Rightarrow> dbdata \<Rightarrow> bool" where
  "may_record P oc db db' \<longleftrightarrow> db' = db \<or> (has_event db (oc_event_id oc) \<and> db' = add_occurrence P oc db)"

lemma record_wp:
  assumes ok: "svc_ok S P V"
  shows "wp (ignore (occ_Create S oc)) (\<lambda>_ w'. rv V w' = rv V w \<and> ov V w' = ov V w \<and> may_record P oc (dv V w) (dv V w')) w"
  unfolding wp_ignore
  by (rule wp_mono [OF occ_Create_wp [OF ok]]) (auto simp: may_record_def split: sum.splits)

lemma logErr_wp:
  assumes ok: "svc_ok S P V"
  shows "wp (logErrOccurrence S sched rb msg) (\<lambda>_ w'. rv V w' = rv V w \<and> ov V w' = ov V w
     \<and> (\<exists>now. may_record P (error_occurrence sched now rb msg) (dv V w) (dv V w'))) w"
  unfolding logErrOccurrence_def wp_bind
  by (rule wp_time [OF ok], rule wp_mono [OF record_wp [OF ok]]) auto

text \<open>Inactivating an event writes its row, with the status \<open>inactive\<close>.\<close>

definition may_inactivate :: "pg \<Rightarrow> event \<Rightarrow> dbdata \<Rightarrow> dbdata \<Rightarrow> bool" where
  "may_inactivate P ev db db' \<longleftrightarrow> db' = db \<or> (\<exists>now ts. ev_tags ev = Some ts
     \<and> db' = db\<lparr>db_events := map (update_row P ts (updated now (ev\<lparr>ev_status := EventStatusInactive\<rparr>))) (db_events db)\<rparr>)"

lemma inactivate_wp:
  assumes ok: "svc_ok S P V"
  shows "wp (inactivate S ev) (\<lambda>_ w'. rv V w' = rv V w \<and> ov V w' = ov V w \<and> may_inactivate P ev (dv V w) (dv V w')) w"
  unfolding inactivate_def wp_ignore
  by (rule wp_mono [OF Update_wp [OF ok]]) (auto simp: may_inactivate_def)

lemma recurring_finished_wp:
  assumes ok: "svc_ok S P V"
  shows "wp (recurring_finished S ev sc) (\<lambda>_ w'. rv V w' = rv V w \<and> ov V w' = ov V w \<and> dv V w' = dv V w) w"
proof -
  have u: "wp (until_passed S u) (\<lambda>_ w'. rv V w' = rv V w \<and> ov V w' = ov V w \<and> dv V w' = dv V w) w1"
    if "rv V w1 = rv V w" "ov V w1 = ov V w" "dv V w1 = dv V w" for u w1
    using that by (auto simp: until_passed_def split: option.split intro!: wp_time [OF ok])
  show ?thesis
    unfolding recurring_finished_def wp_bind
    by (auto split: option.split intro!: u wp_mono [OF CountCompleted_wp [OF ok]])
qed

lemma auto_inactivate_wp:
  assumes ok: "svc_ok S P V"
  shows "wp (auto_inactivate S ev r) (\<lambda>_ w'. rv V w' = rv V w \<and> ov V w' = ov V w
     \<and> may_inactivate P ev (dv V w) (dv V w') \<and> (\<not> is_ok r \<longrightarrow> dv V w' = dv V w)) w"
proof -
  have same: "may_inactivate P ev db db" for db by (simp add: may_inactivate_def)
  have i: "wp (inactivate S ev) (\<lambda>_ w'. rv V w' = rv V w \<and> ov V w' = ov V w \<and> may_inactivate P ev (dv V w) (dv V w')) w1"
    if "rv V w1 = rv V w" "ov V w1 = ov V w" "dv V w1 = dv V w" for w1
    using inactivate_wp [OF ok, of ev w1] that by simp
  show ?thesis
    unfolding auto_inactivate_def
    by (auto split: option.split simp: same intro!: i wp_mono [OF recurring_finished_wp [OF ok]])
qed

lemma populate_keeps_id [simp]: "ev_id (populateWebhookFromAction ev) = ev_id ev"
  "ev_action (populateWebhookFromAction ev) = ev_action ev"
  by (simp_all add: populateWebhookFromAction_def split: option.split sum.split)

lemma event_of_row_id: "event_of_row r = Inr ev \<Longrightarrow> ev_id ev = er_id r"
  by (auto simp: event_of_row_def split: sum.splits)

text \<open>
  What one dispatch does: the event it concerns is read; at most one message goes out, to the recipient
  the event's action names, and one has gone out if the dispatch succeeded; the outcome is recorded at
  most once, completed exactly when the dispatch succeeded; the event's row changes only on success.
\<close>

definition outcome :: "schedule \<Rightarrow> unit result \<Rightarrow> occurrence \<Rightarrow> bool" where
  "outcome sched r oc \<longleftrightarrow> oc_event_id oc = oc_event_id sched \<and> oc_occurrence_id oc = oc_occurrence_id sched
     \<and> oc_scheduled_at oc = oc_scheduled_at sched
     \<and> oc_status oc = (if is_ok r then OccurrenceStatusCompleted else OccurrenceStatusFailed)"

definition dispatch_effect :: "pg \<Rightarrow> schedule \<Rightarrow> dbdata \<Rightarrow> message list \<Rightarrow> unit result \<Rightarrow> dbdata \<Rightarrow> message list \<Rightarrow> bool" where
  "dispatch_effect P sched db old r db' new \<longleftrightarrow>
     (\<exists>oc db1. outcome sched r oc \<and> may_record P oc db db1
        \<and> (if is_ok r then \<exists>row ev a. row \<in> set (db_events db) \<and> er_id row = oc_event_id sched
               \<and> event_of_row row = Inr ev \<and> ev_action ev = Some a
               \<and> (\<exists>m. new = old @ [m] \<and> addressed_to a m)
               \<and> may_inactivate P (populateWebhookFromAction ev) db1 db'
           else db' = db1 \<and> (new = old \<or> (\<exists>row ev a m. row \<in> set (db_events db) \<and> er_id row = oc_event_id sched
               \<and> event_of_row row = Inr ev \<and> ev_action ev = Some a \<and> new = old @ [m] \<and> addressed_to a m))))"

definition orphan_cleanup :: "string \<Rightarrow> schedule \<Rightarrow> rdata \<Rightarrow> rdata set" where
  "orphan_cleanup pre sched d =
     (let k = schedule_key (oc_event_id sched) (oc_scheduled_at sched)
      in {d, drop_member pre k d, drop_payload pre k d, remove_entry pre k d})"

lemma failed_effect:
  "may_record P (error_occurrence sched now rb msg) db db' \<Longrightarrow> dispatch_effect P sched db old (Inl e) db' old"
  by (auto simp: dispatch_effect_def outcome_def error_occurrence_def occurrence_status_defs
      intro!: exI [of _ "error_occurrence sched now rb msg"])

lemma sent_effect:
  assumes "outcome sched r oc" "may_record P oc db db1" "row \<in> set (db_events db)" "er_id row = oc_event_id sched"
    "event_of_row row = Inr ev" "ev_action ev = Some a" "sends a old r new"
    "may_inactivate P (populateWebhookFromAction ev) db1 db'" "\<not> is_ok r \<longrightarrow> db' = db1"
  shows "dispatch_effect P sched db old r db' new"
  unfolding dispatch_effect_def
  by (rule exI [of _ oc], rule exI [of _ db1], cases "is_ok r") (use assms in \<open>fastforce simp: sends_def\<close>)+

lemma DispatchAction_wp:
  assumes ok: "svc_ok S P V"
  shows "wp (DispatchAction S D sched) (\<lambda>r w'. rv V w' \<in> orphan_cleanup (di_prefix D) sched (rv V w)
     \<and> dispatch_effect P sched (dv V w) (ov V w) r (dv V w') (ov V w')) w"
  unfolding DispatchAction_def wp_bind
proof (rule wp_mono [OF GetByID_wp [OF ok]], goal_cases)
  case (1 r w1)
  then have v: "rv V w1 = rv V w" "dv V w1 = dv V w" "ov V w1 = ov V w" by simp_all
  have log: "wp (logErrOccurrence S sched rb msg) (\<lambda>_ w'. rv V w' = rv V w \<and> ov V w' = ov V w
     \<and> (\<exists>now. may_record P (error_occurrence sched now rb msg) (dv V w) (dv V w'))) w1" for rb msg
    using logErr_wp [OF ok, of sched rb msg w1] v by simp
  consider e where "r = Inl e" | "r = Inr None" | ev where "r = Inr (Some ev)" by (metis option.exhaust sum.exhaust)
  then show ?case
  proof cases
    case 1
    then show ?thesis
      by (simp add: Let_def, intro wp_mono [OF log])
         (auto intro!: wp_redis [OF ok] dest!: redis_sem_call failed_effect
           simp: orphan_cleanup_def Let_def drop_member_def drop_payload_def remove_entry_def)
  next
    case 2
    then show ?thesis
      by (simp, intro wp_mono [OF log]) (auto simp: orphan_cleanup_def Let_def dest: failed_effect)
  next
    case (3 ev)
    with 1 obtain row ev0 where row: "row \<in> set (db_events (dv V w))" "er_id row = oc_event_id sched"
      "event_of_row row = Inr ev0" "ev = populateWebhookFromAction ev0" by auto
    then have id: "ev_id ev = oc_event_id sched" by (simp add: event_of_row_id)
    show ?thesis
    proof (cases "ev_action ev")
      case None
      with 3 show ?thesis
        by (simp, intro wp_mono [OF log]) (auto simp: orphan_cleanup_def Let_def dest: failed_effect)
    next
      case (Some a)
      have out: "outcome sched dr (log_occurrence sched ev dr n1 n2)" for dr n1 n2
        by (cases dr) (simp_all add: outcome_def log_occurrence_def id)
      have tail: "wp (ignore (occ_Create S (log_occurrence sched ev dr n1 n2))) (\<lambda>_ w'. wp (auto_inactivate S ev dr)
           (\<lambda>_ w'. rv V w' \<in> orphan_cleanup (di_prefix D) sched (rv V w)
              \<and> dispatch_effect P sched (dv V w) (ov V w) dr (dv V w') (ov V w')) w') w2"
        if "rv V w2 = rv V w" "dv V w2 = dv V w" "sends a (ov V w) dr (ov V w2)" for dr n1 n2 w2
      proof (rule wp_mono [OF record_wp [OF ok]], rule wp_mono [OF auto_inactivate_wp [OF ok]], goal_cases)
        case (1 x w3 y w4)
        then have "may_record P (log_occurrence sched ev dr n1 n2) (dv V w) (dv V w3)"
          "may_inactivate P (populateWebhookFromAction ev0) (dv V w3) (dv V w4)" "\<not> is_ok dr \<longrightarrow> dv V w4 = dv V w3"
          "sends a (ov V w) dr (ov V w4)" "rv V w4 = rv V w"
          using that row(4) by simp_all
        with sent_effect [OF out _ row(1-3)] Some row(4) show ?case
          by (simp add: orphan_cleanup_def Let_def)
      qed
      have "wp (Execute (dispatch_manager S (di_hmac D) (di_request_error D)) ev) (\<lambda>dr w'. rv V w' = rv V w
          \<and> dv V w' = dv V w \<and> sends a (ov V w) dr (ov V w')) w1"
        using Execute_wp [OF ok, of "di_hmac D" "di_request_error D" ev w1] v Some by simp
      with 3 Some show ?thesis
        by (simp, elim wp_mono) (auto intro!: wp_time [OF ok] tail [simplified])
    qed
  qed
qed

end
