(* ===== verification/EventHandlers.thy ===== *)
theory EventHandlers
  imports Requests Expansion Dispatcher
begin

text \<open>
  \<open>internal/handlers/event_handler.go\<close>. A handler is a computation that returns what it writes to the client;
  creation and update also return the event that a goroutine expands afterwards (\<open>background\<close>), if any.
  \<open>up\<close> is \<open>uuid.Parse\<close>. The handler's expander holds the window and the key prefix.
\<close>

section \<open>Validation\<close>

definition deriveActionFromRequest :: "string option \<Rightarrow> action option \<Rightarrow> (action \<times> string) result" where
  "deriveActionFromRequest reqWebhook reqAction =
     (case reqAction of
        Some a \<Rightarrow>
          if act_type a = [] then Inl (Errorf ''action type is required when action object is provided'')
          else if act_params a = None then Inl (Errorf ''action params are required when action object is provided'')
          else if act_type a = ActionTypeWebhook then
            (case decode_params ''invalid params for webhook action'' dec_webhook_params (act_params a) of
               Inl e \<Rightarrow> Inl e
             | Inr p \<Rightarrow> if wh_url p = [] then Inl (Errorf ''URL is required for webhook action params'') else Inr (a, wh_url p))
          else if act_type a = ActionTypeWebsocket then
            (case decode_params ''invalid params for websocket action'' dec_websocket_params (act_params a) of
               Inl e \<Rightarrow> Inl e
             | Inr p \<Rightarrow> if ws_client_name p = [] then Inl (Errorf ''client_name is required for websocket action params'')
                 else Inr (a, ''q:'' @ ws_client_name p))
          else Inl (Errorf (''unknown action type: '' @ act_type a))
      | None \<Rightarrow>
        (case reqWebhook of
           Some wh \<Rightarrow> if wh \<noteq> [] then Inr (action_of_webhook wh, wh)
             else Inl (Errorf ''either action object or a non-empty webhook string is required'')
         | None \<Rightarrow> Inl (Errorf ''either action object or a non-empty webhook string is required'')))"

definition isValidSchedule :: "schedule_config option \<Rightarrow> bool" where
  "isValidSchedule s =
     (case s of
        None \<Rightarrow> False
      | Some sc \<Rightarrow>
          if \<not> List.member [''minutely'', ''hourly'', ''daily'', ''weekly'', ''monthly'', ''yearly''] (frequency sc) then False
          else if interval sc < 1 then False
          else if frequency sc = ''weekly'' \<and> \<not> list_all (List.member [''MO'', ''TU'', ''WE'', ''TH'', ''FR'', ''SA'', ''SU'']) (by_day sc) then False
          else if frequency sc = ''monthly'' \<and> \<not> list_all (\<lambda>d. 1 \<le> d \<and> d \<le> 31) (by_month_day sc) then False
          else if frequency sc = ''yearly'' \<and> \<not> list_all (\<lambda>m. 1 \<le> m \<and> m \<le> 12) (by_month sc) then False
          else if (case count_limit sc of None \<Rightarrow> False | Some c \<Rightarrow> c < 1) then False
          else (case until_text sc of None \<Rightarrow> True | Some u \<Rightarrow> parse_rfc3339 u \<noteq> None))"

section \<open>Creation\<close>

definition event_of_request :: "create_request \<Rightarrow> action \<Rightarrow> string \<Rightarrow> event" where
  "event_of_request req a wh =
     \<lparr>ev_id = nil_uuid, ev_name = cr_name req, ev_description = (case cr_description req of None \<Rightarrow> [] | Some d \<Rightarrow> d),
      ev_start_time = cr_start_time req, ev_webhook = wh, ev_action = Some a,
      ev_metadata = (case cr_metadata req of None \<Rightarrow> JObj [] | Some m \<Rightarrow> m), ev_schedule = cr_schedule req,
      ev_tags = Some (case cr_tags req of None \<Rightarrow> [] | Some ts \<Rightarrow> ts), ev_status = [],
      ev_hmac_secret = cr_hmac_secret req, ev_created_at = zero_time, ev_updated_at = None\<rparr>"

definition CreateEvent :: "'w svc \<Rightarrow> expander \<Rightarrow> string \<Rightarrow> ('w, response \<times> event option) state" where
  "CreateEvent S X body =
     (case bind_create body of
        Inl e \<Rightarrow> State_Monad.return (Reply 400 (ErrorBody (''Invalid JSON format: '' @ error_text e)), None)
      | Inr req \<Rightarrow>
        if cr_name req = [] then State_Monad.return (Reply 400 (ErrorBody ''name is required''), None)
        else (case deriveActionFromRequest (cr_webhook req) (cr_action req) of
          Inl e \<Rightarrow> State_Monad.return (Reply 400 (ErrorBody (error_text e)), None)
        | Inr (a, wh) \<Rightarrow> do {
            now \<leftarrow> time_now S;
            if cr_start_time req < now then State_Monad.return (Reply 400 (ErrorBody ''Start time must be in the future''), None)
            else if cr_schedule req \<noteq> None \<and> \<not> isValidSchedule (cr_schedule req) then
              State_Monad.return (Reply 400 (ErrorBody ''invalid schedule format''), None)
            else do {
              r \<leftarrow> Create S (event_of_request req a wh);
              (case r of
                 Inl e \<Rightarrow> State_Monad.return (Reply 500 (ErrorBody (error_text e)), None)
               | Inr ev \<Rightarrow> do {
                   now2 \<leftarrow> time_now S;
                   State_Monad.return (Reply 201 (EventResponseBody (ToEventResponse ev)),
                     if window_opens X now2 < ev_start_time ev \<and> ev_start_time ev < window_closes X now2 then Some ev else None) }) } }))"

text \<open>The goroutine.\<close>

definition background :: "'w svc \<Rightarrow> expander \<Rightarrow> event option \<Rightarrow> ('w, unit) state" where
  "background S X job = (case job of None \<Rightarrow> State_Monad.return () | Some ev \<Rightarrow> ignore (expandEvent S X ev))"

section \<open>Reading, updating, deleting\<close>

definition GetEvent :: "(string \<Rightarrow> uuid option) \<Rightarrow> 'w svc \<Rightarrow> string \<Rightarrow> ('w, response) state" where
  "GetEvent up S ids =
     (case up ids of
        None \<Rightarrow> State_Monad.return (Reply 400 (ErrorBody ''invalid event ID''))
      | Some i \<Rightarrow> State_Monad.bind (GetByID S i)
          (\<lambda>r. State_Monad.return (case r of
             Inl e \<Rightarrow> Reply 500 (ErrorBody (error_text e))
           | Inr None \<Rightarrow> Reply 404 (ErrorBody ''event not found'')
           | Inr (Some ev) \<Rightarrow> Reply 200 (EventBody ev))))"

text \<open>The fields that an update sets before its action is derived, and after.\<close>

definition apply_basics :: "update_request \<Rightarrow> event \<Rightarrow> event" where
  "apply_basics req ev =
     ev\<lparr>ev_name := (case ur_name req of None \<Rightarrow> ev_name ev | Some n \<Rightarrow> n),
        ev_description := (case ur_description req of None \<Rightarrow> ev_description ev | Some d \<Rightarrow> d),
        ev_start_time := (case ur_start_time req of None \<Rightarrow> ev_start_time ev | Some t \<Rightarrow> t)\<rparr>"

definition apply_action :: "update_request \<Rightarrow> event \<Rightarrow> event result" where
  "apply_action req ev =
     (case ur_action req of
        Some a \<Rightarrow> (case deriveActionFromRequest None (Some a) of
            Inl e \<Rightarrow> Inl (Errorf (''Invalid action in update: '' @ error_text e))
          | Inr (a', wh) \<Rightarrow> Inr (ev\<lparr>ev_action := Some a', ev_webhook := wh\<rparr>))
      | None \<Rightarrow>
        (case ur_webhook req of
           Some w \<Rightarrow> (case deriveActionFromRequest (Some w) None of
               Inl e \<Rightarrow> Inl (Errorf (''Invalid webhook string in update: '' @ error_text e))
             | Inr (a', wh) \<Rightarrow> Inr (ev\<lparr>ev_action := Some a', ev_webhook := wh\<rparr>))
         | None \<Rightarrow> Inr ev))"

definition apply_rest :: "update_request \<Rightarrow> event \<Rightarrow> event" where
  "apply_rest req ev =
     ev\<lparr>ev_schedule := (case ur_schedule req of None \<Rightarrow> ev_schedule ev | Some sc \<Rightarrow> Some sc),
        ev_tags := (case ur_tags req of None \<Rightarrow> ev_tags ev | Some ts \<Rightarrow> Some ts),
        ev_status := (case ur_status req of None \<Rightarrow> ev_status ev | Some s \<Rightarrow> s),
        ev_hmac_secret := (case ur_hmac_secret req of None \<Rightarrow> ev_hmac_secret ev | Some h \<Rightarrow> Some h)\<rparr>"

text \<open>
  The replies are a list: the check of the start time writes a reply and does not return. It compares the
  request with the event that already has the request's start time.
\<close>

definition start_time_replies :: "'w svc \<Rightarrow> update_request \<Rightarrow> event \<Rightarrow> ('w, response list) state" where
  "start_time_replies S req ev =
     (case ur_start_time req of
        None \<Rightarrow> State_Monad.return []
      | Some t \<Rightarrow> if ev_start_time ev \<noteq> t then do {
            now \<leftarrow> time_now S;
            State_Monad.return (if t < now then [Reply 400 (ErrorBody ''Start time must be in the future'')] else []) }
          else State_Monad.return [])"

text \<open>The update of the event that was found, from the first assignment to the last reply.\<close>

definition update_found :: "(string \<Rightarrow> uuid option) \<Rightarrow> 'w svc \<Rightarrow> expander \<Rightarrow> update_request \<Rightarrow> event \<Rightarrow> ('w, response list \<times> event option) state" where
  "update_found up S X req ev =
     (case apply_action req (apply_basics req ev) of
        Inl e \<Rightarrow> State_Monad.return ([Reply 400 (ErrorBody (error_text e))], None)
      | Inr ev1 \<Rightarrow>
        let ev2 = ev1\<lparr>ev_metadata := (case ur_metadata req of None \<Rightarrow> ev_metadata ev1 | Some m \<Rightarrow> m)\<rparr> in do {
        early \<leftarrow> start_time_replies S req ev2;
        if ur_schedule req \<noteq> None \<and> \<not> isValidSchedule (ur_schedule req) then
          State_Monad.return (early @ [Reply 400 (ErrorBody ''invalid schedule format'')], None)
        else do {
          u \<leftarrow> Update S (apply_rest req ev2);
          (case u of
             Inl e \<Rightarrow> State_Monad.return (early @ [Reply 500 (ErrorBody ''failed to update event'')], None)
           | Inr ev3 \<Rightarrow> do {
               _ \<leftarrow> RemoveEventOccurrencesFromRedis up S (ex_prefix X) (ev_id ev3);
               State_Monad.return (early @ [Reply 200 (EventResponseBody (ToEventResponse ev3))], Some ev3) }) } })"

definition UpdateEvent :: "(string \<Rightarrow> uuid option) \<Rightarrow> 'w svc \<Rightarrow> expander \<Rightarrow> string \<Rightarrow> string \<Rightarrow> ('w, response list \<times> event option) state" where
  "UpdateEvent up S X ids body =
     (case up ids of
        None \<Rightarrow> State_Monad.return ([Reply 400 (ErrorBody ''invalid event ID format'')], None)
      | Some i \<Rightarrow>
        (case bind_update body of
           Inl e \<Rightarrow> State_Monad.return ([Reply 400 (ErrorBody (''Invalid JSON format: '' @ error_text e))], None)
         | Inr req \<Rightarrow>
           State_Monad.bind (GetByID S i)
           (\<lambda>r. case r of
              Inl e \<Rightarrow> State_Monad.return ([Reply 500 (ErrorBody ''failed to fetch event for update'')], None)
            | Inr None \<Rightarrow> State_Monad.return ([Reply 404 (ErrorBody ''event not found'')], None)
            | Inr (Some ev) \<Rightarrow> update_found up S X req ev)))"

definition DeleteEvent :: "(string \<Rightarrow> uuid option) \<Rightarrow> 'w svc \<Rightarrow> expander \<Rightarrow> string \<Rightarrow> ('w, response) state" where
  "DeleteEvent up S X ids =
     (case up ids of
        None \<Rightarrow> State_Monad.return (Reply 400 (ErrorBody ''invalid event ID''))
      | Some i \<Rightarrow> State_Monad.bind (Delete up S (ex_prefix X) i)
          (\<lambda>r. State_Monad.return (case r of
             Inl e \<Rightarrow> if e = ErrEventNotFound then Reply 404 (ErrorBody ''event not found'') else Reply 500 (ErrorBody (error_text e))
           | Inr _ \<Rightarrow> Reply 204 NoBody)))"

definition ListEventsByTags :: "'w svc \<Rightarrow> string \<Rightarrow> ('w, response) state" where
  "ListEventsByTags S tagsParam =
     State_Monad.bind (if tagsParam = [] then ListAll S else ListByTags S (split_on (CHR '','') tagsParam))
       (\<lambda>r. State_Monad.return (case r of
          Inl e \<Rightarrow> Reply 500 (ErrorBody (error_text e))
        | Inr evs \<Rightarrow> Reply 200 (EventsBody evs)))"

section \<open>Properties\<close>

lemma wp_all: "(\<And>x w'. Q x w') \<Longrightarrow> wp m Q w"
  by (simp add: wp_def split: prod.split)

lemma derived_webhook: "deriveActionFromRequest wh act = Inr (a, w) \<Longrightarrow> w \<noteq> []"
  by (auto simp: deriveActionFromRequest_def split: option.splits if_splits sum.splits)

text \<open>The action a request is accepted with is the one that is stored: \<open>Create\<close> and \<open>Update\<close> derive it again from the
  webhook string, and the derived action has the same recipient, except for a webhook whose URL begins with
  \<open>q:\<close>, which becomes a message to a websocket client.\<close>

theorem accepted_action_keeps_recipient:
  assumes "deriveActionFromRequest wh act = Inr (a, w)"
  shows "w \<noteq> [] \<and> ev_action (deriveAndSetAction (ev\<lparr>ev_webhook := w, ev_action := Some a\<rparr>)) = Some (action_of_webhook w)
    \<and> (if act_type a = ActionTypeWebhook \<and> 2 < length w \<and> take 2 w = ''q:'' then act_type (action_of_webhook w) = ActionTypeWebsocket
       else (\<forall>m. addressed_to (action_of_webhook w) m = addressed_to a m))"
proof -
  have wh: "Option.bind (act_params (action_of_webhook u)) dec_webhook_params = Some \<lparr>wh_url = u\<rparr>"
    if "\<not> (2 < length u \<and> take 2 u = ''q:'')" for u
    using that by (auto simp: action_of_webhook_def)
  have ws: "Option.bind (act_params (action_of_webhook u)) dec_websocket_params = Some \<lparr>ws_client_name = drop 2 u\<rparr>"
    if "2 < length u" "take 2 u = ''q:''" for u
    using that by (simp add: action_of_webhook_def)
  note w = derived_webhook [OF assms]
  then have d: "ev_action (deriveAndSetAction (ev\<lparr>ev_webhook := w, ev_action := Some a\<rparr>)) = Some (action_of_webhook w)"
    by (simp add: deriveAndSetAction_def)
  consider "a = action_of_webhook w"
    | p where "act_type a = ActionTypeWebhook" "Option.bind (act_params a) dec_webhook_params = Some p" "w = wh_url p"
    | p where "act_type a = ActionTypeWebsocket" "Option.bind (act_params a) dec_websocket_params = Some p"
        "w = ''q:'' @ ws_client_name p" "ws_client_name p \<noteq> []"
    using assms by (auto simp: deriveActionFromRequest_def decode_params_bind split: option.splits if_splits sum.splits)
  then show ?thesis
  proof cases
    case 1
    with w d show ?thesis by (auto simp: action_of_webhook_def action_type_defs)
  next
    case (2 p)
    show ?thesis
    proof (cases "2 < length w \<and> take 2 w = ''q:''")
      case True
      with 2 w d show ?thesis by (simp add: action_of_webhook_def)
    next
      case False
      have "p = \<lparr>wh_url = w\<rparr>" using 2(3) by simp
      moreover have "act_type (action_of_webhook w) = ActionTypeWebhook" using False by (auto simp: action_of_webhook_def)
      ultimately have "addressed_to (action_of_webhook w) m = addressed_to a m" for m
        using 2 wh [OF False] by (auto simp: addressed_to_def action_type_defs split: message.split)
      with False w d show ?thesis by auto
    qed
  next
    case (3 p)
    then have q: "2 < length w" "take 2 w = ''q:''" "drop 2 w = ws_client_name p" by simp_all
    have "p = \<lparr>ws_client_name = drop 2 w\<rparr>" using q by simp
    moreover have "act_type (action_of_webhook w) = ActionTypeWebsocket" using q by (simp add: action_of_webhook_def)
    ultimately have "addressed_to (action_of_webhook w) m = addressed_to a m" for m
      using 3 ws [OF q(1,2)] by (auto simp: addressed_to_def action_type_defs split: message.split)
    with 3 w d show ?thesis by (simp add: action_type_defs)
  qed
qed

theorem accepted_action_keeps_recipient_witness:
  "\<forall>m. addressed_to (action_of_webhook ''http://host/hook'') m
     = addressed_to \<lparr>act_type = ActionTypeWebhook, act_params = Some (enc_webhook_params \<lparr>wh_url = ''http://host/hook''\<rparr>)\<rparr> m"
  using accepted_action_keeps_recipient [of None "Some \<lparr>act_type = ActionTypeWebhook, act_params = Some (enc_webhook_params \<lparr>wh_url = ''http://host/hook''\<rparr>)\<rparr>"
      "\<lparr>act_type = ActionTypeWebhook, act_params = Some (enc_webhook_params \<lparr>wh_url = ''http://host/hook''\<rparr>)\<rparr>" "''http://host/hook''" demo_event]
  by (simp add: deriveActionFromRequest_def action_type_defs decode_params_def)

definition overflow_config :: schedule_config where
  "overflow_config = \<lparr>frequency = ''minutely'', interval = 2 ^ 53, by_day = [], by_month = [], by_month_day = [],
     count_limit = None, until_text = None\<rparr>"

text \<open>C23. A rule that the API accepts can stop the expander for good: a minutely rule with interval \<open>2 ^ 53\<close> passes the
  validation, its step wraps around to no step, and neither the expansion of its event nor the round over the
  active events that meets it returns.\<close>

theorem accepted_rule_stops_expander:
  assumes "ev_start_time ev < window_closes X (result_of (time_now S) w)" "ev_schedule ev = Some overflow_config"
  shows "isValidSchedule (ev_schedule ev) \<and> result_of (expandRecurringEvent S X overflow_config ev) w = None
    \<and> result_of (expand_each S X (ev # evs)) w = None"
proof -
  have adv: "advance ''minutely'' (2 ^ 53) t \<le> t" for t
    using advance_wraps [of t] by (simp add: FrequencyMinutely_def)
  have "expand_times overflow_config (ev_start_time ev) g (window_closes X (result_of (time_now S) w)) = None" for g
    by (simp add: for_loop_stuck [OF adv assms(1), simplified] expand_times_def frequencies_def frequency_defs overflow_config_def)
  note stuck = this
  obtain now w1 where t: "run_state (time_now S) w = (now, w1)" by fastforce
  then have "result_of (time_now S) w = now" by (simp add: result_of_def)
  with t have e: "result_of (expandRecurringEvent S X overflow_config ev) w = None"
    by (simp add: stuck [unfolded \<open>result_of (time_now S) w = now\<close> window_closes_def] expandRecurringEvent_def
        expand_recurring_at_def run_option_def result_of_def State_Monad.bind_def)
  moreover have "isValidSchedule (ev_schedule ev)"
    by (simp add: assms(2) isValidSchedule_def overflow_config_def)
  moreover have "result_of (expand_each S X (ev # evs)) w = None"
    using e by (auto simp: expandEvent_def assms(2) result_of_def State_Monad.bind_def split: prod.split)
  ultimately show ?thesis by blast
qed

theorem accepted_rule_stops_expander_witness:
  "result_of (expand_each mem_svc demo_expander [demo_event\<lparr>ev_schedule := Some overflow_config\<rparr>, demo_event]) demo_mem = None"
proof -
  have "result_of (time_now mem_svc) demo_mem = 120 * second" by (simp add: mem_svc_def result_of_def demo_mem_def)
  moreover have "60 * second < 86520 * second" by (simp add: second_def)
  ultimately show ?thesis
    using accepted_rule_stops_expander [of "demo_event\<lparr>ev_schedule := Some overflow_config\<rparr>" demo_expander mem_svc demo_mem "[demo_event]"]
    by (simp add: demo_fields demo_window del: expand_each.simps)
qed

end
