(* ===== verification/OccurrenceHandlers.thy ===== *)
theory OccurrenceHandlers
  imports Requests OccurrenceRepository EventRepository
begin

text \<open>
  \<open>internal/handlers/occurrence_handler.go\<close>: reading one occurrence, a page of the occurrences of some tags, and the
  occurrences of an event. A query parameter that is absent is \<open>None\<close>. A nil slice and an empty one are both the
  empty list.
\<close>

section \<open>The handlers\<close>

definition GetOccurrence :: "'w svc \<Rightarrow> string \<Rightarrow> ('w, response) state" where
  "GetOccurrence S ids =
     (case parse_int ids of
        None \<Rightarrow> State_Monad.return (Reply 400 (ErrorBody ''Invalid occurrence ID (must be integer)''))
      | Some i \<Rightarrow> State_Monad.bind (occ_GetByID S i)
          (\<lambda>r. State_Monad.return (case r of
             Inl e \<Rightarrow> Reply 500 (ErrorBody ''Failed to get occurrence'')
           | Inr None \<Rightarrow> Reply 404 (ErrorBody ''Occurrence not found'')
           | Inr (Some oc) \<Rightarrow> Reply 200 (OccurrenceBody oc))))"

text \<open>The page number and size: a value that does not parse or is out of range is replaced.\<close>

definition page_param :: "string option \<Rightarrow> int" where
  "page_param q = (case parse_int (case q of None \<Rightarrow> ''1'' | Some s \<Rightarrow> s) of None \<Rightarrow> 1 | Some p \<Rightarrow> if p < 1 then 1 else p)"

definition limit_param :: "string option \<Rightarrow> int" where
  "limit_param q = (case parse_int (case q of None \<Rightarrow> ''50'' | Some s \<Rightarrow> s) of
     None \<Rightarrow> 50 | Some l \<Rightarrow> if l < 1 \<or> 100 < l then 50 else l)"

definition ListOccurrencesByTags :: "'w svc \<Rightarrow> string list \<Rightarrow> string option \<Rightarrow> string option \<Rightarrow> ('w, response) state" where
  "ListOccurrencesByTags S tags pageq limitq =
     (if tags = [] then State_Monad.return (Reply 400 (ErrorBody ''Tags parameter is required''))
      else State_Monad.bind (occ_ListByTags S \<lparr>of_tags = tags, of_page = page_param pageq, of_limit = limit_param limitq\<rparr>)
        (\<lambda>r. State_Monad.return (case r of
           Inl e \<Rightarrow> Reply 500 (ErrorBody ''Failed to list occurrences'')
         | Inr (ocs, n) \<Rightarrow> Reply 200 (PageBody
             \<lparr>pg_data = ocs, pg_page = page_param pageq, pg_limit = limit_param limitq, pg_total = n\<rparr>))))"

definition ListOccurrencesByEvent :: "(string \<Rightarrow> uuid option) \<Rightarrow> 'w svc \<Rightarrow> string \<Rightarrow> ('w, response) state" where
  "ListOccurrencesByEvent up S ids =
     (case up ids of
        None \<Rightarrow> State_Monad.return (Reply 400 (ErrorBody ''Invalid event ID''))
      | Some i \<Rightarrow>
        State_Monad.bind (GetByID S i)
        (\<lambda>r. case r of
           Inl e \<Rightarrow> State_Monad.return (Reply 500 (ErrorBody ''Failed to get event''))
         | Inr None \<Rightarrow> State_Monad.return (Reply 404 (ErrorBody ''Event not found''))
         | Inr (Some ev) \<Rightarrow>
             State_Monad.bind (occ_ListByEventID S i)
             (\<lambda>r2. State_Monad.return (case r2 of
                Inl e \<Rightarrow> Reply 500 (ErrorBody ''Failed to list occurrences'')
              | Inr ocs \<Rightarrow> Reply 200 (OccurrencesBody ocs)))))"

section \<open>Pages\<close>

lemma page_param_range: "1 \<le> page_param q \<and> page_param q < 2 ^ 63"
proof -
  have int64: "is_int64 i" if "parse_int s = Some i" for s i
    using that by (cases s) (auto simp: in_range64_def split: if_splits option.splits)
  then have "parse_int s = Some i \<Longrightarrow> i < 2 ^ 63" for s i by (simp add: is_int64_def)
  from this [of "case q of None \<Rightarrow> ''1'' | Some s \<Rightarrow> s"] show ?thesis by (simp add: page_param_def split: option.split)
qed

lemma limit_param_range: "1 \<le> limit_param q \<and> limit_param q \<le> 100"
  by (auto simp: limit_param_def split: option.split)

text \<open>A page of occurrences is bounded and honest: whatever the parameters, a reply 200 has a page number of at least one,
  a limit between 1 and 100, at most that many occurrences, all of them recorded for the tags, latest first, and the
  total is the number of all of them. As long as the offset fits 64 bits, the page is the slice of the ordered list that starts at
  \<open>(page - 1) * limit\<close>; a reply never changes the stores.\<close>

theorem occurrence_page_bounded:
  assumes "svc_ok S P V" "result_of (ListOccurrencesByTags S tags pageq limitq) w = Reply 200 (PageBody pg)"
  shows "let db = dv V w; w' = after (ListOccurrencesByTags S tags pageq limitq) w in
     dv V w' = db \<and> rv V w' = rv V w \<and> ov V w' = ov V w
   \<and> 1 \<le> pg_page pg \<and> 1 \<le> pg_limit pg \<and> pg_limit pg \<le> 100 \<and> int (length (pg_data pg)) \<le> pg_limit pg
   \<and> set (pg_data pg) \<subseteq> set (tagged_occs db tags) \<and> sorted_wrt (\<lambda>a b. oc_scheduled_at b \<le> oc_scheduled_at a) (pg_data pg)
   \<and> pg_total pg = int (length (tagged_occs db tags))
   \<and> ((pg_page pg - 1) * pg_limit pg < 2 ^ 63 \<longrightarrow> tagged_page db tags (pg_limit pg) ((pg_page pg - 1) * pg_limit pg) (pg_data pg))"
proof -
  let ?p = "page_param pageq" and ?l = "limit_param limitq"
  let ?Q = "\<lambda>r w'. dv V w' = dv V w \<and> rv V w' = rv V w \<and> ov V w' = ov V w \<and> (\<forall>pg. r = Reply 200 (PageBody pg) \<longrightarrow>
     pg_page pg = ?p \<and> pg_limit pg = ?l \<and> pg_total pg = int (length (tagged_occs (dv V w) tags))
     \<and> tagged_page (dv V w) tags ?l (wrap64 (wrap64 (?p - 1) * ?l)) (pg_data pg))"
  have "wp (ListOccurrencesByTags S tags pageq limitq) ?Q w"
    unfolding ListOccurrencesByTags_def
    by (auto intro!: wp_mono [OF occ_ListByTags_wp [OF assms(1)]] split: sum.splits)
  from wp_result [OF this] assms(2) have h: "dv V (after (ListOccurrencesByTags S tags pageq limitq) w) = dv V w"
    "rv V (after (ListOccurrencesByTags S tags pageq limitq) w) = rv V w"
    "ov V (after (ListOccurrencesByTags S tags pageq limitq) w) = ov V w"
    "pg_page pg = ?p" "pg_limit pg = ?l" "pg_total pg = int (length (tagged_occs (dv V w) tags))"
    "tagged_page (dv V w) tags ?l (wrap64 (wrap64 (?p - 1) * ?l)) (pg_data pg)" by simp_all
  from h(7) obtain all off where all: "mset all = mset (tagged_occs (dv V w) tags)"
    "sorted_wrt (\<lambda>a b. oc_scheduled_at b \<le> oc_scheduled_at a) all" "pg_data pg = take (nat ?l) (drop off all)"
    unfolding tagged_page_def by blast
  have "set (pg_data pg) \<subseteq> set all" using all(3) by (metis order_trans set_drop_subset set_take_subset)
  then have sub: "set (pg_data pg) \<subseteq> set (tagged_occs (dv V w) tags)" using all(1) by (metis set_mset_mset)
  have ord: "sorted_wrt (\<lambda>a b. oc_scheduled_at b \<le> oc_scheduled_at a) (pg_data pg)"
    using all(2,3) by (metis append_take_drop_id sorted_wrt_append)
  have len: "int (length (pg_data pg)) \<le> ?l" using all(3) limit_param_range [of limitq] by (simp add: min_def) linarith
  have "wrap64 (wrap64 (?p - 1) * ?l) = (?p - 1) * ?l" if "(?p - 1) * ?l < 2 ^ 63"
  proof -
    have "wrap64 (?p - 1) = ?p - 1" using page_param_range [of pageq] by (intro wrap64_id) (simp add: is_int64_def)
    moreover have "0 \<le> (?p - 1) * ?l" using page_param_range [of pageq] limit_param_range [of limitq] by simp
    ultimately show ?thesis using that by (simp add: is_int64_def wrap64_id)
  qed
  with h sub ord len page_param_range [of pageq] limit_param_range [of limitq] show ?thesis by (auto simp: Let_def)
qed

theorem occurrence_page_bounded_witness:
  "pg_limit \<lparr>pg_data = [demo_occurrence], pg_page = 1, pg_limit = 50, pg_total = 1\<rparr> \<le> 100
   \<and> tagged_page ((m_db demo_mem)\<lparr>db_occs := [demo_occurrence]\<rparr>) [''nightly''] 50 0 [demo_occurrence]"
proof -
  let ?w = "demo_mem\<lparr>m_db := (m_db demo_mem)\<lparr>db_occs := [demo_occurrence]\<rparr>\<rparr>"
  have t: "tagged_occs (m_db ?w) [''nightly''] = [demo_occurrence]"
    by (simp add: tagged_occs_def demo_mem_def no_dbdata_def demo_row_def demo_occurrence_def contains_all_def EventStatusActive_def EventStatusDeleted_def)
  have p: "page_param None = 1" "limit_param (Some ''500'') = 50" by code_simp+
  have "wp (ListOccurrencesByTags mem_svc [''nightly''] None (Some ''500''))
      (\<lambda>r _. r = Reply 200 (PageBody \<lparr>pg_data = [demo_occurrence], pg_page = 1, pg_limit = 50, pg_total = 1\<rparr>)) ?w"
    by (simp add: ListOccurrencesByTags_def p occ_ListByTags_def mem_wp) (simp add: t [simplified] latest_first_def wrap64_def)
  from occurrence_page_bounded [OF mem_svc_ok wp_result [OF this]] show ?thesis by (simp add: Let_def)
qed

end
