(* ===== verification/Archiver.thy ===== *)
theory Archiver
  imports EventRepository
begin

text \<open>
  \<open>internal/scheduler/archiver.go\<close>: one tick of the archival scheduler. Under an advisory lock it looks at the time in Redis
  that the last run left there, calls \<open>archive_old_data\<close> of the schema and writes the next time. \<open>off\<close> is the
  offset of the local time zone, in which the time is written. The logger and the ticker are not modelled.
\<close>

definition archiveLockKey :: int where "archiveLockKey = 12345"
definition lastArchivalTimeKey :: string where "lastArchivalTimeKey = ''archiver:last_archival_time''"

definition acquireArchiveLock :: "'w svc \<Rightarrow> ('w, bool result) state" where
  "acquireArchiveLock S =
     attempt (sql S (TryAdvisoryLock archiveLockKey)) id
     (\<lambda>r. State_Monad.return (case r of DBool b \<Rightarrow> Inr b | _ \<Rightarrow> Inl scan_error))"

definition releaseArchiveLock :: "'w svc \<Rightarrow> ('w, unit result) state" where
  "releaseArchiveLock S = attempt (sql S (AdvisoryUnlock archiveLockKey)) id (\<lambda>_. State_Monad.return (Inr ()))"

definition updateLastArchivalTimeRedis :: "int \<Rightarrow> 'w svc \<Rightarrow> duration \<Rightarrow> ('w, unit result) state" where
  "updateLastArchivalTimeRedis off S checkPeriod = State_Monad.bind (time_now S)
     (\<lambda>now. attempt (redis S (SETKEY lastArchivalTimeKey (format_rfc3339 off (add_dur now checkPeriod)) None)) id
        (\<lambda>_. State_Monad.return (Inr ())))"

definition shouldArchiveRedis :: "int \<Rightarrow> 'w svc \<Rightarrow> duration \<Rightarrow> ('w, bool result) state" where
  "shouldArchiveRedis off S checkPeriod =
     attempt (redis S (GETKEY lastArchivalTimeKey)) id
     (\<lambda>r. case r of
        RNil \<Rightarrow> State_Monad.bind (time_now S)
          (\<lambda>now. attempt (redis S (SETKEY lastArchivalTimeKey (format_rfc3339 off (add_dur now checkPeriod)) None)) id
             (\<lambda>_. State_Monad.return (Inr True)))
      | RStr v \<Rightarrow>
          (case parse_rfc3339 v of
             None \<Rightarrow> State_Monad.return (Inl (Errorf (''parsing time '' @ v)))
           | Some lastTime \<Rightarrow> State_Monad.bind (time_now S)
               (\<lambda>now. State_Monad.return (Inr (\<not> now < lastTime))))
      | _ \<Rightarrow> State_Monad.return (Inl scan_error))"

text \<open>The writing of the retention configuration is switched off in the source.\<close>

definition syncRetentionConfigToDB :: "unit result" where
  "syncRetentionConfigToDB = Inr ()"

definition archive_cycle :: "int \<Rightarrow> 'w svc \<Rightarrow> duration \<Rightarrow> duration \<Rightarrow> ('w, unit) state" where
  "archive_cycle off S checkPeriod retention = do {
     got \<leftarrow> acquireArchiveLock S;
     (case got of
        Inl e \<Rightarrow> State_Monad.return ()
      | Inr False \<Rightarrow> State_Monad.return ()
      | Inr True \<Rightarrow> do {
          run \<leftarrow> shouldArchiveRedis off S checkPeriod;
          (case run of
             Inl e \<Rightarrow> ignore (releaseArchiveLock S)
           | Inr False \<Rightarrow> ignore (releaseArchiveLock S)
           | Inr True \<Rightarrow> do {
               r \<leftarrow> sql S (ArchiveOldData retention);
               (case r of
                  Inl e \<Rightarrow> ignore (releaseArchiveLock S)
                | Inr _ \<Rightarrow> do {
                    _ \<leftarrow> updateLastArchivalTimeRedis off S checkPeriod;
                    ignore (releaseArchiveLock S) }) }) }) }"

section \<open>What archiving does to the tables\<close>

lemma archive_old_data_simps:
  "db_events (archive_old_data now ret db) = filter (\<lambda>r. \<not> no_recent_occ (now - ret) db r) (db_events db)"
  "db_archived_events (archive_old_data now ret db) = db_archived_events db @ filter (no_recent_occ (now - ret) db) (db_events db)"
  "db_archived_occs (archive_old_data now ret db) = db_archived_occs db @ filter (\<lambda>oc. oc_scheduled_at oc < now - ret) (db_occs db)"
  "db_occs (archive_old_data now ret db) = filter (\<lambda>oc. \<not> oc_scheduled_at oc < now - ret) (db_occs db)"
proof -
  let ?cut = "now - ret"
  have same: "no_recent_occ ?cut (db\<lparr>db_archived_occs := x\<rparr>) = no_recent_occ ?cut db"
    "no_recent_occ ?cut (db\<lparr>db_archived_occs := x, db_archived_events := y, db_occs := filter (\<lambda>oc. \<not> oc_scheduled_at oc < ?cut) (db_occs db)\<rparr>)
       = no_recent_occ ?cut db" for x y
    by (simp_all add: no_recent_occ_def list_ex_iff fun_eq_iff) (meson not_less)
  show "db_events (archive_old_data now ret db) = filter (\<lambda>r. \<not> no_recent_occ ?cut db r) (db_events db)"
    "db_archived_events (archive_old_data now ret db) = db_archived_events db @ filter (no_recent_occ ?cut db) (db_events db)"
    "db_archived_occs (archive_old_data now ret db) = db_archived_occs db @ filter (\<lambda>oc. oc_scheduled_at oc < ?cut) (db_occs db)"
    by (simp_all add: archive_old_data_def Let_def same)
  have "\<not> (no_recent_occ ?cut db r \<and> er_id r = oc_event_id oc)"
    if "oc \<in> set (db_occs db)" "\<not> oc_scheduled_at oc < ?cut" for r oc
    using that by (auto simp: no_recent_occ_def list_ex_iff)
  then show "db_occs (archive_old_data now ret db) = filter (\<lambda>oc. \<not> oc_scheduled_at oc < ?cut) (db_occs db)"
    by (simp add: archive_old_data_def Let_def same delete_events_def list_ex_iff) (rule filter_cong, auto)
qed

text \<open>The tables after the archiving with cutoff \<open>cut\<close>.\<close>

definition archived :: "instant \<Rightarrow> dbdata \<Rightarrow> dbdata" where
  "archived cutoff db =
     (let recent = (\<lambda>r. list_ex (\<lambda>oc. oc_event_id oc = er_id r \<and> cutoff \<le> oc_scheduled_at oc) (db_occs db)) in
      db\<lparr>db_occs := filter (\<lambda>oc. cutoff \<le> oc_scheduled_at oc) (db_occs db),
         db_archived_occs := db_archived_occs db @ filter (\<lambda>oc. oc_scheduled_at oc < cutoff) (db_occs db),
         db_events := filter recent (db_events db),
         db_archived_events := db_archived_events db @ filter (\<lambda>r. \<not> recent r) (db_events db)\<rparr>)"

lemma archive_old_data_archived: "archive_old_data now ret db = archived (now - ret) db"
proof -
  have "no_recent_occ (now - ret) db = (\<lambda>r. \<not> list_ex (\<lambda>oc. oc_event_id oc = er_id r \<and> now - ret \<le> oc_scheduled_at oc) (db_occs db))"
    by (simp add: no_recent_occ_def fun_eq_iff)
  moreover have "db_lock (archive_old_data now ret db) = db_lock db" "db_next_occ (archive_old_data now ret db) = db_next_occ db"
    by (simp_all add: archive_old_data_def Let_def delete_events_def)
  ultimately show ?thesis
    by (intro dbdata.equality) (simp_all add: archive_old_data_simps archived_def Let_def not_less)
qed

text \<open>
  What the database calls \<open>now()\<close>: a statement that is issued in the world \<open>w\<close> is carried out at \<open>clk w\<close> by the clock
  of the server.
\<close>

definition db_clock :: "'w svc \<Rightarrow> pg \<Rightarrow> 'w views \<Rightarrow> ('w \<Rightarrow> instant) \<Rightarrow> bool" where
  "db_clock S P V clk \<longleftrightarrow> (\<forall>w st. serves (dv V)
     (\<lambda>d x d'. \<exists>eo oo. (\<forall>rs. mset (eo rs) = mset rs) \<and> (\<forall>os. mset (oo os) = mset os) \<and> sql_sem P (clk w) eo oo st d = Some (x, d'))
     (sql_do S st) w)"

text \<open>The time that the last run left lets the archiver run at \<open>now\<close>.\<close>

definition archival_due :: "instant \<Rightarrow> rdata \<Rightarrow> bool" where
  "archival_due now d = (case rd_strings d lastArchivalTimeKey of
      None \<Rightarrow> True
    | Some v \<Rightarrow> (case parse_rfc3339 v of None \<Rightarrow> False | Some t \<Rightarrow> t \<le> now))"

definition only_string :: "string \<Rightarrow> rdata \<Rightarrow> rdata \<Rightarrow> bool" where
  "only_string k d d' \<longleftrightarrow> (\<exists>m. (\<forall>x. x \<noteq> k \<longrightarrow> m x = rd_strings d x) \<and> d' = d\<lparr>rd_strings := m\<rparr>)"

lemma only_string_refl [simp]: "only_string k d d"
  by (auto simp: only_string_def intro: exI [of _ "rd_strings d"])

lemma only_string_set: "only_string k d0 d \<Longrightarrow> only_string k d0 (d\<lparr>rd_strings := (rd_strings d)(k \<mapsto> v)\<rparr>)"
  unfolding only_string_def by (elim exE, rule exI [of _ "(rd_strings d)(k \<mapsto> v)"]) auto
lemma only_string_trans: "only_string k d d' \<Longrightarrow> only_string k d' d'' \<Longrightarrow> only_string k d d''"
  unfolding only_string_def by (elim exE conjE, rule exI, intro conjI) auto

lemma put_string [simp]: "only_string k d (call (SETKEY k v ttl) d)"
  using only_string_set [OF only_string_refl] by (simp add: call_def)

lemma put_string_here [simp]: "rd_strings (call (SETKEY k v ttl) d) k = Some v"
  by (simp add: call_def)

definition same_stores :: "'w views \<Rightarrow> 'w \<Rightarrow> 'w \<Rightarrow> bool" where
  "same_stores V w w' \<longleftrightarrow> rv V w' = rv V w \<and> dv V w' = dv V w \<and> ov V w' = ov V w"

section \<open>The steps of a cycle\<close>

text \<open>A command that a reliable Redis answers.\<close>

lemma wp_redis_or:
  assumes ok: "svc_ok S P V"
    and suc: "\<And>x w'. redis_sem c (rv V w) = (x, rv V w') \<Longrightarrow> dv V w' = dv V w \<Longrightarrow> ov V w' = ov V w \<Longrightarrow> Q (Inr x) w'"
    and err: "\<And>e w'. \<not> reliable S \<Longrightarrow> rv V w' = rv V w \<or> rv V w' = call c (rv V w) \<Longrightarrow> dv V w' = dv V w \<Longrightarrow> ov V w' = ov V w
      \<Longrightarrow> Q (Inl (Errorf e)) w'"
  shows "wp (redis S c) Q w"
proof (cases "reliable S")
  case True
  then show ?thesis by (rule wp_redis_reliable [OF ok]) (rule suc)
next
  case False
  then show ?thesis by (intro wp_redis [OF ok]) (auto intro: suc err)
qed

lemma acquire_wp:
  assumes "svc_ok S P V"
  shows "wp (acquireArchiveLock S) (\<lambda>r w'. same_stores V w w'
     \<and> (\<forall>b. r = Inr b \<longrightarrow> b = (archiveLockKey \<notin> db_lock (dv V w)))
     \<and> (is_ok (result_of (sql_do S (TryAdvisoryLock archiveLockKey)) w) \<longrightarrow> is_ok r)) w"
proof -
  have "wp (acquireArchiveLock S) (\<lambda>r w'. same_stores V w w' \<and> (\<forall>b. r = Inr b \<longrightarrow> b = (archiveLockKey \<notin> db_lock (dv V w)))) w"
    unfolding acquireArchiveLock_def wp_attempt
    by (rule wp_sql_read [OF assms]) (auto simp: same_stores_def sql_effect_def)
  moreover have "wp (sql S (TryAdvisoryLock archiveLockKey)) (\<lambda>r _. \<forall>x. r = Inr x \<longrightarrow> (\<exists>b. x = DBool b)) w"
    by (rule wp_sql_read [OF assms]) (auto simp: sql_effect_def)
  then have "wp (acquireArchiveLock S) (\<lambda>r _. is_ok (result_of (sql_do S (TryAdvisoryLock archiveLockKey)) w) \<longrightarrow> is_ok r) w"
    unfolding acquireArchiveLock_def wp_attempt
    by (auto simp: wp_def sql_def State_Monad.bind_def result_of_def is_ok_def split: prod.splits sum.splits)
  ultimately show ?thesis by (rule wp_mono [OF wp_conj]) blast
qed

lemma release_wp:
  assumes "svc_ok S P V"
  shows "wp (ignore (releaseArchiveLock S)) (\<lambda>_ w'. same_stores V w w') w"
  unfolding releaseArchiveLock_def wp_ignore wp_attempt
  by (rule wp_sql_read [OF assms]) (auto simp: same_stores_def)

lemma set_time_wp:
  assumes "svc_ok S P V"
  shows "wp (State_Monad.bind (time_now S) (\<lambda>now. attempt (redis S (SETKEY k (f now) None)) id (\<lambda>_. State_Monad.return (Inr x))))
     (\<lambda>r w'. dv V w' = dv V w \<and> ov V w' = ov V w \<and> only_string k (rv V w) (rv V w') \<and> (\<forall>y. r = Inr y \<longrightarrow> y = x)
        \<and> (reliable S \<longrightarrow> r = Inr x \<and> rd_strings (rv V w') k = Some (f (result_of (time_now S) w)))) w"
  unfolding wp_bind wp_attempt
  by (rule wp_time_now [OF assms], rule wp_redis_or [OF assms]) (auto dest!: redis_sem_call simp del: redis_sem.simps)

lemma update_time_wp:
  assumes "svc_ok S P V"
  shows "wp (updateLastArchivalTimeRedis off S p) (\<lambda>_ w'. dv V w' = dv V w \<and> ov V w' = ov V w
     \<and> only_string lastArchivalTimeKey (rv V w) (rv V w')
     \<and> (reliable S \<longrightarrow> rd_strings (rv V w') lastArchivalTimeKey = Some (format_rfc3339 off (add_dur (result_of (time_now S) w) p)))) w"
  unfolding updateLastArchivalTimeRedis_def by (rule wp_mono [OF set_time_wp [OF assms]]) blast

lemma shouldArchive_wp:
  assumes ok: "svc_ok S P V" and now: "now = result_of (time_now S) (after (redis S (GETKEY lastArchivalTimeKey)) w)"
  shows "wp (shouldArchiveRedis off S p) (\<lambda>r w'. dv V w' = dv V w \<and> ov V w' = ov V w
     \<and> only_string lastArchivalTimeKey (rv V w) (rv V w') \<and> (r = Inr True \<longrightarrow> archival_due now (rv V w))
     \<and> (reliable S \<and> archival_due now (rv V w) \<longrightarrow> r = Inr True)) w"
proof -
  let ?key = lastArchivalTimeKey and ?w1 = "after (redis S (GETKEY lastArchivalTimeKey)) w"
  have "wp (redis S (GETKEY ?key)) (\<lambda>r w'. same_stores V w w'
      \<and> (\<forall>x. r = Inr x \<longrightarrow> x = opt_reply (rd_strings (rv V w) ?key)) \<and> (reliable S \<longrightarrow> is_ok r)) w"
    by (rule wp_redis_or [OF ok]) (auto simp: same_stores_def is_ok_def)
  note get = wp_conj [OF this wp_self]
  show ?thesis
    unfolding shouldArchiveRedis_def wp_attempt
  proof (rule wp_mono [OF get], goal_cases)
    case (1 r w1)
    note w1 = 1
    have w1_stores: "rv V w1 = rv V w" "dv V w1 = dv V w" "ov V w1 = ov V w" 
      using 1 unfolding same_stores_def by blast+
    show ?case
    proof (cases r)
      case (Inl e)
      with w1 show ?thesis by (auto simp: same_stores_def is_ok_def)
    next
      case (Inr x)
      show ?thesis
      proof (cases "rd_strings (rv V w) ?key")
        case None
        then have x: "x = RNil" "archival_due now (rv V w)" using w1 Inr by (auto simp: opt_reply_def archival_due_def)
        have "wp (State_Monad.bind (time_now S) (\<lambda>now. attempt (redis S (SETKEY ?key (format_rfc3339 off (add_dur now p)) None)) id
              (\<lambda>_. State_Monad.return (Inr True)))) (\<lambda>r w'. dv V w' = dv V w \<and> ov V w' = ov V w
            \<and> only_string ?key (rv V w) (rv V w') \<and> (r = Inr True \<longrightarrow> archival_due now (rv V w))
            \<and> (reliable S \<and> archival_due now (rv V w) \<longrightarrow> r = Inr True)) w1"
          by (rule wp_mono [OF set_time_wp [OF ok, of ?key "\<lambda>now. format_rfc3339 off (add_dur now p)" True w1]])
            (simp add: w1_stores x(2))
        then show ?thesis unfolding Inr x(1) by (simp del: wp_bind)
      next
        case (Some v)
        then have x: "x = RStr v" using w1 Inr by (auto simp: opt_reply_def)
        have "result_of (time_now S) w1 = now" using w1 unfolding now by blast
        then have "wp (time_now S) (\<lambda>t w'. dv V w' = dv V w \<and> ov V w' = ov V w \<and> only_string ?key (rv V w) (rv V w') \<and> t = now) w1"
          by (intro wp_time_now [OF ok]) (simp add: w1_stores)
        note time = wp_mono [OF this]
        show ?thesis
        proof (cases "parse_rfc3339 v")
          case None
          then show ?thesis unfolding Inr x by (simp add: w1_stores archival_due_def Some)
        next
          case t: (Some t)
          show ?thesis unfolding Inr x by (simp add: t) (rule time, auto simp: archival_due_def Some t not_less)
        qed
      qed
    qed
  qed
qed

lemma archive_wp:
  assumes ok: "svc_ok S P V" and clk: "db_clock S P V clk"
  shows "wp (sql S (ArchiveOldData retention)) (\<lambda>r w'. rv V w' = rv V w \<and> ov V w' = ov V w
     \<and> (dv V w' = dv V w \<and> \<not> is_ok r \<or> dv V w' = archived (clk w - retention) (dv V w))
     \<and> (is_ok (result_of (sql_do S (ArchiveOldData retention)) w) \<longrightarrow> is_ok r)) w"
proof -
  have "wp (sql S (ArchiveOldData retention)) (\<lambda>r w'. rv V w' = rv V w \<and> ov V w' = ov V w) w"
    by (rule wp_sql [OF ok]) simp_all
  moreover have "wp (sql S (ArchiveOldData retention)) (\<lambda>r w'. (dv V w' = dv V w \<and> \<not> is_ok r \<or> dv V w' = archived (clk w - retention) (dv V w))
     \<and> (is_ok (result_of (sql_do S (ArchiveOldData retention)) w) \<longrightarrow> is_ok r)) w"
  proof -
    obtain r w' where r: "run_state (sql_do S (ArchiveOldData retention)) w = (r, w')" by fastforce
    from clk have "serves (dv V) (\<lambda>d x d'. \<exists>eo oo. (\<forall>rs. mset (eo rs) = mset rs) \<and> (\<forall>os. mset (oo os) = mset os)
        \<and> sql_sem P (clk w) eo oo (ArchiveOldData retention) d = Some (x, d')) (sql_do S (ArchiveOldData retention)) w"
      unfolding db_clock_def by blast
    with r have "dv V w' = dv V w \<and> \<not> is_ok r \<or> dv V w' = archived (clk w - retention) (dv V w)"
      by (cases r) (auto simp: serves_def is_ok_def archive_old_data_archived)
    with r show ?thesis by (cases r) (auto simp: wp_def sql_def State_Monad.bind_def result_of_def is_ok_def)
  qed
  ultimately show ?thesis by (rule wp_mono [OF wp_conj]) blast
qed

section \<open>A whole cycle\<close>

text \<open>
  The worlds that a cycle goes through: \<open>reading\<close>, in which the archiver reads the clock to compare it with the time it has
  got from Redis, and \<open>issuing\<close>, in which it issues the statement that archives.
\<close>

definition reading :: "'w svc \<Rightarrow> 'w \<Rightarrow> 'w" where
  "reading S w = after (redis S (GETKEY lastArchivalTimeKey)) (after (acquireArchiveLock S) w)"

definition issuing :: "int \<Rightarrow> 'w svc \<Rightarrow> duration \<Rightarrow> 'w \<Rightarrow> 'w" where
  "issuing off S checkPeriod w = after (shouldArchiveRedis off S checkPeriod) (after (acquireArchiveLock S) w)"

text \<open>What a cycle does: \<open>may\<close> if it may archive, \<open>tables\<close> the tables after archiving, \<open>next\<close> the time it leaves, and
  \<open>answered\<close> if the calls it needs are answered.\<close>

definition cycle_effect :: "'w views \<Rightarrow> bool \<Rightarrow> bool \<Rightarrow> dbdata \<Rightarrow> string \<Rightarrow> 'w \<Rightarrow> 'w \<Rightarrow> bool" where
  "cycle_effect V may answered tables next w w' \<longleftrightarrow> ov V w' = ov V w \<and> only_string lastArchivalTimeKey (rv V w) (rv V w')
     \<and> (dv V w' = dv V w \<or> may \<and> dv V w' = tables)
     \<and> (may \<and> answered \<longrightarrow> dv V w' = tables \<and> rd_strings (rv V w') lastArchivalTimeKey = Some next)"

lemma cycle_release:
  assumes "svc_ok S P V" "cycle_effect V may answered tables next w w1"
  shows "wp (ignore (releaseArchiveLock S)) (\<lambda>_. cycle_effect V may answered tables next w) w1"
  by (rule wp_mono [OF release_wp [OF assms(1)]]) (use assms(2) in \<open>auto simp: same_stores_def cycle_effect_def\<close>)

text \<open>The archiving itself, once the lock is held and the time is due.\<close>

lemma cycle_archive:
  assumes ok: "svc_ok S P V" and clk: "db_clock S P V clk" and may
    and w2: "dv V w2 = dv V w" "ov V w2 = ov V w" "only_string lastArchivalTimeKey (rv V w) (rv V w2)"
    and answered: "answered \<Longrightarrow> reliable S \<and> is_ok (result_of (sql_do S (ArchiveOldData retention)) w2)"
    and next_def: "next = format_rfc3339 off (add_dur (result_of (time_now S) (after (sql S (ArchiveOldData retention)) w2)) checkPeriod)"
  shows "wp (sql S (ArchiveOldData retention)) (\<lambda>r. wp (case r of
      Inl e \<Rightarrow> ignore (releaseArchiveLock S)
    | Inr _ \<Rightarrow> do { _ \<leftarrow> updateLastArchivalTimeRedis off S checkPeriod; ignore (releaseArchiveLock S) })
    (\<lambda>_. cycle_effect V may answered (archived (clk w2 - retention) (dv V w)) next w)) w2"
proof (rule wp_mono [OF wp_conj [OF archive_wp [OF ok clk] wp_self]], goal_cases)
  case (1 r w3)
  show ?case
  proof (cases r)
    case (Inl e)
    then have "cycle_effect V may answered (archived (clk w2 - retention) (dv V w)) next w w3"
      using 1 w2 answered \<open>may\<close> by (auto simp: cycle_effect_def is_ok_def)
    with Inl show ?thesis using cycle_release [OF ok] by simp
  next
    case (Inr x)
    then have w3: "rv V w3 = rv V w2" "ov V w3 = ov V w" "dv V w3 = archived (clk w2 - retention) (dv V w)"
      "w3 = after (sql S (ArchiveOldData retention)) w2" using 1 w2 by (auto simp: is_ok_def)
    show ?thesis
      unfolding Inr sum.case wp_bind
    proof (rule wp_mono [OF update_time_wp [OF ok]], rule cycle_release [OF ok], goal_cases)
      case (1 u w4)
      with w2(3) w3 answered \<open>may\<close> show ?case
        unfolding next_def w3(4) [symmetric] by (auto simp: cycle_effect_def intro: only_string_trans)
    qed
  qed
qed

lemma archive_cycle_wp:
  assumes ok: "svc_ok S P V" and clk: "db_clock S P V clk"
    and may_def: "may \<longleftrightarrow> archiveLockKey \<notin> db_lock (dv V w) \<and> archival_due (result_of (time_now S) (reading S w)) (rv V w)"
    and answered: "answered \<Longrightarrow> reliable S \<and> is_ok (result_of (sql_do S (TryAdvisoryLock archiveLockKey)) w)
       \<and> is_ok (result_of (sql_do S (ArchiveOldData retention)) (issuing off S checkPeriod w))"
    and next_def: "next = format_rfc3339 off (add_dur (result_of (time_now S)
       (after (sql S (ArchiveOldData retention)) (issuing off S checkPeriod w))) checkPeriod)"
  shows "wp (archive_cycle off S checkPeriod retention)
    (\<lambda>_. cycle_effect V may answered (archived (clk (issuing off S checkPeriod w) - retention) (dv V w)) next w) w"
  unfolding archive_cycle_def wp_bind
proof (rule wp_mono [OF wp_conj [OF acquire_wp [OF ok] wp_self]], goal_cases)
  case (1 got w1)
  note w1 = 1
  show ?case
  proof (cases "got = Inr True")
    case False
    with w1 have "cycle_effect V may answered (archived (clk (issuing off S checkPeriod w) - retention) (dv V w)) next w w1"
      using answered by (cases got) (auto simp: same_stores_def cycle_effect_def may_def is_ok_def)
    with False show ?thesis by (auto split: sum.split bool.split)
  next
    case got: True
    have now: "result_of (time_now S) (reading S w) = result_of (time_now S) (after (redis S (GETKEY lastArchivalTimeKey)) w1)"
      using w1 by (simp add: reading_def)
    show ?thesis
      unfolding got sum.case bool.case wp_bind
    proof (rule wp_mono [OF wp_conj [OF shouldArchive_wp [OF ok now] wp_self]], goal_cases)
      case (1 run w2)
      note w2 = 1
      show ?case
      proof (cases "run = Inr True")
        case False
        with w1 w2 have "cycle_effect V may answered (archived (clk (issuing off S checkPeriod w) - retention) (dv V w)) next w w2"
          using answered by (auto simp: same_stores_def cycle_effect_def may_def)
        with False cycle_release [OF ok this] show ?thesis by (auto split: sum.split bool.split)
      next
        case True
        have w2': "issuing off S checkPeriod w = w2" using w1 w2 by (simp add: issuing_def)
        have may using w1 w2 got True by (auto simp: may_def same_stores_def)
        show ?thesis
          unfolding True sum.case bool.case wp_bind w2'
          by (rule cycle_archive [OF ok clk \<open>may\<close>]) (use w1 w2 answered next_def w2' in \<open>auto simp: same_stores_def\<close>)
      qed
    qed
  qed
qed


text \<open>The archiver meets an event that starts next week and has not run, and an event with a run in the last month.\<close>

lemma mem_db_clock: "db_clock mem_svc mem_pg mem_views m_time"
proof -
  have "\<exists>eo oo. (\<forall>rs. mset (eo rs) = mset rs) \<and> (\<forall>os. mset (oo os) = mset os) \<and> sql_sem mem_pg now eo oo st d = Some (x, d')"
    if "sql_sem mem_pg now id id st d = Some (x, d')" for now st d x d'
    using that by (intro exI [of _ id]) simp
  then show ?thesis by (auto simp: db_clock_def serves_def mem_svc_def split: prod.split option.split)
qed

lemma mem_archive_answers:
  "is_ok (result_of (sql_do mem_svc (TryAdvisoryLock k)) w)" "is_ok (result_of (sql_do mem_svc (ArchiveOldData retention)) w)"
  by (simp_all add: mem_svc_def result_of_def)

definition demo_archive :: "mem" where
  "demo_archive = (mem_at (100 * day_ns))\<lparr>m_db := no_dbdata\<lparr>
     db_events := [demo_row\<lparr>er_start_time := 107 * day_ns\<rparr>, demo_row\<lparr>er_id := mem_uuid 5\<rparr>],
     db_occs := [demo_occurrence\<lparr>oc_event_id := mem_uuid 5, oc_scheduled_at := 90 * day_ns\<rparr>,
                 demo_occurrence\<lparr>oc_event_id := mem_uuid 5, oc_scheduled_at := 60 * day_ns\<rparr>]\<rparr>\<rparr>"

lemma demo_archive_issued: "m_time (issuing 0 mem_svc hour demo_archive) = 100 * day_ns"
proof -
  have "wp (acquireArchiveLock mem_svc) (\<lambda>_ w1. wp (shouldArchiveRedis 0 mem_svc hour) (\<lambda>_ w2. m_time w2 = 100 * day_ns) w1) demo_archive"
    by (simp add: acquireArchiveLock_def shouldArchiveRedis_def mem_wp opt_reply_def demo_archive_def no_dbdata_def no_rdata_def)
  from wp_result [OF wp_result [OF this]] show ?thesis by (simp add: issuing_def)
qed


end
