(* ===== verification/Steps.thy ===== *)
theory Steps
  imports EventHandlers OccurrenceHandlers Archiver
begin

text \<open>
  A logic for what a computation of the program does, step by step, to a state that contains the world: it keeps an
  invariant, makes only steps of a given relation, and its result has a given property. The rules for composing are proved once
  (locale \<open>step_logic\<close>), and so is the walk through the handlers, the expander, the repositories, the archiver and the
  dispatcher (locales \<open>program_logic\<close>, \<open>dispatch_logic\<close> and \<open>worker_logic\<close>), from what their calls of the services do. \<open>Typing\<close>
  interprets it with the types of the stores, \<open>Composition\<close> with the runs of \<open>Delivery\<close>.
\<close>

section \<open>The logic\<close>

definition by_steps :: "('s \<Rightarrow> bool) \<Rightarrow> ('s \<Rightarrow> 'w) \<Rightarrow> ('s \<Rightarrow> 's \<Rightarrow> bool) \<Rightarrow> ('w, 'a) state \<Rightarrow> ('a \<Rightarrow> bool) \<Rightarrow> bool" where
  "by_steps I W R m Q \<longleftrightarrow>
     (\<forall>s. I s \<longrightarrow> wp m (\<lambda>x w'. Q x \<and> (\<exists>s'. R s s' \<and> I s' \<and> W s' = w')) (W s))"

named_theorems stepping \<open>rules for computations that keep an invariant step by step\<close>

locale step_logic =
  fixes I :: "'s \<Rightarrow> bool" and W :: "'s \<Rightarrow> 'w" and R :: "'s \<Rightarrow> 's \<Rightarrow> bool"
  assumes step_refl: "R s s"
    and step_trans: "R s s' \<Longrightarrow> R s' s'' \<Longrightarrow> R s s''"

context step_logic
begin

lemma steps_return [stepping]: "Q x \<Longrightarrow> by_steps I W R (State_Monad.return x) Q"
  using step_refl by (auto simp: by_steps_def)

lemma steps_bind:
  assumes "by_steps I W R m P" "\<And>x. P x \<Longrightarrow> by_steps I W R (f x) Q"
  shows "by_steps I W R (State_Monad.bind m f) Q"
proof -
  have "wp m (\<lambda>x w'. wp (f x) (\<lambda>y w''. Q y \<and> (\<exists>s'. R s s' \<and> I s' \<and> W s' = w'')) w') (W s)" if "I s" for s
  proof (rule wp_mono)
    show "wp m (\<lambda>x w'. P x \<and> (\<exists>s'. R s s' \<and> I s' \<and> W s' = w')) (W s)"
      using assms(1) that by (simp add: by_steps_def)
  next
    fix x w' assume "P x \<and> (\<exists>s'. R s s' \<and> I s' \<and> W s' = w')"
    then obtain s' where s': "P x" "R s s'" "I s'" "W s' = w'" by blast
    then have "wp (f x) (\<lambda>y w''. Q y \<and> (\<exists>s''. R s' s'' \<and> I s'' \<and> W s'' = w'')) w'"
      using assms(2) [of x] by (auto simp: by_steps_def)
    then show "wp (f x) (\<lambda>y w''. Q y \<and> (\<exists>s'. R s s' \<and> I s' \<and> W s' = w'')) w'"
      by (rule wp_mono) (use step_trans [OF s'(2)] in blast)
  qed
  then show ?thesis by (simp add: by_steps_def)
qed

lemma steps_mono: "by_steps I W R m P \<Longrightarrow> (\<And>x. P x \<Longrightarrow> Q x) \<Longrightarrow> by_steps I W R m Q"
  unfolding by_steps_def by (blast intro: wp_mono)

lemma steps_any: "by_steps I W R m P \<Longrightarrow> by_steps I W R m (\<lambda>_. True)"
  by (erule steps_mono) simp

lemma steps_ignore [stepping]: "by_steps I W R m (\<lambda>_. True) \<Longrightarrow> by_steps I W R (ignore m) (\<lambda>_. True)"
  unfolding ignore_def by (rule steps_bind) (simp_all add: steps_return)

lemma steps_attempt:
  "by_steps I W R m P \<Longrightarrow> (\<And>e. Q (Inl (f e))) \<Longrightarrow> (\<And>x. P (Inr x) \<Longrightarrow> by_steps I W R (k x) Q)
     \<Longrightarrow> by_steps I W R (attempt m f k) Q"
  unfolding attempt_def by (erule steps_bind) (auto split: sum.split intro: steps_return)

lemma steps_for_each [stepping]:
  "(\<And>x. x \<in> set xs \<Longrightarrow> by_steps I W R (f x) (\<lambda>_. True)) \<Longrightarrow> by_steps I W R (for_each f xs) (\<lambda>_. True)"
  by (induction xs) (auto intro: steps_return steps_bind)

text \<open>After a step whose result may be anything.\<close>

lemma steps_then [stepping]:
  "by_steps I W R m (\<lambda>_. True) \<Longrightarrow> (\<And>x. by_steps I W R (f x) Q) \<Longrightarrow> by_steps I W R (State_Monad.bind m f) Q"
  by (rule steps_bind)

lemma steps_attempt_then [stepping]:
  "by_steps I W R m (\<lambda>_. True) \<Longrightarrow> (\<And>e. Q (Inl (f e))) \<Longrightarrow> (\<And>x. by_steps I W R (k x) Q)
     \<Longrightarrow> by_steps I W R (attempt m f k) Q"
  by (rule steps_attempt)

lemma steps_cases [stepping]:
  "(\<And>e. x = Inl e \<Longrightarrow> by_steps I W R (f e) Q) \<Longrightarrow> (\<And>a. x = Inr a \<Longrightarrow> by_steps I W R (g a) Q)
     \<Longrightarrow> by_steps I W R (case_sum f g x) Q"
  "(y = None \<Longrightarrow> by_steps I W R n Q) \<Longrightarrow> (\<And>a. y = Some a \<Longrightarrow> by_steps I W R (h a) Q)
     \<Longrightarrow> by_steps I W R (case_option n h y) Q"
  "(\<And>a b. p = (a, b) \<Longrightarrow> by_steps I W R (k a b) Q) \<Longrightarrow> by_steps I W R (case_prod k p) Q"
  "(c \<Longrightarrow> by_steps I W R m1 Q) \<Longrightarrow> (\<not> c \<Longrightarrow> by_steps I W R m2 Q) \<Longrightarrow> by_steps I W R (if c then m1 else m2) Q"
  by (auto split: sum.split option.split prod.split)

end

section \<open>What requests and rows carry\<close>

text \<open>
  The contents of an event that can be stored and read again, and encoded in an entry of the queue: the rule's integers are in
  range and the metadata is JSON. \<open>ids\<close> says what the identifiers are.
\<close>

definition content_fits :: "event \<Rightarrow> bool" where
  "content_fits ev \<longleftrightarrow> storable ev \<and> wf_json (ev_metadata ev)"

definition event_fits :: "(uuid \<Rightarrow> bool) \<Rightarrow> event \<Rightarrow> bool" where
  "event_fits ids ev \<longleftrightarrow> content_fits ev \<and> ids (ev_id ev)"

definition row_typed :: "event_row \<Rightarrow> bool" where
  "row_typed r \<longleftrightarrow> is_ok (event_of_row r) \<and> wf_json (er_metadata r)"

definition row_fits :: "(uuid \<Rightarrow> bool) \<Rightarrow> event_row \<Rightarrow> bool" where
  "row_fits ids r \<longleftrightarrow> row_typed r \<and> ids (er_id r)"

text \<open>The integers of a decoded rule are in range, so a rule that was read can be written again.\<close>

lemma decode_field_inv:
  assumes "decode_field dec d vs = Some x" "Q d" "\<And>v y. dec v = Some y \<Longrightarrow> Q y"
  shows "Q x"
proof -
  let ?f = "\<lambda>acc v. case acc of None \<Rightarrow> None | Some a \<Rightarrow> if v = JNull then Some a else dec v"
  have "foldl ?f acc vs = Some x \<Longrightarrow> pred_option Q acc \<Longrightarrow> Q x" for acc
  proof (induction vs arbitrary: acc)
    case (Cons v vs)
    from Cons.prems have "pred_option Q (?f acc v)" using assms(3) by (cases acc) (auto simp: pred_option_def)
    with Cons show ?case by simp
  qed simp
  with assms(1,2) show ?thesis by (simp add: decode_field_def)
qed

lemma decode_ptr_inv:
  assumes "decode_ptr dec vs = Some x" "\<And>v y. dec v = Some y \<Longrightarrow> Q y"
  shows "pred_option Q x"
proof -
  let ?f = "\<lambda>acc v. case acc of None \<Rightarrow> None | Some a \<Rightarrow> if v = JNull then Some None else map_option Some (dec v)"
  have "foldl ?f acc vs = Some x \<Longrightarrow> pred_option (pred_option Q) acc \<Longrightarrow> pred_option Q x" for acc
  proof (induction vs arbitrary: acc)
    case (Cons v vs)
    from Cons.prems have "pred_option (pred_option Q) (?f acc v)" using assms(2) by (cases acc) (auto simp: pred_option_def)
    with Cons show ?case by simp
  qed simp
  with assms(1) show ?thesis by (simp add: decode_ptr_def)
qed

lemma those_Some: "those xs = Some ys \<longleftrightarrow> xs = map Some ys"
proof (induction xs arbitrary: ys)
  case (Cons x xs)
  then show ?case by (cases x; cases ys) (auto simp: Option.bind_def split: option.splits)
qed auto

lemma dec_int_range: "dec_int j = Some i \<Longrightarrow> is_int64 i"
proof (cases j)
  case (JNum l)
  moreover assume "dec_int j = Some i"
  ultimately show ?thesis
    by (cases l) (auto simp: in_range64_def split: if_splits option.splits)
qed simp_all

lemma dec_ints_range:
  assumes "dec_list dec_int 0 j = Some is"
  shows "list_all is_int64 is"
proof (cases j)
  case (JArr vs)
  with assms have v: "map (\<lambda>v. if v = JNull then Some 0 else dec_int v) vs = map Some is" by (simp add: those_Some)
  have "is_int64 i" if "i \<in> set is" for i
  proof -
    from that have "Some i \<in> set (map Some is)" by simp
    then have "Some i \<in> set (map (\<lambda>v. if v = JNull then Some 0 else dec_int v) vs)" by (simp only: v)
    then show ?thesis by (auto dest!: dec_int_range [OF sym] simp: is_int64_def [of 0] split: if_splits)
  qed
  then show ?thesis by (simp add: list_all_iff)
qed (use assms in simp_all)

lemma decoded_schedule_ok:
  assumes "dec_schedule_config j = Some sc"
  shows "ok_schedule_config sc"
proof -
  have zero: "ok_schedule_config zero_schedule_config" by (simp add: ok_schedule_config_def zero_schedule_config_def is_int64_def)
  have obj: "ok_schedule_config sc" if
    "(let v = (\<lambda>n. values_of schedule_config_fields n kvs) in
        do { f \<leftarrow> decode_field dec_string [] (v ''frequency'');
             i \<leftarrow> decode_field dec_int 0 (v ''interval'');
             bd \<leftarrow> decode_field (dec_list dec_string []) [] (v ''by_day'');
             bm \<leftarrow> decode_field (dec_list dec_int 0) [] (v ''by_month'');
             bmd \<leftarrow> decode_field (dec_list dec_int 0) [] (v ''by_month_day'');
             c \<leftarrow> decode_ptr dec_int (v ''count'');
             u \<leftarrow> decode_ptr dec_string (v ''until'');
             Some \<lparr>frequency = f, interval = i, by_day = bd, by_month = bm, by_month_day = bmd,
                   count_limit = c, until_text = u\<rparr> }) = Some sc" for kvs
    using that unfolding Let_def bind_eq_Some_conv
    by (auto simp: ok_schedule_config_def pred_option_def is_int64_def [of 0] split: option.split
        elim!: decode_field_inv [where Q = is_int64] decode_field_inv [where Q = "list_all is_int64"]
        dest!: decode_ptr_inv [where Q = is_int64] dec_int_range dec_ints_range)
  show ?thesis
    using assms zero obj unfolding dec_schedule_config_def by (cases j) (auto simp only: dec_struct.simps option.inject)
qed

lemma dec_ptr_schedule: "decode_ptr dec_schedule_config vs = Some (Some sc) \<Longrightarrow> ok_schedule_config sc"
  by (drule decode_ptr_inv [where Q = ok_schedule_config]) (auto dest: decoded_schedule_ok)

lemma create_request_schedule: "dec_create_request j = Some req \<Longrightarrow> cr_schedule req = Some sc \<Longrightarrow> ok_schedule_config sc"
  unfolding dec_create_request_def
  by (cases j) (auto simp: Let_def bind_eq_Some_conv dest: dec_ptr_schedule)

lemma update_request_schedule: "dec_update_request j = Some req \<Longrightarrow> ur_schedule req = Some sc \<Longrightarrow> ok_schedule_config sc"
  unfolding dec_update_request_def
  by (cases j) (auto simp: Let_def bind_eq_Some_conv zero_update_request_def dest: dec_ptr_schedule)

text \<open>The metadata of a request is a part of its body.\<close>

lemma decode_body_wf: "decode_body s = Some j \<Longrightarrow> wf_json j"
  by (auto simp: decode_body_def simp del: json_value.simps dest: json_value_wf)

lemma raw_member_wf:
  assumes "list_all (\<lambda>kv. wf_json (snd kv)) kvs" "decode_raw (values_of names n kvs) = Some j"
  shows "wf_json j"
proof -
  have "j \<in> set (values_of names n kvs)"
    using assms(2) by (auto simp: decode_raw_def split: if_splits)
  then show ?thesis using assms(1) by (auto simp: values_of_def list_all_iff)
qed

lemma create_request_metadata: "dec_create_request j = Some req \<Longrightarrow> wf_json j \<Longrightarrow> cr_metadata req = Some m \<Longrightarrow> wf_json m"
  unfolding dec_create_request_def
  by (cases j) (auto simp: Let_def bind_eq_Some_conv dest: raw_member_wf)

lemma update_request_metadata: "dec_update_request j = Some req \<Longrightarrow> wf_json j \<Longrightarrow> ur_metadata req = Some m \<Longrightarrow> wf_json m"
  unfolding dec_update_request_def
  by (cases j) (auto simp: Let_def bind_eq_Some_conv zero_update_request_def dest: raw_member_wf)

lemma created_content_fits: "bind_create body = Inr req \<Longrightarrow> content_fits (event_of_request req a wh)"
  by (auto simp: bind_create_def bind_json_def content_fits_def storable_def event_of_request_def split: option.splits if_splits
      dest: create_request_schedule create_request_metadata [OF _ decode_body_wf])

lemma updated_content_fits:
  assumes "bind_update body = Inr req" "content_fits ev" "apply_action req (apply_basics req ev) = Inr ev1"
  shows "content_fits (apply_rest req (ev1\<lparr>ev_metadata := (case ur_metadata req of None \<Rightarrow> ev_metadata ev1 | Some m \<Rightarrow> m)\<rparr>))"
    "ev_id ev1 = ev_id ev"
proof -
  have same: "ev_schedule ev1 = ev_schedule ev" "ev_metadata ev1 = ev_metadata ev" "ev_id ev1 = ev_id ev"
    using assms(3) by (auto simp: apply_action_def apply_basics_def split: option.splits sum.splits)
  with assms(1,2) show "content_fits (apply_rest req (ev1\<lparr>ev_metadata := (case ur_metadata req of None \<Rightarrow> ev_metadata ev1 | Some m \<Rightarrow> m)\<rparr>))"
    by (auto simp: bind_update_def bind_json_def content_fits_def storable_def apply_rest_def split: option.splits if_splits
        dest: update_request_schedule update_request_metadata [OF _ decode_body_wf])
  show "ev_id ev1 = ev_id ev" by (rule same)
qed

text \<open>Rows and events.\<close>

lemma row_typed_columns:
  "row_typed r \<longleftrightarrow> is_ok (scan_column dec_schedule_config (er_schedule r)) \<and> is_ok (scan_column dec_action (er_action r))
     \<and> wf_json (er_metadata r)"
  by (auto simp: row_typed_def event_of_row_def split: sum.split)

lemma row_event: "event_of_row r = Inr ev \<Longrightarrow> row_fits ids r \<Longrightarrow> event_fits ids ev"
  by (auto simp: event_of_row_def scan_column_def storable_def row_fits_def row_typed_def event_fits_def content_fits_def
      dest: decoded_schedule_ok split: sum.splits option.splits)

lemma rows_events: "events_of_rows rs = Inr evs \<Longrightarrow> list_all (row_fits ids) rs \<Longrightarrow> list_all (event_fits ids) evs"
  by (induction rs arbitrary: evs) (auto split: sum.splits intro: row_event)

lemma populate_content [simp]:
  "ev_metadata (populateWebhookFromAction ev) = ev_metadata ev" "ev_schedule (populateWebhookFromAction ev) = ev_schedule ev"
  "ev_id (populateWebhookFromAction ev) = ev_id ev"
  by (simp_all add: populateWebhookFromAction_def split: option.split sum.split)

lemma derive_content [simp]: "ev_metadata (deriveAndSetAction ev) = ev_metadata ev"
  by (simp add: deriveAndSetAction_def)

lemma populate_fits [simp]: "event_fits ids (populateWebhookFromAction ev) \<longleftrightarrow> event_fits ids ev"
  by (simp add: event_fits_def content_fits_def storable_def)

section \<open>Statements and replies\<close>

text \<open>The values of a row that a statement writes.\<close>

definition typed_columns :: "json option \<Rightarrow> json option \<Rightarrow> bool" where
  "typed_columns sch act \<longleftrightarrow> (\<exists>s. sch = map_option enc_schedule_config s \<and> pred_option ok_schedule_config s)
     \<and> (\<exists>a. act = map_option enc_action a)"

fun stmt_fits :: "(uuid \<Rightarrow> bool) \<Rightarrow> stmt \<Rightarrow> bool" where
  "stmt_fits ids (InsertEvent i n de sch st m wh tags status ca ua act) \<longleftrightarrow> typed_columns sch act \<and> wf_json m \<and> ids i"
| "stmt_fits ids (UpdateEventRow n de sch st m wh tags status ua act i) \<longleftrightarrow> typed_columns sch act \<and> wf_json m"
| "stmt_fits ids (InsertEventPlain i n de st wh m sch tags status hs) \<longleftrightarrow> typed_columns sch None \<and> wf_json m \<and> ids i"
| "stmt_fits ids _ \<longleftrightarrow> True"

fun reply_fits :: "(uuid \<Rightarrow> bool) \<Rightarrow> dbreply \<Rightarrow> bool" where
  "reply_fits ids (DEvents rs) \<longleftrightarrow> list_all (row_fits ids) rs"
| "reply_fits ids (DIds js) \<longleftrightarrow> list_all ids js"
| "reply_fits ids _ \<longleftrightarrow> True"

lemma columns_typed:
  "storable ev \<Longrightarrow> typed_columns (map_option enc_schedule_config (ev_schedule ev)) (map_option enc_action a)"
  unfolding typed_columns_def
  by (intro conjI exI [of _ "ev_schedule ev"] exI [of _ a]) (auto simp: storable_def split: option.splits)
section \<open>The walk through the program\<close>

text \<open>The commands on plain keys.\<close>

fun string_command :: "rcmd \<Rightarrow> bool" where
  "string_command (GETKEY k) \<longleftrightarrow> True"
| "string_command (SETKEY k v t) \<longleftrightarrow> True"
| "string_command _ \<longleftrightarrow> False"

text \<open>
  What the walk rests on: statements that fit give replies that fit; reading the clock, a new identifier and the plain keys are
  steps; and so are the scheduling of a new occurrence of an event that fits and the removal of an event's entries.
\<close>

locale program_logic = step_logic I W R
  for I :: "'s \<Rightarrow> bool" and W :: "'s \<Rightarrow> 'w" and R :: "'s \<Rightarrow> 's \<Rightarrow> bool" +
  fixes S :: "'w svc" and up :: "string \<Rightarrow> uuid option" and pre :: string and ids :: "uuid \<Rightarrow> bool"
  assumes sql_fits: "stmt_fits ids st \<Longrightarrow> by_steps I W R (sql S st) (pred_sum (\<lambda>_. True) (reply_fits ids))"
    and time_steps: "by_steps I W R (time_now S) (\<lambda>_. True)"
    and uuid_steps: "by_steps I W R (new_uuid S) ids"
    and string_steps: "string_command c \<Longrightarrow> by_steps I W R (redis S c) (\<lambda>_. True)"
    and schedule_steps: "event_fits ids ev \<Longrightarrow> by_steps I W R
          (State_Monad.bind (new_uuid S) (\<lambda>oid. scheduleWithRetry S pre (pending_occurrence oid (ev_id ev) t now) ev)) (\<lambda>_. True)"
    and remove_steps: "by_steps I W R (RemoveEventOccurrencesFromRedis up S pre i) (\<lambda>_. True)"

context program_logic
begin

lemmas leaf_steps [stepping] = time_steps steps_any [OF uuid_steps] string_steps remove_steps

lemma sql_steps [stepping]: "stmt_fits ids st \<Longrightarrow> by_steps I W R (sql S st) (\<lambda>_. True)"
  by (rule steps_any [OF sql_fits])

text \<open>The repositories.\<close>

lemma Create_steps: "content_fits ev \<Longrightarrow> by_steps I W R (Create S ev) (pred_sum (\<lambda>_. True) (event_fits ids))"
  unfolding Create_def Let_def
  by (intro steps_then [OF time_steps] steps_bind [OF uuid_steps] steps_attempt [OF sql_fits] steps_return)
    (auto simp: content_fits_def event_fits_def storable_def intro!: columns_typed split: dbreply.splits list.splits)

lemma Update_steps: "event_fits ids ev \<Longrightarrow> by_steps I W R (Update S ev) (pred_sum (\<lambda>_. True) (event_fits ids))"
  unfolding Update_def Let_def
  by (intro steps_then [OF time_steps] steps_attempt [OF sql_fits] steps_return)
    (auto simp: content_fits_def event_fits_def storable_def intro!: columns_typed split: dbreply.splits if_splits)

lemma GetByID_steps: "by_steps I W R (GetByID S i) (pred_sum (\<lambda>_. True) (pred_option (event_fits ids)))"
  unfolding GetByID_def
  by (rule steps_attempt [OF sql_fits])
    (auto split: dbreply.split list.split sum.split dest: row_event intro!: steps_return)

lemma list_events_steps:
  "stmt_fits ids st \<Longrightarrow> by_steps I W R (list_events S st ctx) (pred_sum (\<lambda>_. True) (list_all (event_fits ids)))"
  unfolding list_events_def
  by (rule steps_attempt [OF sql_fits])
    (auto split: dbreply.split sum.split simp: list.pred_map comp_def dest!: rows_events intro!: steps_return)

lemma occurrence_steps [stepping]:
  "by_steps I W R (occ_GetByID S n) (\<lambda>_. True)" "by_steps I W R (occ_ListByTags S f) (\<lambda>_. True)"
  "by_steps I W R (occ_ListByEventID S i) (\<lambda>_. True)" "by_steps I W R (ExistsAtTime S i t) (\<lambda>_. True)"
  "by_steps I W R (CountCompletedByEventID S i) (\<lambda>_. True)" "by_steps I W R (occ_Create S oc) (\<lambda>_. True)"
  unfolding occ_GetByID_def occ_ListByTags_def occ_ListByEventID_def ExistsAtTime_def CountCompletedByEventID_def occ_Create_def
  by (intro stepping TrueI; auto intro!: stepping split: dbreply.split)+

lemma Delete_steps [stepping]: "by_steps I W R (Delete up S pre i) (\<lambda>_. True)"
  unfolding Delete_def by (intro stepping) simp_all

text \<open>The expander.\<close>

lemma schedule_time_steps: "event_fits ids ev \<Longrightarrow> by_steps I W R (schedule_time S pre now ev t) (\<lambda>_. True)"
  unfolding schedule_time_def by (intro schedule_steps stepping TrueI)

lemma bind_assoc: "State_Monad.bind m (\<lambda>x. State_Monad.bind (f x) g) = State_Monad.bind (State_Monad.bind m f) g"
  by (simp add: State_Monad.bind_def split_def)

lemma expandEvent_steps:
  assumes "event_fits ids ev" "ex_prefix X = pre"
  shows "by_steps I W R (expandEvent S X ev) (\<lambda>_. True)"
proof -
  have rec: "by_steps I W R (run_option (expand_recurring_at S X sc ev now)) (\<lambda>_. True)" for sc now
    unfolding run_option_def expand_recurring_at_def assms(2)
    by (auto split: option.split sum.split intro!: stepping schedule_time_steps assms(1))
  have once: "by_steps I W R (expand_non_recurring_at S X ev now) (\<lambda>_. True)" for now
    unfolding expand_non_recurring_at_def Let_def assms(2) bind_assoc by (intro schedule_steps stepping assms(1) TrueI)
  show ?thesis
    unfolding expandEvent_def expandRecurringEvent_def expandNonRecurringEvent_def by (intro stepping rec once TrueI)
qed

lemma expand_each_steps:
  "list_all (event_fits ids) evs \<Longrightarrow> ex_prefix X = pre \<Longrightarrow> by_steps I W R (expand_each S X evs) (\<lambda>_. True)"
  by (induction evs) (auto intro!: stepping expandEvent_steps)

lemma ExpandEvents_steps: "ex_prefix X = pre \<Longrightarrow> by_steps I W R (ExpandEvents S X) (\<lambda>_. True)"
  unfolding ExpandEvents_def ListActive_def
  by (rule steps_bind [OF list_events_steps]) (auto split: sum.split intro!: stepping expand_each_steps)

lemma archive_cycle_steps [stepping]: "by_steps I W R (archive_cycle off S period ret) (\<lambda>_. True)"
  unfolding archive_cycle_def acquireArchiveLock_def releaseArchiveLock_def shouldArchiveRedis_def updateLastArchivalTimeRedis_def
  by (intro stepping TrueI; auto intro!: stepping split: dbreply.split rreply.split bool.split)

end
text \<open>The handlers. An event that they leave to a goroutine fits.\<close>

definition job_fits :: "(uuid \<Rightarrow> bool) \<Rightarrow> 'r \<times> event option \<Rightarrow> bool" where
  "job_fits ids x \<longleftrightarrow> pred_option (event_fits ids) (snd x)"

lemma job_fits_simps [simp]: "job_fits ids (r, None)" "job_fits ids (r, Some ev) \<longleftrightarrow> event_fits ids ev"
  by (simp_all add: job_fits_def)

context program_logic
begin

lemma CreateEvent_steps: "by_steps I W R (CreateEvent S X body) (job_fits ids)"
  unfolding CreateEvent_def
  by (intro stepping steps_bind [OF Create_steps] created_content_fits) auto

lemma update_found_steps:
  assumes "bind_update body = Inr req" "event_fits ids ev" "ex_prefix X = pre"
  shows "by_steps I W R (update_found up S X req ev) (job_fits ids)"
proof -
  have fits: "event_fits ids (apply_rest req (ev1\<lparr>ev_metadata := (case ur_metadata req of None \<Rightarrow> ev_metadata ev1 | Some m \<Rightarrow> m)\<rparr>))"
    if "apply_action req (apply_basics req ev) = Inr ev1" for ev1
    using updated_content_fits [OF assms(1) _ that] assms(2) by (simp add: event_fits_def apply_rest_def)
  have early: "by_steps I W R (start_time_replies S req e) (\<lambda>_. True)" for e
    unfolding start_time_replies_def by (intro stepping TrueI)
  show ?thesis
    unfolding update_found_def Let_def assms(3)
    by (intro stepping early steps_bind [OF Update_steps] fits) auto
qed

lemma UpdateEvent_steps: "ex_prefix X = pre \<Longrightarrow> by_steps I W R (UpdateEvent up S X i body) (job_fits ids)"
  unfolding UpdateEvent_def
  by (intro steps_cases steps_return steps_bind [OF GetByID_steps] update_found_steps) auto

lemma reading_steps [stepping]:
  "by_steps I W R (EventHandlers.GetEvent up S i) (\<lambda>_. True)" "by_steps I W R (ListEventsByTags S tags) (\<lambda>_. True)"
  "by_steps I W R (GetOccurrence S i) (\<lambda>_. True)" "by_steps I W R (ListOccurrencesByTags S ts page limit) (\<lambda>_. True)"
  "by_steps I W R (ListOccurrencesByEvent up S i) (\<lambda>_. True)"
  unfolding EventHandlers.GetEvent_def ListEventsByTags_def ListAll_def ListByTags_def GetOccurrence_def ListOccurrencesByTags_def
    ListOccurrencesByEvent_def
  by (intro stepping steps_any [OF GetByID_steps] steps_any [OF list_events_steps] TrueI; simp)+

lemma DeleteEvent_steps:
  assumes "ex_prefix X = pre"
  shows "by_steps I W R (DeleteEvent up S X i) (\<lambda>_. True)"
  unfolding DeleteEvent_def assms by (intro stepping TrueI)

lemma background_steps:
  "pred_option (event_fits ids) job \<Longrightarrow> ex_prefix X = pre \<Longrightarrow> by_steps I W R (background S X job) (\<lambda>_. True)"
  unfolding background_def by (intro stepping expandEvent_steps) auto

end

section \<open>The dispatcher\<close>

text \<open>The commands that only take something away, and those that are not a script.\<close>

fun removal_command :: "rcmd \<Rightarrow> bool" where
  "removal_command (ZREM k m) = True"
| "removal_command (HDEL k f) = True"
| "removal_command _ = False"

fun plain_command :: "rcmd \<Rightarrow> bool" where
  "plain_command (EVAL f) = False"
| "plain_command _ = True"

locale dispatch_logic = program_logic +
  assumes removal_steps: "removal_command c \<Longrightarrow> by_steps I W R (redis S c) (\<lambda>_. True)"
    and http_steps: "by_steps I W R (http_do S q) (\<lambda>_. True)"
    and notify_steps: "by_steps I W R (notify_client S n p) (\<lambda>_. True)"

context dispatch_logic
begin

lemmas send_steps [stepping] = removal_steps http_steps notify_steps

lemma Execute_steps [stepping]: "by_steps I W R (Execute (dispatch_manager S hmac re) ev) (\<lambda>_. True)"
proof -
  have send: "by_steps I W R (send_request S q f ctx) (\<lambda>_. True)" for q f ctx
    unfolding send_request_def by (intro stepping TrueI)
  show ?thesis
    by (auto simp: Execute_def dispatch_manager_def Register_def NewActionsManager_def WebhookExecutor_def
        WebsocketExecutor_def APICallExecutor_def intro!: stepping send split: option.split sum.split)
qed

lemma auto_inactivate_steps: "event_fits ids ev \<Longrightarrow> by_steps I W R (auto_inactivate S ev r) (\<lambda>_. True)"
  unfolding auto_inactivate_def inactivate_def recurring_finished_def until_passed_def
  by (intro stepping steps_any [OF Update_steps] TrueI) (auto simp: event_fits_def content_fits_def storable_def)

lemma logErr_steps [stepping]: "by_steps I W R (logErrOccurrence S sched b e) (\<lambda>_. True)"
  unfolding logErrOccurrence_def by (intro stepping)

lemma DispatchAction_steps [stepping]: "by_steps I W R (DispatchAction S D sched) (\<lambda>_. True)"
  unfolding DispatchAction_def Let_def
  by (rule steps_bind [OF GetByID_steps]) (intro stepping auto_inactivate_steps TrueI; simp)

end

text \<open>The whole turn of a worker, where any command is a step.\<close>

locale worker_logic = dispatch_logic +
  assumes plain_steps: "plain_command c \<Longrightarrow> by_steps I W R (redis S c) (\<lambda>_. True)"

context worker_logic
begin

lemmas command_steps [stepping] = plain_steps

lemma process_item_steps [stepping]: "by_steps I W R (process_item up S D item) (\<lambda>_. True)"
  unfolding process_item_def retry_later_def Let_def by (intro stepping TrueI) simp

lemma worker_turn_steps: "by_steps I W R (worker_turn up S D) (\<lambda>_. True)"
  unfolding worker_turn_def by (intro stepping) (auto intro!: stepping split: rreply.split list.split)

end

end
