(* ===== verification/Typing.thy ===== *)
theory Typing
  imports Steps
begin

text \<open>
  The types of what the program stores: the sorted sets of Redis are ordered and without duplicates, the keys of the
  tables are unique and refer to each other, the columns of every event row decode into an event, and its metadata is JSON. Every
  operation of the handlers, the expander, the dispatcher and the archiver keeps the stores typed, so that none of them ever
  fails on a row that another one wrote. The same holds for any property of the identifiers that the new ones have.
\<close>

section \<open>Typed stores\<close>

definition tables_typed :: "dbdata \<Rightarrow> bool" where
  "tables_typed db \<longleftrightarrow> db_ok db \<and> (\<forall>r \<in> set (db_events db). row_typed r)"

definition stores_typed :: "'w views \<Rightarrow> 'w \<Rightarrow> bool" where
  "stores_typed V w \<longleftrightarrow> rdata_ok (rv V w) \<and> tables_typed (dv V w)"

definition stores_fit :: "'w views \<Rightarrow> (uuid \<Rightarrow> bool) \<Rightarrow> 'w \<Rightarrow> bool" where
  "stores_fit V ids w \<longleftrightarrow> stores_typed V w \<and> (\<forall>r \<in> set (db_events (dv V w)). ids (er_id r))"

lemma stores_fit_rows:
  "stores_fit V ids w \<longleftrightarrow> rdata_ok (rv V w) \<and> db_ok (dv V w) \<and> list_all (row_fits ids) (db_events (dv V w))"
  by (auto simp: stores_fit_def stores_typed_def tables_typed_def row_fits_def list_all_iff)

section \<open>Statements and commands\<close>

lemma columns_decode:
  assumes "pg_ok P" "typed_columns sch act"
  shows "is_ok (scan_column dec_schedule_config (map_option (pg_jsonb P) sch))" "is_ok (scan_column dec_action (map_option (pg_jsonb P) act))"
proof -
  have jb: "jsonb_ok (pg_jsonb P)" using assms(1) by (simp add: pg_ok_def)
  show "is_ok (scan_column dec_schedule_config (map_option (pg_jsonb P) sch))"
    using assms(2) jsonb_schedule_config [OF jb]
    by (auto simp: typed_columns_def scan_column_def option.map_comp pred_option_def split: option.split)
  show "is_ok (scan_column dec_action (map_option (pg_jsonb P) act))"
    using assms(2) jsonb_action [OF jb] by (auto simp: typed_columns_def scan_column_def option.map_comp split: option.split)
qed

lemma jsonb_wf: "pg_ok P \<Longrightarrow> wf_json j \<Longrightarrow> wf_json (pg_jsonb P j)"
  unfolding pg_ok_def jsonb_ok_def by blast

text \<open>Every statement of the program keeps the tables typed, and what it replies fits.\<close>

lemma sql_sem_fits:
  assumes pg: "pg_ok P" and st: "stmt_fits ids st" and rows: "list_all (row_fits ids) (db_events db)"
    and run: "sql_sem P now eo oo st db = Some (x, db')" and perm: "\<And>rs. mset (eo rs) = mset rs"
  shows "list_all (row_fits ids) (db_events db')" "reply_fits ids x"
proof -
  have set_eo: "set (eo rs) = set rs" for rs using perm by (metis set_mset_mset)
  show "list_all (row_fits ids) (db_events db')"
  proof (cases st)
    case (InsertEvent i n de sch st' m wh tags status ca ua act)
    with st run rows columns_decode [OF pg, of sch act] jsonb_wf [OF pg] show ?thesis
      by (auto simp: row_fits_def row_typed_columns split: option.splits if_splits)
  next
    case (InsertEventPlain i n de st' wh m sch tags status hs)
    with st run rows columns_decode [OF pg, of sch None] jsonb_wf [OF pg] show ?thesis
      by (auto simp: row_fits_def row_typed_columns split: option.splits if_splits)
  next
    case (UpdateEventRow n de sch st' m wh tags status ua act i)
    with st run rows columns_decode [OF pg, of sch act] jsonb_wf [OF pg] show ?thesis
      by (auto simp: row_fits_def row_typed_columns list_all_iff split: option.splits if_splits)
  next
    case (TouchEvent t i)
    with run rows show ?thesis by (auto simp: row_fits_def row_typed_columns list_all_iff split: if_splits)
  next
    case (ArchiveOldData ret)
    with run rows show ?thesis by (auto simp: archive_old_data_simps list_all_iff)
  qed (use run rows in \<open>auto simp: list_all_iff split: if_splits option.splits\<close>)
  show "reply_fits ids x"
    using run rows st by (cases st) (auto simp: newest_first_def set_eo list_all_iff row_fits_def split: if_splits option.splits list.splits)
qed

lemma sql_effect_fits:
  assumes "pg_ok P" "stmt_fits ids st" "sql_effect P st db x db'" "list_all (row_fits ids) (db_events db)" "db_ok db"
  shows "list_all (row_fits ids) (db_events db')" "db_ok db'" "reply_fits ids x"
  using sql_sem_fits [OF assms(1,2,4)] sql_sem_ok assms(3,5) unfolding sql_effect_def by metis+

text \<open>The commands of Redis and the scripts keep the sorted sets ordered.\<close>

lemma call_typed: "plain_command c \<Longrightarrow> rdata_ok d \<Longrightarrow> rdata_ok (call c d)"
  by (cases c) (auto simp: call_def rdata_ok_def intro!: zadd_ok zrem_ok split: list.split)

lemma lua_retry_typed: "rdata_ok d \<Longrightarrow> rdata_ok (lua_retry z q vs d)"
  by (induction z q vs d rule: lua_retry.induct) (auto intro!: codec_intros)

lemma lua_move_typed: "rdata_ok d \<Longrightarrow> rdata_ok (snd (lua_move z h q ks n d))"
  by (induction z h q ks n d rule: lua_move.induct) (auto intro!: codec_intros split: option.split)

lemma scripts_typed:
  "rdata_ok d \<Longrightarrow> rdata_ok (call (EVAL (scheduleLua z h q now)) d)"
  "rdata_ok d \<Longrightarrow> rdata_ok (call (EVAL (retryLua z q now)) d)"
  by (simp_all add: call_def scheduleLua_def retryLua_def case_prod_unfold Let_def lua_move_typed lua_retry_typed)

section \<open>Services\<close>

text \<open>Services that do what they are documented to do. \<open>issued\<close> are the identifiers given out so far: no call takes one back.\<close>

definition remembers :: "('w \<Rightarrow> uuid set) \<Rightarrow> ('w, 'a) state \<Rightarrow> bool" where
  "remembers issued m \<longleftrightarrow> (\<forall>w. issued w \<subseteq> issued (after m w))"

definition issues :: "'w svc \<Rightarrow> (uuid \<Rightarrow> bool) \<Rightarrow> ('w \<Rightarrow> uuid set) \<Rightarrow> bool" where
  "issues S ids issued \<longleftrightarrow> (\<forall>w. ids (result_of (new_uuid S) w)) \<and> remembers issued (new_uuid S) \<and> remembers issued (time_now S)
     \<and> (\<forall>c. remembers issued (redis_do S c)) \<and> (\<forall>st. remembers issued (sql_do S st))
     \<and> (\<forall>q. remembers issued (http_do S q)) \<and> (\<forall>n p. remembers issued (notify_client S n p))"

lemma remembers_wp: "remembers issued m \<longleftrightarrow> (\<forall>w. wp m (\<lambda>_ w'. issued w \<subseteq> issued w') w)"
  by (simp add: remembers_def wp_def after_def case_prod_unfold)

lemma remembers_calls: "issues S ids issued \<Longrightarrow> remembers issued (redis S c)" "issues S ids issued \<Longrightarrow> remembers issued (sql S st)"
  by (simp_all add: issues_def remembers_wp redis_def sql_def)

locale typed_services =
  fixes S :: "'w svc" and P :: pg and V :: "'w views" and up :: "string \<Rightarrow> uuid option" and pre :: string
    and ids :: "uuid \<Rightarrow> bool" and issued :: "'w \<Rightarrow> uuid set"
  assumes ok: "svc_ok S P V" and pg: "pg_ok P" and ids: "issues S ids issued"

context typed_services
begin

lemma service_steps:
  assumes "remembers issued m" "\<And>w. stores_fit V ids w \<Longrightarrow> wp m (\<lambda>x w'. stores_fit V ids w' \<and> Q x) w"
  shows "by_steps (stores_fit V ids) (\<lambda>w. w) (\<lambda>w w'. issued w \<subseteq> issued w') m Q"
  unfolding by_steps_def
proof (intro allI impI)
  fix w assume "stores_fit V ids w"
  moreover have "wp m (\<lambda>_ w'. issued w \<subseteq> issued w') w" using assms(1) by (simp add: remembers_wp)
  ultimately have "wp m (\<lambda>x w'. (stores_fit V ids w' \<and> Q x) \<and> issued w \<subseteq> issued w') w"
    by (intro wp_conj assms(2))
  then show "wp m (\<lambda>x w'. Q x \<and> (\<exists>s'. issued w \<subseteq> issued s' \<and> stores_fit V ids s' \<and> s' = w')) w"
    by (rule wp_mono) auto
qed

lemma redis_steps:
  "(\<And>d. rdata_ok d \<Longrightarrow> rdata_ok (call c d))
     \<Longrightarrow> by_steps (stores_fit V ids) (\<lambda>w. w) (\<lambda>w w'. issued w \<subseteq> issued w') (redis S c) (\<lambda>_. True)"
  by (rule service_steps [OF remembers_calls(1) [OF ids]])
    (auto simp: stores_fit_rows intro!: wp_redis [OF ok] dest!: redis_sem_call)

end
sublocale typed_services \<subseteq> base: step_logic "stores_fit V ids" "\<lambda>w. w" "\<lambda>w w'. issued w \<subseteq> issued w'"
  by unfold_locales auto

context typed_services
begin

lemma sql_typed:
  assumes "stmt_fits ids st"
  shows "by_steps (stores_fit V ids) (\<lambda>w. w) (\<lambda>w w'. issued w \<subseteq> issued w') (sql S st) (pred_sum (\<lambda>_. True) (reply_fits ids))"
  by (rule service_steps [OF remembers_calls(2) [OF ids]])
    (auto simp: stores_fit_rows intro!: wp_sql [OF ok] dest: sql_effect_fits [OF pg assms])

lemma uuid_typed: "by_steps (stores_fit V ids) (\<lambda>w. w) (\<lambda>w w'. issued w \<subseteq> issued w') (new_uuid S) ids"
proof (rule service_steps)
  show "remembers issued (new_uuid S)" using ids by (simp add: issues_def)
  show "wp (new_uuid S) (\<lambda>x w'. stores_fit V ids w' \<and> ids x) w" if "stores_fit V ids w" for w
  proof (rule wp_conj)
    show "wp (new_uuid S) (\<lambda>_. stores_fit V ids) w"
      by (rule wp_uuid [OF ok]) (use that in \<open>simp add: stores_fit_rows\<close>)
    show "wp (new_uuid S) (\<lambda>x _. ids x) w"
      using ids by (simp add: issues_def wp_def result_of_def case_prod_unfold)
  qed
qed

lemma other_typed [stepping]:
  "by_steps (stores_fit V ids) (\<lambda>w. w) (\<lambda>w w'. issued w \<subseteq> issued w') (time_now S) (\<lambda>_. True)"
  "by_steps (stores_fit V ids) (\<lambda>w. w) (\<lambda>w w'. issued w \<subseteq> issued w') (http_do S q) (\<lambda>_. True)"
  "by_steps (stores_fit V ids) (\<lambda>w. w) (\<lambda>w w'. issued w \<subseteq> issued w') (notify_client S n p) (\<lambda>_. True)"
  by (rule service_steps, use ids in \<open>simp add: issues_def\<close>,
      auto simp: stores_fit_rows intro: wp_time [OF ok] wp_http [OF ok] wp_notify [OF ok])+

lemma plain_typed [stepping]:
  "plain_command c \<Longrightarrow> by_steps (stores_fit V ids) (\<lambda>w. w) (\<lambda>w w'. issued w \<subseteq> issued w') (redis S c) (\<lambda>_. True)"
  by (rule redis_steps) (rule call_typed)

lemma schedule_typed:
  "by_steps (stores_fit V ids) (\<lambda>w. w) (\<lambda>w w'. issued w \<subseteq> issued w') (schedule_attempts n S pre oc ev) (\<lambda>_. True)"
proof (induction n)
  case (Suc n)
  have "by_steps (stores_fit V ids) (\<lambda>w. w) (\<lambda>w w'. issued w \<subseteq> issued w') (ScheduleEvent S pre oc ev) (\<lambda>_. True)"
    unfolding ScheduleEvent_def Let_def by (intro stepping) simp_all
  with Suc show ?case by (auto intro!: stepping)
qed (auto intro: stepping)

lemma remove_typed:
  "by_steps (stores_fit V ids) (\<lambda>w. w) (\<lambda>w w'. issued w \<subseteq> issued w') (RemoveEventOccurrencesFromRedis up S pre i) (\<lambda>_. True)"
proof -
  have "by_steps (stores_fit V ids) (\<lambda>w. w) (\<lambda>w w'. issued w \<subseteq> issued w') (remove_if_of up S pre i k) (\<lambda>_. True)" for k
    unfolding remove_if_of_def by (intro stepping) (auto intro!: stepping split: rreply.split)
  then show ?thesis unfolding RemoveEventOccurrencesFromRedis_def by (intro stepping) simp_all
qed

end

sublocale typed_services \<subseteq> fit: worker_logic "stores_fit V ids" "\<lambda>w. w" "\<lambda>w w'. issued w \<subseteq> issued w'" S up pre ids
proof unfold_locales
  show "string_command c \<Longrightarrow> by_steps (stores_fit V ids) (\<lambda>w. w) (\<lambda>w w'. issued w \<subseteq> issued w') (redis S c) (\<lambda>_. True)"
    "removal_command c \<Longrightarrow> by_steps (stores_fit V ids) (\<lambda>w. w) (\<lambda>w w'. issued w \<subseteq> issued w') (redis S c) (\<lambda>_. True)" for c
    by (rule plain_typed, cases c; simp)+
  show "by_steps (stores_fit V ids) (\<lambda>w. w) (\<lambda>w w'. issued w \<subseteq> issued w')
      (State_Monad.bind (new_uuid S) (\<lambda>oid. scheduleWithRetry S pre (pending_occurrence oid (ev_id ev) t now) ev)) (\<lambda>_. True)" for ev t now
    unfolding scheduleWithRetry_def by (intro base.steps_then [OF base.steps_any [OF uuid_typed]] schedule_typed)
qed (rule sql_typed uuid_typed other_typed plain_typed remove_typed; assumption?)+

context typed_services
begin

lemma loops_typed:
  "by_steps (stores_fit V ids) (\<lambda>w. w) (\<lambda>w w'. issued w \<subseteq> issued w') (GetDueSchedules S pre) (\<lambda>_. True)"
  "by_steps (stores_fit V ids) (\<lambda>w. w) (\<lambda>w w'. issued w \<subseteq> issued w') (poller_turn S D) (\<lambda>_. True)"
  unfolding GetDueSchedules_def poller_turn_def
  by (intro base.steps_then [OF other_typed(1)] base.steps_attempt_then base.steps_ignore redis_steps base.steps_return TrueI scripts_typed,
      assumption)+

end

interpretation mem_typed: typed_services mem_svc mem_pg mem_views Some "[]" "\<lambda>_. True" "\<lambda>_. {}"
  by unfold_locales (simp_all add: mem_svc_ok mem_pg_ok issues_def remembers_def)

section \<open>Reading typed rows\<close>

lemma row_event_id: "event_of_row r = Inr ev \<Longrightarrow> ev_id ev = er_id r"
  by (auto simp: event_of_row_def split: sum.splits)

lemma listed_rows: "\<forall>r \<in> set rs. row_typed r \<Longrightarrow> \<exists>evs. events_of_rows rs = Inr evs"
proof (induction rs)
  case (Cons r rs)
  then obtain ev evs where "event_of_row r = Inr ev" "events_of_rows rs = Inr evs"
    by (auto simp: row_typed_def is_ok_def split: sum.splits)
  then show ?case by simp
qed simp

lemma listed_ids: "events_of_rows rs = Inr evs \<Longrightarrow> map ev_id evs = map er_id rs"
  by (induction rs arbitrary: evs) (auto split: sum.splits dest: row_event_id)

text \<open>With typed tables only the call itself can keep the expander from seeing all active events.\<close>

lemma ListActive_complete:
  assumes "svc_ok S P V" "stores_typed V w" "sql_answers S (SelectEventsByStatus EventStatusActive)"
  shows "\<exists>evs. result_of (ListActive S) w = Inr evs
    \<and> image_mset ev_id (mset evs) = image_mset er_id (filter_mset (\<lambda>r. er_status r = EventStatusActive) (mset (db_events (dv V w))))"
proof -
  let ?rows = "filter (\<lambda>r. er_status r = EventStatusActive) (db_events (dv V w))"
  have "wp (ListActive S) (\<lambda>r _. \<exists>evs. r = Inr evs \<and> image_mset ev_id (mset evs) = image_mset er_id (mset ?rows)) w"
    unfolding ListActive_def list_events_def wp_attempt
  proof (rule wp_sql_answers [OF assms(3)], rule wp_sql [OF assms(1)], goal_cases)
    case (1 x w')
    then obtain eo where eo: "\<forall>rs. mset (eo rs) = mset rs" "x = DEvents (newest_first (eo ?rows))"
      by (auto simp: sql_effect_def)
    let ?rs = "newest_first (eo ?rows)"
    have m: "mset ?rs = mset ?rows" using eo(1) by (simp add: newest_first_def)
    then have "set ?rs = set ?rows" by (rule mset_eq_setD)
    then have "\<forall>r \<in> set ?rs. row_typed r" using assms(2) by (auto simp: stores_typed_def tables_typed_def)
    then obtain evs where evs: "events_of_rows ?rs = Inr evs" using listed_rows by blast
    have "image_mset ev_id (mset evs) = image_mset er_id (mset ?rows)"
      using arg_cong [OF listed_ids [OF evs], of mset] m by simp
    with evs eo(2) show ?case by (simp add: multiset.map_comp comp_def)
  qed simp
  from wp_result [OF this] show ?thesis by simp
qed

end
