(* ===== verification/EventApi.thy ===== *)
theory EventApi
  imports EventHandlers
begin

text \<open>
  What the events API promises to its clients: which requests it accepts, what an accepted request does to the
  stores, and that a refused one does nothing.
\<close>

section \<open>Creation\<close>

definition as_requested :: "create_request \<Rightarrow> string \<Rightarrow> event \<Rightarrow> bool" where
  "as_requested req wh ev \<longleftrightarrow> ev_name ev = cr_name req
     \<and> ev_description ev = (case cr_description req of None \<Rightarrow> [] | Some d \<Rightarrow> d)
     \<and> ev_start_time ev = cr_start_time req \<and> ev_schedule ev = cr_schedule req
     \<and> ev_webhook ev = wh \<and> ev_action ev = Some (action_of_webhook wh)
     \<and> ev_metadata ev = (case cr_metadata req of None \<Rightarrow> JObj [] | Some m \<Rightarrow> m)
     \<and> ev_tags ev = Some (case cr_tags req of None \<Rightarrow> [] | Some ts \<Rightarrow> ts)
     \<and> ev_hmac_secret ev = cr_hmac_secret req \<and> ev_status ev = EventStatusActive"

lemma Create_request_wp:
  assumes "svc_ok S P V" "wh \<noteq> []"
  shows "wp (Create S (event_of_request req a wh)) (\<lambda>r w'. rv V w' = rv V w \<and> ov V w' = ov V w
     \<and> (\<forall>ev. r = Inr ev \<longrightarrow> as_requested req wh ev \<and> \<not> has_event (dv V w) (ev_id ev)
          \<and> (\<exists>ts. dv V w' = (dv V w)\<lparr>db_events := db_events (dv V w) @ [row_of_event P ts ev]\<rparr>))) w"
  by (rule wp_mono [OF Create_wp [OF assms(1)]])
    (auto simp: as_requested_def created_def event_of_request_def deriveAndSetAction_def assms(2))

text \<open>The part of the handler after the checks, and the checks before it. The goroutine gets the event (\<open>job_of\<close>) if its
  start lies in the window around the time that the handler reads in the world \<open>stored\<close>, in which the event is stored.\<close>

definition store_and_reply :: "'w svc \<Rightarrow> expander \<Rightarrow> create_request \<Rightarrow> action \<Rightarrow> string \<Rightarrow> ('w, response \<times> event option) state" where
  "store_and_reply S X req a wh = State_Monad.bind (Create S (event_of_request req a wh)) (\<lambda>r. case r of
       Inl e \<Rightarrow> State_Monad.return (Reply 500 (ErrorBody (error_text e)), None)
     | Inr ev \<Rightarrow> State_Monad.bind (time_now S) (\<lambda>now. State_Monad.return (Reply 201 (EventResponseBody (ToEventResponse ev)),
         if window_opens X now < ev_start_time ev \<and> ev_start_time ev < window_closes X now then Some ev else None)))"

definition job_of :: "'w svc \<Rightarrow> expander \<Rightarrow> create_request \<Rightarrow> 'w \<Rightarrow> event \<Rightarrow> event option" where
  "job_of S X req stored ev = (let now = result_of (time_now S) stored in
     if window_opens X now < cr_start_time req \<and> cr_start_time req < window_closes X now then Some ev else None)"

lemma stored_wp:
  assumes ok: "svc_ok S P V" and wh: "wh \<noteq> []"
  shows "wp (store_and_reply S X req a wh)
     (\<lambda>(reply, job) w'. rv V w' = rv V w \<and> ov V w' = ov V w \<and> (reply_status reply = 500 \<and> job = None \<or> reply_status reply = 201
        \<and> (\<exists>ev ts. as_requested req wh ev \<and> \<not> has_event (dv V w) (ev_id ev)
           \<and> dv V w' = (dv V w)\<lparr>db_events := db_events (dv V w) @ [row_of_event P ts ev]\<rparr>
           \<and> reply_body reply = EventResponseBody (ToEventResponse ev)
           \<and> job = job_of S X req (after (Create S (event_of_request req a wh)) w) ev))) w"
  unfolding store_and_reply_def wp_bind
proof (rule wp_mono [OF wp_conj [OF Create_request_wp [OF ok wh] wp_self]], goal_cases)
  case (1 r w2)
  show ?case
  proof (cases r)
    case (Inr ev)
    with 1 obtain ts where ev: "as_requested req wh ev" "\<not> has_event (dv V w) (ev_id ev)"
      "dv V w2 = (dv V w)\<lparr>db_events := db_events (dv V w) @ [row_of_event P ts ev]\<rparr>" by blast
    show ?thesis
      unfolding Inr sum.case wp_bind
      by (rule wp_time_now [OF ok]) (use 1 ev in \<open>auto simp: job_of_def Let_def as_requested_def\<close>)
  next
    case (Inl e)
    moreover have "rv V w2 = rv V w" "ov V w2 = ov V w" using 1 by blast+
    ultimately show ?thesis by simp
  qed
qed

lemma CreateEvent_checked:
  assumes "bind_create body = Inr req" "deriveActionFromRequest (cr_webhook req) (cr_action req) = Inr (a, wh)" "cr_name req \<noteq> []"
  shows "wp (CreateEvent S X body) Q w =
     (if cr_start_time req < result_of (time_now S) w
      then Q (Reply 400 (ErrorBody ''Start time must be in the future''), None) (after (time_now S) w)
      else if cr_schedule req \<noteq> None \<and> \<not> isValidSchedule (cr_schedule req)
      then Q (Reply 400 (ErrorBody ''invalid schedule format''), None) (after (time_now S) w)
      else wp (store_and_reply S X req a wh) Q (after (time_now S) w))"
proof -
  have "wp (time_now S) Q w = Q (result_of (time_now S) w) (after (time_now S) w)" for Q
    by (simp add: wp_def result_of_def after_def split: prod.split)
  with assms show ?thesis by (simp add: CreateEvent_def store_and_reply_def)
qed

text \<open>A request that is accepted.\<close>

definition demo_body :: string where
  "demo_body = ''{\"name\":\"job\",\"start_time\":\"1970-01-01T00:03:00Z\",\"webhook\":\"http://host/hook\"}''"

definition demo_request :: create_request where
  "demo_request = \<lparr>cr_name = ''job'', cr_description = None, cr_start_time = 180 * second, cr_webhook = Some ''http://host/hook'',
     cr_action = None, cr_metadata = None, cr_schedule = None, cr_tags = None, cr_hmac_secret = None\<rparr>"

lemma demo_bind: "bind_create demo_body = Inr demo_request"
  by code_simp

lemma demo_derive: "deriveActionFromRequest (cr_webhook demo_request) (cr_action demo_request) = Inr (action_of_webhook ''http://host/hook'', ''http://host/hook'')"
  by (simp add: deriveActionFromRequest_def demo_request_def)

lemma demo_pads: "pad 12 (Suc 0) \<noteq> pad 12 0"
  by code_simp

lemma demo_open: "window_opens demo_expander (120 * second) < 180 * second" "180 * second < window_closes demo_expander (120 * second)"
  "\<not> 180 * second < 120 * second"
  by (simp_all add: demo_window) (simp_all add: second_def)

lemma demo_created:
  "reply_status (fst (result_of (CreateEvent mem_svc demo_expander demo_body) demo_mem)) = 201"
  "snd (result_of (CreateEvent mem_svc demo_expander demo_body) demo_mem) \<noteq> None"
proof -
  have "wp (CreateEvent mem_svc demo_expander demo_body) (\<lambda>r _. reply_status (fst r) = 201 \<and> snd r \<noteq> None) demo_mem"
    by (simp add: CreateEvent_def demo_bind demo_derive)
      (simp add: mem_wp demo_request_def Create_def Let_def event_of_request_def deriveAndSetAction_def demo_mem_def mem_uuid_def
        demo_row_def no_dbdata_def has_event_iff mem_at_def demo_pads demo_open)
  from wp_result [OF this] show
    "reply_status (fst (result_of (CreateEvent mem_svc demo_expander demo_body) demo_mem)) = 201"
    "snd (result_of (CreateEvent mem_svc demo_expander demo_body) demo_mem) \<noteq> None" by blast+
qed

section \<open>Update\<close>

text \<open>What the steps of an update leave of the event, and the check of the start time, which never fires.\<close>

lemma apply_action_keeps:
  "apply_action req ev = Inr ev' \<Longrightarrow> ev_id ev' = ev_id ev \<and> ev_start_time ev' = ev_start_time ev \<and> ev_schedule ev' = ev_schedule ev"
  by (auto simp: apply_action_def split: option.splits sum.splits)

lemma no_start_time_reply:
  assumes "apply_action req (apply_basics req ev) = Inr ev1"
  shows "start_time_replies S req (ev1\<lparr>ev_metadata := m\<rparr>) = State_Monad.return []"
  using apply_action_keeps [OF assms] by (simp add: start_time_replies_def apply_basics_def split: option.split)

lemma apply_action_error:
  "apply_action req ev = Inl e \<Longrightarrow> error_text e \<noteq> ''Start time must be in the future''"
  by (auto simp: apply_action_def split: option.splits sum.splits)

definition updated_as_requested :: "update_request \<Rightarrow> event \<Rightarrow> bool" where
  "updated_as_requested req ev \<longleftrightarrow> (\<forall>n. ur_name req = Some n \<longrightarrow> ev_name ev = n)
     \<and> (\<forall>t. ur_start_time req = Some t \<longrightarrow> ev_start_time ev = t)
     \<and> (\<forall>sc. ur_schedule req = Some sc \<longrightarrow> ev_schedule ev = Some sc \<and> isValidSchedule (Some sc))
     \<and> (\<forall>ts. ur_tags req = Some ts \<longrightarrow> ev_tags ev = Some ts) \<and> (\<forall>s. ur_status req = Some s \<longrightarrow> ev_status ev = s)"

definition merged :: "update_request \<Rightarrow> event \<Rightarrow> event" where
  "merged req ev1 = apply_rest req (ev1\<lparr>ev_metadata := (case ur_metadata req of None \<Rightarrow> ev_metadata ev1 | Some m \<Rightarrow> m)\<rparr>)"

lemma populate_keeps [simp]:
  "ev_id (populateWebhookFromAction ev) = ev_id ev" "ev_name (populateWebhookFromAction ev) = ev_name ev"
  "ev_start_time (populateWebhookFromAction ev) = ev_start_time ev" "ev_schedule (populateWebhookFromAction ev) = ev_schedule ev"
  "ev_tags (populateWebhookFromAction ev) = ev_tags ev" "ev_status (populateWebhookFromAction ev) = ev_status ev"
  by (auto simp: populateWebhookFromAction_def split: option.split sum.split)

lemma derive_keeps_rest [simp]:
  "ev_id (deriveAndSetAction ev) = ev_id ev" "ev_name (deriveAndSetAction ev) = ev_name ev"
  "ev_start_time (deriveAndSetAction ev) = ev_start_time ev" "ev_schedule (deriveAndSetAction ev) = ev_schedule ev"
  "ev_tags (deriveAndSetAction ev) = ev_tags ev" "ev_status (deriveAndSetAction ev) = ev_status ev"
  by (auto simp: deriveAndSetAction_def split: option.split)

lemma merged_fields:
  "ev_id (merged req ev) = ev_id ev" "ev_name (merged req ev) = ev_name ev" "ev_start_time (merged req ev) = ev_start_time ev"
  "ev_schedule (merged req ev) = (case ur_schedule req of None \<Rightarrow> ev_schedule ev | Some sc \<Rightarrow> Some sc)"
  "ev_tags (merged req ev) = (case ur_tags req of None \<Rightarrow> ev_tags ev | Some ts \<Rightarrow> Some ts)"
  "ev_status (merged req ev) = (case ur_status req of None \<Rightarrow> ev_status ev | Some s \<Rightarrow> s)"
  by (simp_all add: merged_def apply_rest_def split: option.split)

lemma merged_as_requested:
  assumes "apply_action req (apply_basics req ev) = Inr ev1" "ur_schedule req = None \<or> isValidSchedule (ur_schedule req)"
  shows "updated_as_requested req (updated now (merged req ev1)) \<and> ev_id (merged req ev1) = ev_id ev"
proof -
  have "ev_name ev1 = ev_name (apply_basics req ev)"
    using assms(1) by (auto simp: apply_action_def split: option.splits sum.splits)
  with apply_action_keeps [OF assms(1)] assms(2) show ?thesis
    by (simp add: updated_as_requested_def updated_def merged_fields) (auto simp: apply_basics_def)
qed

lemma update_found_wp:
  assumes ok: "svc_ok S P V" and ev: "ev_id ev = i" "has_event (dv V w) i"
  shows "wp (update_found up S X req ev) (\<lambda>(replies, job) w'. \<exists>reply. replies = [reply] \<and> ov V w' = ov V w
     \<and> reply \<noteq> Reply 400 (ErrorBody ''Start time must be in the future'') \<and> reply_status reply \<in> {200, 400, 500}
     \<and> (reply_status reply = 400 \<longrightarrow> rv V w' = rv V w \<and> dv V w' = dv V w) \<and> (reply_status reply \<noteq> 200 \<longrightarrow> job = None)
     \<and> (reply_status reply = 200 \<longrightarrow> (\<exists>ev ts. updated_as_requested req ev \<and> ev_id ev = i \<and> job = Some ev
          \<and> dv V w' = (dv V w)\<lparr>db_events := map (update_row P ts ev) (db_events (dv V w))\<rparr>
          \<and> only_removes up (ex_prefix X) i (rv V w) (rv V w')))) w"
proof (cases "apply_action req (apply_basics req ev)")
  case (Inl e)
  with apply_action_error [OF Inl] show ?thesis by (simp add: update_found_def)
next
  case (Inr ev1)
  note none = no_start_time_reply [OF Inr]
  show ?thesis
  proof (cases "ur_schedule req = None \<or> isValidSchedule (ur_schedule req)")
    case True
    note m = merged_as_requested [OF Inr True]
    have rm: "wp (RemoveEventOccurrencesFromRedis up S (ex_prefix X) i) (\<lambda>_ w'. dv V w' = dv V w1 \<and> ov V w' = ov V w
        \<and> only_removes up (ex_prefix X) i (rv V w) (rv V w')) w1" if "ov V w1 = ov V w" "rv V w1 = rv V w" for w1
      using RemoveEventOccurrences_wp [OF ok, of up "ex_prefix X" i w1] that by simp
    from True have c: "\<not> (ur_schedule req \<noteq> None \<and> \<not> isValidSchedule (ur_schedule req))" by simp
    show ?thesis
      apply (simp only: update_found_def Inr none Let_def merged_def [symmetric] sum.case wp_bind wp_return if_not_P [OF c])
      apply (rule wp_mono [OF Update_wp [OF ok]])
      subgoal for r w1
      proof (cases r)
        case R: (Inr ev3)
        assume U: "rv V w1 = rv V w \<and> ov V w1 = ov V w
           \<and> (dv V w1 = dv V w \<or> (\<exists>now ts. ev_tags (merged req ev1) = Some ts
                \<and> dv V w1 = (dv V w)\<lparr>db_events := map (update_row P ts (updated now (merged req ev1))) (db_events (dv V w))\<rparr>))
           \<and> (case r of
                Inr ev' \<Rightarrow> has_event (dv V w) (ev_id (merged req ev1)) \<and> (\<exists>now ts. ev' = updated now (merged req ev1)
                  \<and> ev_tags (merged req ev1) = Some ts
                  \<and> dv V w1 = (dv V w)\<lparr>db_events := map (update_row P ts ev') (db_events (dv V w))\<rparr>)
              | Inl e \<Rightarrow> e = ErrEventNotFound \<longrightarrow> \<not> has_event (dv V w) (ev_id (merged req ev1)) \<and> dv V w1 = dv V w)"
        with R obtain now ts where 3: "ev3 = updated now (merged req ev1)"
          "dv V w1 = (dv V w)\<lparr>db_events := map (update_row P ts ev3) (db_events (dv V w))\<rparr>" by auto
        have i: "ev_id ev3 = i" using 3(1) m ev(1) by (simp add: updated_def)
        have "updated_as_requested req ev3" using 3(1) m by simp
        with R i 3(2) show ?thesis
          by (simp, intro wp_mono [OF rm]) (use U in auto)
      qed simp
      done
  qed (use Inr in \<open>simp add: update_found_def Let_def none\<close>)
qed

text \<open>C34. An update replies exactly once, and never with a complaint about the start time, so an event can be moved into the
  past. A reply 200 means that the event existed, that its row and no other now holds what the request names, that
  a new rule is valid, and that in Redis only entries of this event were removed; a reply 400 or 404 means that
  nothing was changed; only an event that was updated is expanded again.\<close>

theorem UpdateEvent_replies_once:
  assumes "svc_ok S P V"
  shows "case result_of (UpdateEvent up S X ids body) w of (replies, job) \<Rightarrow> let w' = after (UpdateEvent up S X ids body) w in
     \<exists>reply. replies = [reply] \<and> ov V w' = ov V w
     \<and> reply \<noteq> Reply 400 (ErrorBody ''Start time must be in the future'') \<and> reply_status reply \<in> {200, 400, 404, 500}
     \<and> (reply_status reply \<in> {400, 404} \<longrightarrow> rv V w' = rv V w \<and> dv V w' = dv V w)
     \<and> (reply_status reply \<noteq> 200 \<longrightarrow> job = None)
     \<and> (reply_status reply = 200 \<longrightarrow> (\<exists>i req ev ts. up ids = Some i \<and> bind_update body = Inr req
          \<and> updated_as_requested req ev \<and> ev_id ev = i \<and> has_event (dv V w) i \<and> job = Some ev
          \<and> dv V w' = (dv V w)\<lparr>db_events := map (update_row P ts ev) (db_events (dv V w))\<rparr>
          \<and> only_removes up (ex_prefix X) i (rv V w) (rv V w')))"
    (is "case _ of (replies, job) \<Rightarrow> let w' = _ in ?post replies job w'")
proof -
  have "wp (UpdateEvent up S X ids body) (\<lambda>(replies, job) w'. ?post replies job w') w"
  proof (cases "up ids")
    case (Some i)
    note i = this
    show ?thesis
    proof (cases "bind_update body")
      case (Inr req)
      show ?thesis
        apply (simp only: UpdateEvent_def i Inr option.case sum.case wp_bind)
        apply (rule wp_mono [OF GetByID_wp [OF assms]])
        subgoal for r w1
        proof (cases r)
          case R: (Inr oev)
          assume G: "rv V w1 = rv V w \<and> dv V w1 = dv V w \<and> ov V w1 = ov V w \<and> (case r of
               Inr None \<Rightarrow> \<not> has_event (dv V w) i
             | Inr (Some ev) \<Rightarrow> (\<exists>row ev0. row \<in> set (db_events (dv V w)) \<and> er_id row = i \<and> event_of_row row = Inr ev0
                  \<and> ev = populateWebhookFromAction ev0)
             | Inl _ \<Rightarrow> True)"
          show ?thesis
          proof (cases oev)
            case (Some ev)
            with G R obtain row ev0 where "row \<in> set (db_events (dv V w))" "er_id row = i" "event_of_row row = Inr ev0"
              "ev = populateWebhookFromAction ev0" by auto
            then have h: "has_event (dv V w1) i" "ev_id ev = i"
              using G by (auto simp: has_event_iff event_of_row_def split: sum.splits)
            show ?thesis
              unfolding R Some sum.case option.case
              by (rule wp_mono [OF update_found_wp [OF assms h(2,1), of up X req]]) (use i Inr G h(1) in auto)
          qed (use R G in simp)
        qed simp
        done
    qed (use i in \<open>simp add: UpdateEvent_def\<close>)
  qed (simp add: UpdateEvent_def)
  from wp_result [OF this] show ?thesis unfolding Let_def case_prod_unfold .
qed
text \<open>An update that moves the event into the past is accepted.\<close>

definition demo_update :: string where
  "demo_update = ''{\"start_time\":\"1970-01-01T00:00:01Z\"}''"

lemma demo_bind_update: "bind_update demo_update = Inr (zero_update_request\<lparr>ur_start_time := Some second\<rparr>)"
  by code_simp

lemma demo_row_event: "event_of_row demo_row = Inr (demo_event\<lparr>ev_action := Some (action_of_webhook ''http://host/hook'')\<rparr>)"
  by code_simp

lemma demo_updated: "reply_status (hd (fst (result_of (UpdateEvent Some mem_svc demo_expander (mem_uuid 0) demo_update) demo_mem))) = 200"
proof -
  have er: "er_id demo_row = mem_uuid 0" "ev_id demo_event = mem_uuid 0" "ev_tags demo_event = Some [''nightly'']"
    by (simp_all add: demo_row_def demo_event_def)
  have w: "populateWebhookFromAction (demo_event\<lparr>ev_action := Some (action_of_webhook ''http://host/hook'')\<rparr>)
      = demo_event\<lparr>ev_action := Some (action_of_webhook ''http://host/hook'')\<rparr>" by code_simp
  have "wp (UpdateEvent Some mem_svc demo_expander (mem_uuid 0) demo_update) (\<lambda>r _. reply_status (hd (fst r)) = 200) demo_mem"
    by (simp add: UpdateEvent_def demo_bind_update GetByID_def mem_wp)
      (simp add: demo_mem_def demo_row_event w no_dbdata_def er, simp add: er update_found_def apply_action_def zero_update_request_def
        start_time_replies_def apply_basics_def apply_rest_def Update_def mem_wp Let_def RemoveEventOccurrencesFromRedis_def)
  then show ?thesis by (rule wp_result)
qed

theorem UpdateEvent_replies_once_witness:
  "let w' = after (UpdateEvent Some mem_svc demo_expander (mem_uuid 0) demo_update) demo_mem
   in \<exists>ev ts. ev_start_time ev = second \<and> second < m_time demo_mem
      \<and> db_events (m_db w') = map (update_row mem_pg ts ev) [demo_row]"
proof -
  have past: "second < m_time demo_mem" by (simp add: demo_mem_def second_def)
  have upd: "ev_start_time ev = second"
    if "updated_as_requested (zero_update_request\<lparr>ur_start_time := Some second\<rparr>) ev" for ev
    using that by (simp add: updated_as_requested_def)
  have rows: "db_events (m_db demo_mem) = [demo_row]" by (simp add: demo_mem_def no_dbdata_def)
  obtain replies job where r: "result_of (UpdateEvent Some mem_svc demo_expander (mem_uuid 0) demo_update) demo_mem = (replies, job)"
    by fastforce
  with UpdateEvent_replies_once [OF mem_svc_ok, of Some demo_expander "mem_uuid 0" demo_update demo_mem] demo_updated
  obtain ev ts where
    "updated_as_requested (zero_update_request\<lparr>ur_start_time := Some second\<rparr>) ev"
    "m_db (after (UpdateEvent Some mem_svc demo_expander (mem_uuid 0) demo_update) demo_mem)
      = (m_db demo_mem)\<lparr>db_events := map (update_row mem_pg ts ev) (db_events (m_db demo_mem))\<rparr>"
    by (auto simp: Let_def demo_bind_update)
  then show ?thesis using past upd rows unfolding Let_def by (intro exI [of _ ev] exI [of _ ts]) simp
qed

section \<open>Deletion\<close>

lemma Delete_error_wp: "wp (Delete up S pre i) (\<lambda>r _. r \<noteq> Inl ErrEventNotFound) w"
  unfolding Delete_def wp_attempt by (auto intro!: wp_all)

text \<open>Deleting replies 204, 400 or 500, never 404: an event that does not exist is deleted like any other. After a reply
  204 the event has no row and no recorded occurrence, and the other events and occurrences are as before; in Redis
  only entries of the event were removed.\<close>

theorem DeleteEvent_replies:
  assumes "svc_ok S P V" "db_ok (dv V w)"
  shows "let r = result_of (DeleteEvent up S X ids) w; w' = after (DeleteEvent up S X ids) w in
     reply_status r \<in> {204, 400, 500} \<and> (reply_status r = 400 \<longleftrightarrow> up ids = None) \<and> (up ids = None \<longrightarrow> w' = w)
   \<and> (reply_status r = 204 \<longrightarrow> (\<exists>i. up ids = Some i \<and> only_removes up (ex_prefix X) i (rv V w) (rv V w')
        \<and> db_events (dv V w') = filter (\<lambda>r. er_id r \<noteq> i) (db_events (dv V w))
        \<and> db_occs (dv V w') = filter (\<lambda>oc. oc_event_id oc \<noteq> i) (db_occs (dv V w))))"
proof (cases "up ids")
  case None
  then show ?thesis by (simp add: DeleteEvent_def result_of_def after_def)
next
  case (Some i)
  have "wp (DeleteEvent up S X ids) (\<lambda>r w'. reply_status r \<in> {204, 500}
     \<and> (reply_status r = 204 \<longrightarrow> only_removes up (ex_prefix X) i (rv V w) (rv V w')
        \<and> db_events (dv V w') = filter (\<lambda>r. er_id r \<noteq> i) (db_events (dv V w))
        \<and> db_occs (dv V w') = filter (\<lambda>oc. oc_event_id oc \<noteq> i) (db_occs (dv V w)))) w"
    unfolding DeleteEvent_def Some option.case wp_bind
    by (rule wp_mono [OF wp_conj [OF Delete_wp [OF assms] Delete_error_wp]]) (auto split: sum.splits)
  from wp_result [OF this] show ?thesis by (auto simp: Let_def Some)
qed

theorem DeleteEvent_replies_witness:
  "let r = result_of (DeleteEvent (\<lambda>_. Some (mem_uuid 0)) mem_svc demo_expander ids) demo_mem;
       w' = after (DeleteEvent (\<lambda>_. Some (mem_uuid 0)) mem_svc demo_expander ids) demo_mem
   in reply_status r = 500 \<or> db_events (m_db w') = []"
  using DeleteEvent_replies [OF mem_svc_ok, of demo_mem "\<lambda>_. Some (mem_uuid 0)" demo_expander ids]
  by (auto simp: Let_def) (simp_all add: demo_mem_def no_dbdata_def demo_row_def)

end
