(* ===== verification/Clients.thy ===== *)
theory Clients
  imports Models "HOL-Library.Multiset"
begin

text \<open>
  \<open>internal/handlers/websocket_handler.go\<close>: the websocket connections and their registry. A connection goes through a
  handshake, is registered under its client name or its tags, is served until it closes, and is then taken out again;
  \<open>DispatchToClient\<close> writes to one connection of a client. The lock makes registration, removal and dispatch single steps
  (\<open>ws_step\<close>), and a failed read comes before the removal as a step of its own, in any order over any number of connections. The maps of connection sets are used through the
  interface \<open>conn_index\<close>.
\<close>

section \<open>Sets of connections by key\<close>

type_synonym conn = nat
type_synonym conns = "string \<Rightarrow> conn set option"

definition add_conn :: "string \<Rightarrow> conn \<Rightarrow> conns \<Rightarrow> conns" where
  "add_conn k c m = m(k \<mapsto> insert c (case m k of None \<Rightarrow> {} | Some s \<Rightarrow> s))"

definition del_conn :: "string \<Rightarrow> conn \<Rightarrow> conns \<Rightarrow> conns" where
  "del_conn k c m =
     (case m k of
        None \<Rightarrow> m
      | Some s \<Rightarrow> if s - {c} = {} then m(k := None) else m(k \<mapsto> s - {c}))"

definition conns_of :: "conns \<Rightarrow> string \<Rightarrow> conn set" where
  "conns_of m k = (case m k of None \<Rightarrow> {} | Some s \<Rightarrow> s)"

text \<open>No key is kept for an empty set.\<close>

definition no_empty :: "conns \<Rightarrow> bool" where
  "no_empty m \<longleftrightarrow> (\<forall>k. m k \<noteq> Some {})"

locale conn_index =
  fixes add :: "'k \<Rightarrow> 'c \<Rightarrow> 'm \<Rightarrow> 'm"
    and del :: "'k \<Rightarrow> 'c \<Rightarrow> 'm \<Rightarrow> 'm"
    and get :: "'m \<Rightarrow> 'k \<Rightarrow> 'c set"
    and ok :: "'m \<Rightarrow> bool"
  assumes get_add: "get (add k c m) k' = (if k' = k then insert c (get m k) else get m k')"
    and get_del: "get (del k c m) k' = (if k' = k then get m k - {c} else get m k')"
    and ok_add: "ok m \<Longrightarrow> ok (add k c m)"
    and ok_del: "ok m \<Longrightarrow> ok (del k c m)"
begin

lemma get_add_all: "get (fold (\<lambda>k. add k c) ks m) k' = (if k' \<in> set ks then insert c (get m k') else get m k')"
  by (induction ks arbitrary: m) (auto simp: get_add)

lemma get_del_all: "get (fold (\<lambda>k. del k c) ks m) k' = (if k' \<in> set ks then get m k' - {c} else get m k')"
  by (induction ks arbitrary: m) (auto simp: get_del)

lemma ok_add_all: "ok m \<Longrightarrow> ok (fold (\<lambda>k. add k c) ks m)"
  by (induction ks arbitrary: m) (auto simp: ok_add)

lemma ok_del_all: "ok m \<Longrightarrow> ok (fold (\<lambda>k. del k c) ks m)"
  by (induction ks arbitrary: m) (auto simp: ok_del)

end

interpretation ci: conn_index add_conn del_conn conns_of no_empty
  by unfold_locales (auto simp: conns_of_def add_conn_def del_conn_def no_empty_def split: option.splits if_splits)

section \<open>The handshake\<close>

record ws_init =
  wi_type :: string
  wi_client_name :: string
  wi_tags :: "string list option"
  wi_token :: string

definition dec_ws_init :: "json \<Rightarrow> ws_init option" where
  "dec_ws_init j =
     dec_struct (\<lambda>kvs. let v = (\<lambda>n. values_of [''type'', ''client_name'', ''tags'', ''token''] n kvs) in
        do { t \<leftarrow> decode_field dec_string [] (v ''type'');
             n \<leftarrow> decode_field dec_string [] (v ''client_name'');
             ts \<leftarrow> decode_ptr (dec_list dec_string []) (v ''tags'');
             tok \<leftarrow> decode_field dec_string [] (v ''token'');
             Some \<lparr>wi_type = t, wi_client_name = n, wi_tags = ts, wi_token = tok\<rparr> })
       \<lparr>wi_type = [], wi_client_name = [], wi_tags = None, wi_token = []\<rparr> j"

text \<open>\<open>strings.TrimSpace(s) == ""\<close>: the text consists of white space of Unicode, in UTF-8.\<close>

fun blank :: "nat list \<Rightarrow> bool" where
  "blank [] = True"
| "blank (b # r) =
     (if b = 32 \<or> 9 \<le> b \<and> b \<le> 13 then blank r
      else (case r of
        [] \<Rightarrow> False
      | b2 # r2 \<Rightarrow>
          if b = 194 \<and> (b2 = 133 \<or> b2 = 160) then blank r2
          else (case r2 of
            [] \<Rightarrow> False
          | b3 # r3 \<Rightarrow>
              if b = 225 \<and> b2 = 154 \<and> b3 = 128
               \<or> b = 226 \<and> b2 = 128 \<and> (128 \<le> b3 \<and> b3 \<le> 138 \<or> b3 = 168 \<or> b3 = 169 \<or> b3 = 175)
               \<or> b = 226 \<and> b2 = 129 \<and> b3 = 159 \<or> b = 227 \<and> b2 = 128 \<and> b3 = 128
              then blank r3 else False)))"

definition wsTypeClientHook :: string where "wsTypeClientHook = ''client-hook''"
definition wsTypeTagListener :: string where "wsTypeTagListener = ''tag-listener''"
definition wsTypeAck :: string where "wsTypeAck = ''ack''"

datatype subscription = ClientHook string | TagListener "string list"

datatype frame = WsError string | WsAck string | WsPayload string

definition handshake :: "string \<Rightarrow> string + subscription" where
  "handshake msg =
     (case unmarshal dec_ws_init msg of
        Inl _ \<Rightarrow> Inl ''invalid handshake message''
      | Inr i \<Rightarrow>
        if blank (map of_char (wi_token i)) then Inl ''authentication required''
        else if wi_type i = wsTypeClientHook then
          (if wi_client_name i = [] then Inl ''client_name required for client-hook'' else Inr (ClientHook (wi_client_name i)))
        else if wi_type i = wsTypeTagListener then
          (case wi_tags i of
             None \<Rightarrow> Inl ''tags required for tag-listener''
           | Some ts \<Rightarrow> if ts = [] then Inl ''tags required for tag-listener'' else Inr (TagListener ts))
        else Inl ''invalid type'')"

section \<open>The registry\<close>

record registry =
  clientHookConns :: conns
  tagListenerConns :: conns
  rrState :: "string \<Rightarrow> int option"

definition NewWebSocketHandler :: registry where
  "NewWebSocketHandler = \<lparr>clientHookConns = Map.empty, tagListenerConns = Map.empty, rrState = Map.empty\<rparr>"

definition register :: "conn \<Rightarrow> subscription \<Rightarrow> registry \<Rightarrow> registry" where
  "register c sub h =
     (case sub of
        ClientHook n \<Rightarrow> h\<lparr>clientHookConns := add_conn n c (clientHookConns h)\<rparr>
      | TagListener ts \<Rightarrow> h\<lparr>tagListenerConns := fold (\<lambda>t. add_conn t c) ts (tagListenerConns h)\<rparr>)"

definition cleanup :: "conn \<Rightarrow> subscription \<Rightarrow> registry \<Rightarrow> registry" where
  "cleanup c sub h =
     (case sub of
        ClientHook n \<Rightarrow> h\<lparr>clientHookConns := del_conn n c (clientHookConns h)\<rparr>
      | TagListener ts \<Rightarrow> h\<lparr>tagListenerConns := fold (\<lambda>t. del_conn t c) ts (tagListenerConns h)\<rparr>)"

text \<open>The answer to a message after the handshake. The type of a message without a string \<open>type\<close> is empty.\<close>

definition dec_object :: "json \<Rightarrow> (string \<times> json) list option" where
  "dec_object j = (case j of JObj kvs \<Rightarrow> Some kvs | JNull \<Rightarrow> Some [] | _ \<Rightarrow> None)"

definition msg_type :: "(string \<times> json) list \<Rightarrow> string" where
  "msg_type kvs = (case map_of (rev kvs) ''type'' of Some (JStr s) \<Rightarrow> s | _ \<Rightarrow> [])"

definition on_message :: "subscription \<Rightarrow> string \<Rightarrow> frame" where
  "on_message sub msg =
     (case unmarshal dec_object msg of
        Inl _ \<Rightarrow> WsError ''invalid message format''
      | Inr base \<Rightarrow>
        if msg_type base = wsTypeAck then
          (case sub of
             TagListener _ \<Rightarrow> WsError ''acknowledge not supported for tag-listener''
           | ClientHook _ \<Rightarrow> WsAck ''acknowledged'')
        else WsError ''unexpected message type after handshake'')"

text \<open>
  \<open>order\<close> is the order in which the map of connections is iterated, which Go leaves open; \<open>write c\<close> is the error of writing
  to the connection \<open>c\<close>, if any. Go's remainder has the sign of the dividend. The result is the error, the connection that was written to, and the registry.
\<close>

definition go_rem :: "int \<Rightarrow> int \<Rightarrow> int" where
  "go_rem a b = (if 0 \<le> a then a mod b else - ((- a) mod b))"

definition DispatchToClient ::
  "conn list \<Rightarrow> (conn \<Rightarrow> string option) \<Rightarrow> string \<Rightarrow> registry \<Rightarrow> string option \<times> conn option \<times> registry" where
  "DispatchToClient order write clientID h =
     (case clientHookConns h clientID of
        None \<Rightarrow> (Some (''no client connected for id: '' @ clientID), None, h)
      | Some s \<Rightarrow>
        if s = {} \<or> order = [] then (Some (''no client connected for id: '' @ clientID), None, h)
        else let len = int (length order);
                 index = (case rrState h clientID of None \<Rightarrow> 0 | Some i \<Rightarrow> i);
                 c = order ! nat (go_rem index len)
             in (write c, Some c, h\<lparr>rrState := (rrState h)(clientID \<mapsto> go_rem (wrap64 (index + 1)) len)\<rparr>))"
section \<open>Runs\<close>

text \<open>
  A connection is registered before it is greeted with the acknowledgement, so a dispatch may come in between; it reads
  messages once it is greeted. When a read fails it is closing (\<open>ws_closing\<close>): no message is read from it any more, but it
  stays in the registry, where a dispatch may pick it, until its handler has got the lock and cleaned up. \<open>ws_serving\<close> are
  the connections whose handler has registered and not yet cleaned up, \<open>ws_seen\<close> those that were ever opened.
\<close>

record ws_state =
  ws_registry :: registry
  ws_serving :: "conn \<Rightarrow> subscription option"
  ws_greeted :: "conn set"
  ws_closing :: "conn set"
  ws_seen :: "conn set"
  ws_frames :: "(conn \<times> frame) list"

definition ws_start :: ws_state where
  "ws_start = \<lparr>ws_registry = NewWebSocketHandler, ws_serving = Map.empty, ws_greeted = {}, ws_closing = {}, ws_seen = {}, ws_frames = []\<rparr>"

inductive ws_step :: "ws_state \<Rightarrow> ws_state \<Rightarrow> bool" where
  refuse: "c \<notin> ws_seen w \<Longrightarrow> handshake msg = Inl e
     \<Longrightarrow> ws_step w (w\<lparr>ws_seen := insert c (ws_seen w), ws_frames := ws_frames w @ [(c, WsError e)]\<rparr>)"
| accept: "c \<notin> ws_seen w \<Longrightarrow> handshake msg = Inr sub
     \<Longrightarrow> ws_step w (w\<lparr>ws_registry := register c sub (ws_registry w), ws_serving := (ws_serving w)(c \<mapsto> sub),
          ws_seen := insert c (ws_seen w)\<rparr>)"
| greet: "ws_serving w c = Some sub \<Longrightarrow> c \<notin> ws_greeted w
     \<Longrightarrow> ws_step w (w\<lparr>ws_greeted := insert c (ws_greeted w), ws_frames := ws_frames w @ [(c, WsAck ''subscription registered'')]\<rparr>)"
| message: "ws_serving w c = Some sub \<Longrightarrow> c \<in> ws_greeted w \<Longrightarrow> c \<notin> ws_closing w
     \<Longrightarrow> ws_step w (w\<lparr>ws_frames := ws_frames w @ [(c, on_message sub msg)]\<rparr>)"
| read_fails: "ws_serving w c = Some sub \<Longrightarrow> c \<in> ws_greeted w \<Longrightarrow> c \<notin> ws_closing w
     \<Longrightarrow> ws_step w (w\<lparr>ws_closing := insert c (ws_closing w)\<rparr>)"
| clean_up: "ws_serving w c = Some sub \<Longrightarrow> c \<in> ws_closing w
     \<Longrightarrow> ws_step w (w\<lparr>ws_registry := cleanup c sub (ws_registry w), ws_serving := (ws_serving w)(c := None),
          ws_closing := ws_closing w - {c}\<rparr>)"
| dispatch: "distinct order \<Longrightarrow> is_int64 (int (length order)) \<Longrightarrow> set order = conns_of (clientHookConns (ws_registry w)) clientID
     \<Longrightarrow> DispatchToClient order write clientID (ws_registry w) = (err, target, h')
     \<Longrightarrow> ws_step w (w\<lparr>ws_registry := h', ws_frames := ws_frames w @
          (case target of Some c \<Rightarrow> if err = None then [(c, WsPayload payload)] else [] | None \<Rightarrow> [])\<rparr>)"

inductive ws_reachable :: "ws_state \<Rightarrow> bool" where
  ws_init: "ws_reachable ws_start"
| ws_next: "ws_reachable w \<Longrightarrow> ws_step w w' \<Longrightarrow> ws_reachable w'"

inductive_cases ws_stepE: "ws_step w w'"

definition ws_ok :: "ws_state \<Rightarrow> bool" where
  "ws_ok w \<longleftrightarrow> (let h = ws_registry w in
     no_empty (clientHookConns h) \<and> no_empty (tagListenerConns h)
   \<and> (\<forall>n. conns_of (clientHookConns h) n = {c. ws_serving w c = Some (ClientHook n)})
   \<and> (\<forall>t. conns_of (tagListenerConns h) t = {c. \<exists>ts. ws_serving w c = Some (TagListener ts) \<and> t \<in> set ts})
   \<and> dom (ws_serving w) \<subseteq> ws_seen w \<and> ws_greeted w \<subseteq> ws_seen w \<and> ws_closing w \<subseteq> dom (ws_serving w)
   \<and> (\<forall>n i. rrState h n = Some i \<longrightarrow> 0 \<le> i \<and> i + 1 < 2 ^ 63))"

definition next_index :: "registry \<Rightarrow> string \<Rightarrow> int" where
  "next_index h clientID = (case rrState h clientID of None \<Rightarrow> 0 | Some i \<Rightarrow> i)"

lemma dispatch_cases:
  assumes "DispatchToClient order write clientID h = (err, target, h')" "no_empty (clientHookConns h)"
    "set order = conns_of (clientHookConns h) clientID" "0 \<le> next_index h clientID" "next_index h clientID + 1 < 2 ^ 63"
  shows "if order = [] then target = None \<and> h' = h \<and> err = Some (''no client connected for id: '' @ clientID)
     else let i = next_index h clientID; len = int (length order); c = order ! nat (i mod len)
       in target = Some c \<and> err = write c \<and> c \<in> set order \<and> h' = h\<lparr>rrState := (rrState h)(clientID \<mapsto> (i + 1) mod len)\<rparr>"
proof (cases "order = []")
  case True
  with assms show ?thesis by (auto simp: DispatchToClient_def conns_of_def no_empty_def split: option.splits)
next
  case False
  then obtain s where "clientHookConns h clientID = Some s" "s \<noteq> {}"
    using assms(3) by (auto simp: conns_of_def split: option.splits)
  moreover have "wrap64 (next_index h clientID + 1) = next_index h clientID + 1"
    using assms(4,5) by (intro wrap64_id) (simp add: is_int64_def)
  moreover have "nat (next_index h clientID mod int (length order)) < length order" using False by (simp add: nat_less_iff)
  ultimately show ?thesis
    using assms(1,4) False by (auto simp: DispatchToClient_def Let_def go_rem_def next_index_def [symmetric])
qed

lemma ws_step_ok:
  assumes "ws_step w w'" "ws_ok w"
  shows "ws_ok w'"
  using assms
proof (induction rule: ws_step.induct)
  case (accept c w msg sub)
  have new: "ws_serving w c = None" using accept by (auto simp: ws_ok_def Let_def)
  show ?case
  proof (cases sub)
    case (ClientHook n)
    with accept new show ?thesis
      by (auto simp: ws_ok_def Let_def register_def ci.get_add ci.ok_add)
  next
    case (TagListener ts)
    with accept new show ?thesis
      by (auto simp: ws_ok_def Let_def register_def ci.get_add_all ci.ok_add_all)
  qed
next
  case (clean_up w c sub)
  show ?case
  proof (cases sub)
    case (ClientHook n)
    with clean_up show ?thesis
      by (auto simp: ws_ok_def Let_def cleanup_def ci.get_del ci.ok_del)
  next
    case (TagListener ts)
    with clean_up show ?thesis
      by (auto simp: ws_ok_def Let_def cleanup_def ci.get_del_all ci.ok_del_all)
  qed
next
  case (dispatch order w clientID "write" err target h' payload)
  have ne: "no_empty (clientHookConns (ws_registry w))" using dispatch by (simp add: ws_ok_def Let_def)
  have i: "0 \<le> next_index (ws_registry w) clientID" "next_index (ws_registry w) clientID + 1 < 2 ^ 63"
    using dispatch(5) by (auto simp: ws_ok_def Let_def next_index_def split: option.split)
  note d = dispatch_cases [OF dispatch(4) ne dispatch(3) i]
  show ?case
  proof (cases "order = []")
    case True
    with d dispatch(5) show ?thesis by (simp add: ws_ok_def Let_def)
  next
    case False
    have "0 \<le> k mod int (length order) \<and> k mod int (length order) + 1 < 2 ^ 63" for k
    proof -
      have "0 \<le> k mod int (length order)" "k mod int (length order) < int (length order)" using False by simp_all
      moreover have "int (length order) < 2 ^ 63" using dispatch(2) by (simp add: is_int64_def)
      ultimately show ?thesis by linarith
    qed
    with False d dispatch(5) show ?thesis by (auto simp: ws_ok_def Let_def)
  qed
qed (auto simp: ws_ok_def Let_def)

lemma registry_ok: "ws_reachable w \<Longrightarrow> ws_ok w"
proof (induction rule: ws_reachable.induct)
  case ws_init
  then show ?case by (simp add: ws_ok_def ws_start_def NewWebSocketHandler_def no_empty_def conns_of_def)
next
  case (ws_next w w')
  then show ?case by (blast intro: ws_step_ok)
qed

text \<open>C16. The registry is exact: after any steps in any order, the connections under a client name are exactly those being
  served for it, those under a tag exactly the listeners of the tag, no key is kept without a connection, and a
  round-robin index is never negative. A connection is served from its registration until its handler has cleaned up, so
  one that is closing is still there, and one that was cleaned up is never dispatched to again.\<close>

theorem registry_reflects_connections:
  assumes "ws_reachable w"
  shows "let h = ws_registry w in
     (\<forall>n. conns_of (clientHookConns h) n = {c. ws_serving w c = Some (ClientHook n)})
   \<and> (\<forall>t. conns_of (tagListenerConns h) t = {c. \<exists>ts. ws_serving w c = Some (TagListener ts) \<and> t \<in> set ts})
   \<and> (\<forall>k. clientHookConns h k \<noteq> Some {} \<and> tagListenerConns h k \<noteq> Some {})
   \<and> ws_closing w \<subseteq> {c. ws_serving w c \<noteq> None}
   \<and> (\<forall>n i. rrState h n = Some i \<longrightarrow> 0 \<le> i \<and> i + 1 < 2 ^ 63)"
  using registry_ok [OF assms] by (simp add: ws_ok_def Let_def no_empty_def dom_def)

lemma reachable_index:
  assumes "ws_reachable w"
  shows "no_empty (clientHookConns (ws_registry w))" "0 \<le> next_index (ws_registry w) n" "next_index (ws_registry w) n + 1 < 2 ^ 63"
    "conns_of (clientHookConns (ws_registry w)) n = {c. ws_serving w c = Some (ClientHook n)}"
  using registry_ok [OF assms] by (auto simp: ws_ok_def Let_def next_index_def split: option.split)

text \<open>C38. A message goes to one connection of its client, or the sender is told that there is none: in a reachable
  registry a dispatch picks a connection that is being served for this very client name (it may be closing, and not yet
  cleaned up) and reports the error of writing to it, and it finds no connection only if none is being served; the
  connections stay registered.\<close>

theorem dispatch_reaches_client:
  assumes "ws_reachable w" "set order = conns_of (clientHookConns (ws_registry w)) clientID"
    "DispatchToClient order write clientID (ws_registry w) = (err, target, h')"
  shows "clientHookConns h' = clientHookConns (ws_registry w) \<and> tagListenerConns h' = tagListenerConns (ws_registry w)
     \<and> (case target of
          Some c \<Rightarrow> ws_serving w c = Some (ClientHook clientID) \<and> err = write c
        | None \<Rightarrow> (\<nexists>c. ws_serving w c = Some (ClientHook clientID)) \<and> err = Some (''no client connected for id: '' @ clientID))"
  using dispatch_cases [OF assms(3) reachable_index(1) [OF assms(1)] assms(2) reachable_index(2,3) [OF assms(1)]]
    assms(2) reachable_index(4) [OF assms(1), of clientID]
  by (cases "order = []") (auto simp: Let_def)

text \<open>Dispatching over and over.\<close>

fun dispatch_targets :: "conn list \<Rightarrow> (conn \<Rightarrow> string option) \<Rightarrow> string \<Rightarrow> nat \<Rightarrow> registry \<Rightarrow> conn option list" where
  "dispatch_targets order write clientID 0 h = []"
| "dispatch_targets order write clientID (Suc n) h =
     (case DispatchToClient order write clientID h of (_, target, h') \<Rightarrow> target # dispatch_targets order write clientID n h')"

lemma dispatch_targets_rotate:
  assumes "order \<noteq> []" "is_int64 (int (length order))" "no_empty (clientHookConns h)"
    "set order = conns_of (clientHookConns h) clientID" "0 \<le> next_index h clientID" "next_index h clientID + 1 < 2 ^ 63"
  shows "dispatch_targets order write clientID n h
     = map (\<lambda>k. Some (order ! nat ((next_index h clientID + int k) mod int (length order)))) [0..<n]"
  using assms(3-6)
proof (induction n arbitrary: h)
  case (Suc n)
  let ?len = "int (length order)" and ?i = "next_index h clientID"
  obtain err target h' where d: "DispatchToClient order write clientID h = (err, target, h')" by (metis prod_cases3)
  from dispatch_cases [OF d Suc.prems(1-4)] assms(1) have t: "target = Some (order ! nat (?i mod ?len))"
    "h' = h\<lparr>rrState := (rrState h)(clientID \<mapsto> (?i + 1) mod ?len)\<rparr>" by (simp_all add: Let_def)
  have i': "next_index h' clientID = (?i + 1) mod ?len" by (simp add: t(2) next_index_def)
  have "(?i + 1) mod ?len < ?len" "0 \<le> (?i + 1) mod ?len" using assms(1) by simp_all
  then have "dispatch_targets order write clientID n h'
      = map (\<lambda>k. Some (order ! nat ((next_index h' clientID + int k) mod ?len))) [0..<n]"
    using Suc.prems assms(2) by (intro Suc.IH) (simp_all add: i' is_int64_def, simp_all add: t(2))
  moreover have "(next_index h' clientID + int k) mod ?len = (?i + int (Suc k)) mod ?len" for k
    by (simp add: i' mod_simps ac_simps)
  ultimately have "dispatch_targets order write clientID n h'
      = map (\<lambda>k. Some (order ! nat ((?i + int (Suc k)) mod ?len))) [0..<n]" by simp
  then show ?case
    by (simp add: d t(1) upt_conv_Cons map_Suc_upt [symmetric] del: upt_Suc)
qed simp

lemma rotation_covers:
  assumes "(xs :: 'a list) \<noteq> []" "0 \<le> i"
  shows "mset (map (\<lambda>k. xs ! nat ((i + int k) mod int (length xs))) [0..<length xs]) = mset xs"
proof -
  let ?n = "length xs"
  have "(i + int k) mod int ?n = int ((nat i + k) mod ?n)" for k
    using assms(2) by (simp add: zmod_int)
  then have "map (\<lambda>k. xs ! nat ((i + int k) mod int ?n)) [0..<?n] = map (\<lambda>k. xs ! ((nat i + k) mod ?n)) [0..<?n]" by simp
  also have "\<dots> = rotate (nat i) xs"
    by (rule nth_equalityI) (simp_all add: nth_rotate add.commute)
  finally show ?thesis by (metis add.commute append_take_drop_id mset_append rotate_drop_take)
qed

text \<open>Dispatch is fair while the connections of a client are iterated in one order: in as many dispatches as there are
  connections, each gets one message, wherever the index stood. Go iterates a map in a new order each time,
  and then the same connection may get two messages in a row while the other gets none.\<close>

theorem dispatch_round_robin:
  assumes "ws_reachable w" "distinct order" "is_int64 (int (length order))"
    "set order = conns_of (clientHookConns (ws_registry w)) clientID"
  shows "mset (dispatch_targets order write clientID (length order) (ws_registry w)) = mset (map Some order)
     \<and> (\<forall>a b h. next_index h clientID = 0 \<and> clientHookConns h clientID = Some {a, b} \<longrightarrow>
          (case DispatchToClient [a, b] write clientID h of (_, target, h') \<Rightarrow>
             target = Some a \<and> fst (snd (DispatchToClient [b, a] write clientID h')) = Some a))"
proof (intro conjI)
  show "mset (dispatch_targets order write clientID (length order) (ws_registry w)) = mset (map Some order)"
  proof (cases "order = []")
    case False
    let ?i = "next_index (ws_registry w) clientID"
    have "dispatch_targets order write clientID (length order) (ws_registry w)
        = map Some (map (\<lambda>k. order ! nat ((?i + int k) mod int (length order))) [0..<length order])"
      using dispatch_targets_rotate [OF False assms(3) reachable_index(1) [OF assms(1)] assms(4) reachable_index(2,3) [OF assms(1)]]
      by (simp add: comp_def)
    then show ?thesis using rotation_covers [OF False reachable_index(2) [OF assms(1)]] by (metis mset_map)
  qed simp
qed (auto simp: DispatchToClient_def Let_def next_index_def go_rem_def wrap64_def split: option.splits)
section \<open>Two connections of one client\<close>

definition demo_hello :: string where
  "demo_hello = ''{\"type\":\"client-hook\",\"client_name\":\"alice\",\"token\":\"t\"}''"

lemma demo_handshake: "handshake demo_hello = Inr (ClientHook ''alice'')"
  by code_simp

definition demo_one :: ws_state where
  "demo_one = ws_start\<lparr>ws_registry := register 1 (ClientHook ''alice'') NewWebSocketHandler, ws_serving := [1 \<mapsto> ClientHook ''alice''],
     ws_seen := {1}\<rparr>"

definition demo_two :: ws_state where
  "demo_two = demo_one\<lparr>ws_registry := register 2 (ClientHook ''alice'') (ws_registry demo_one),
     ws_serving := [1 \<mapsto> ClientHook ''alice'', 2 \<mapsto> ClientHook ''alice''], ws_seen := {2, 1}\<rparr>"

lemma demo_two_reachable: "ws_reachable demo_two"
proof -
  have "ws_step ws_start demo_one"
    using ws_step.accept [of 1 ws_start demo_hello, OF _ demo_handshake] by (simp add: ws_start_def demo_one_def)
  moreover have "ws_step demo_one demo_two"
    using ws_step.accept [of 2 demo_one demo_hello, OF _ demo_handshake] by (simp add: ws_start_def demo_one_def demo_two_def)
  ultimately show ?thesis by (blast intro: ws_reachable.intros)
qed

lemma demo_two_conns: "conns_of (clientHookConns (ws_registry demo_two)) ''alice'' = {1, 2}"
  by (auto simp: demo_two_def demo_one_def ws_start_def register_def add_conn_def conns_of_def NewWebSocketHandler_def)

theorem registry_reflects_connections_witness: "{c. ws_serving demo_two c = Some (ClientHook ''alice'')} = {1, 2}"
  using registry_reflects_connections [OF demo_two_reachable] demo_two_conns unfolding Let_def by (metis (no_types))

theorem dispatch_reaches_client_witness:
  "\<exists>h'. DispatchToClient [2, 1] (\<lambda>_. None) ''alice'' (ws_registry demo_two) = (None, Some 2, h')
     \<and> ws_serving demo_two 2 = Some (ClientHook ''alice'')"
proof -
  obtain h' where d: "DispatchToClient [2, 1] (\<lambda>_. None) ''alice'' (ws_registry demo_two) = (None, Some 2, h')"
    by (simp add: DispatchToClient_def demo_two_def demo_one_def ws_start_def register_def add_conn_def NewWebSocketHandler_def go_rem_def)
  moreover have "set [2, 1] = conns_of (clientHookConns (ws_registry demo_two)) ''alice''" using demo_two_conns by auto
  from dispatch_reaches_client [OF demo_two_reachable this d] have "ws_serving demo_two 2 = Some (ClientHook ''alice'')" by simp
  ultimately show ?thesis by blast
qed

theorem dispatch_round_robin_witness:
  "mset (dispatch_targets [2, 1] (\<lambda>_. None) ''alice'' 2 (ws_registry demo_two)) = {#Some 1, Some 2#}"
proof -
  have "set [2, 1] = conns_of (clientHookConns (ws_registry demo_two)) ''alice''" using demo_two_conns by auto
  from dispatch_round_robin [OF demo_two_reachable _ _ this, of "\<lambda>_. None"] show ?thesis
    by (simp add: is_int64_def numeral_2_eq_2)
qed

end
