(* ===== verification/Tokens.thy ===== *)
theory Tokens
  imports Requests Memory Complex_Main
begin

text \<open>
  \<open>internal/services/token_service.go\<close> and \<open>internal/handlers/token_handler.go\<close>. The library of JSON web tokens is a
  parameter; \<open>jwt_ok\<close> states what it is documented to do. A type assertion or a slice out of range
  that panics is \<open>None\<close>.
\<close>

section \<open>The values of claims\<close>

text \<open>What an \<open>interface{}\<close> of the claims holds: a number is an \<open>int64\<close> when the program puts it in, and a \<open>float64\<close>
  when the library has decoded it.\<close>

datatype go_value =
    GString string
  | GInt int
  | GFloat rat
  | GBool bool
  | GNil
  | GList "go_value list"
  | GMap "(string \<times> go_value) list"

type_synonym claims = "string \<Rightarrow> go_value option"

fun as_string :: "go_value option \<Rightarrow> string option" where
  "as_string (Some (GString s)) = Some s"
| "as_string _ = None"

fun as_float :: "go_value option \<Rightarrow> rat option" where
  "as_float (Some (GFloat q)) = Some q"
| "as_float _ = None"

text \<open>The conversion of a \<open>float64\<close> to \<open>int64\<close> truncates; out of range it is left to the machine, here amd64.\<close>

definition trunc :: "rat \<Rightarrow> int" where
  "trunc q = (if q < 0 then \<lceil>q\<rceil> else \<lfloor>q\<rfloor>)"

definition int64_of_float :: "rat \<Rightarrow> int" where
  "int64_of_float q = (if is_int64 (trunc q) then trunc q else - (2 ^ 63))"

lemma trunc_int [simp]: "trunc (of_int i) = i"
  by (simp add: trunc_def)

lemma trunc_numeral [simp]: "trunc (numeral n) = numeral n"
  using trunc_int [of "numeral n"] by simp

fun convertInterfaceToStringSlice :: "go_value option \<Rightarrow> string list option" where
  "convertInterfaceToStringSlice (Some (GList vs)) = those (map (\<lambda>v. as_string (Some v)) vs)"
| "convertInterfaceToStringSlice _ = None"

section \<open>The library\<close>

datatype jwt_method = HMAC string | OtherMethod string

record parsed_token =
  jp_claims :: "claims option"
  jp_valid :: bool

record jwt =
  jwt_sign :: "string \<Rightarrow> claims \<Rightarrow> string result"
  jwt_parse :: "(jwt_method \<Rightarrow> string result) \<Rightarrow> instant \<Rightarrow> string \<Rightarrow> parsed_token result"

text \<open>What becomes of a value that is written as JSON and read back.\<close>

fun json_value_of :: "go_value \<Rightarrow> go_value" where
  "json_value_of (GInt i) = GFloat (of_int i)"
| "json_value_of v = v"

definition json_claims :: "claims \<Rightarrow> claims" where
  "json_claims c = (\<lambda>k. map_option json_value_of (c k))"

definition plain_string :: "string \<Rightarrow> bool" where
  "plain_string s \<longleftrightarrow> list_all (\<lambda>ch. (of_char ch :: nat) < 128) s"

definition exact_value :: "go_value \<Rightarrow> bool" where
  "exact_value v = (case v of GInt i \<Rightarrow> \<bar>i\<bar> \<le> 2 ^ 53 | GString s \<Rightarrow> plain_string s
     | GList vs \<Rightarrow> list_all (\<lambda>x. case x of GString s \<Rightarrow> plain_string s | _ \<Rightarrow> False) vs | _ \<Rightarrow> False)"

text \<open>The library refuses a token whose \<open>exp\<close> is past or whose \<open>nbf\<close> is to come; a zero counts as no such claim.\<close>

definition in_time :: "claims \<Rightarrow> instant \<Rightarrow> bool" where
  "in_time c now \<longleftrightarrow> (case c ''exp'' of None \<Rightarrow> True | Some (GFloat e) \<Rightarrow> e = 0 \<or> now < trunc e * second | Some _ \<Rightarrow> False)
     \<and> (case c ''nbf'' of None \<Rightarrow> True | Some (GFloat e) \<Rightarrow> e = 0 \<or> trunc e * second \<le> now | Some _ \<Rightarrow> False)"

text \<open>
  \<open>signed m key t c\<close>: the text \<open>t\<close> is a token with the claims \<open>c\<close> and a signature by method \<open>m\<close> under \<open>key\<close>. Signing makes
  such a token; parsing accepts exactly the tokens that are signed under the key which the callback returns
  for their method, while they are in time.
\<close>

definition jwt_ok :: "jwt \<Rightarrow> (jwt_method \<Rightarrow> string \<Rightarrow> string \<Rightarrow> claims \<Rightarrow> bool) \<Rightarrow> bool" where
  "jwt_ok J signed \<longleftrightarrow>
     (\<forall>key c t. (\<forall>k v. c k = Some v \<longrightarrow> exact_value v) \<and> jwt_sign J key c = Inr t \<longrightarrow> signed (HMAC ''HS256'') key t (json_claims c))
   \<and> (\<forall>kf now t m key c. signed m key t c \<and> kf m = Inr key \<and> in_time c now
        \<longrightarrow> jwt_parse J kf now t = Inr \<lparr>jp_claims = Some c, jp_valid = True\<rparr>)
   \<and> (\<forall>kf now t p. jwt_parse J kf now t = Inr p \<longrightarrow>
        (\<exists>m key c. kf m = Inr key \<and> signed m key t c \<and> in_time c now \<and> p = \<lparr>jp_claims = Some c, jp_valid = True\<rparr>))"

section \<open>The token service\<close>

record token_service =
  ts_masterToken :: string
  ts_jwtSecret :: string

definition ValidateMasterToken :: "token_service \<Rightarrow> string \<Rightarrow> bool" where
  "ValidateMasterToken ts t = (t = ts_masterToken ts)"

definition request_claims :: "create_token_request \<Rightarrow> instant \<Rightarrow> claims" where
  "request_claims req now = [''sub'' \<mapsto> GString (tr_sub req), ''access'' \<mapsto> GString (tr_access req),
     ''scope'' \<mapsto> (case tr_scope req of None \<Rightarrow> GNil | Some ss \<Rightarrow> GList (map GString ss)),
     ''exp'' \<mapsto> GInt (unix (tr_expires_at req)), ''iat'' \<mapsto> GInt (unix now)]"

definition CreateJWTToken :: "'w svc \<Rightarrow> jwt \<Rightarrow> token_service \<Rightarrow> create_token_request \<Rightarrow> ('w, string result) state" where
  "CreateJWTToken S J ts req = State_Monad.bind (time_now S)
     (\<lambda>now. State_Monad.return (jwt_sign J (ts_jwtSecret ts) (request_claims req now)))"

definition key_for :: "token_service \<Rightarrow> jwt_method \<Rightarrow> string result" where
  "key_for ts m = (case m of HMAC _ \<Rightarrow> Inr (ts_jwtSecret ts) | OtherMethod _ \<Rightarrow> Inl (Errorf ''unexpected signing method''))"

definition token_of_claims :: "claims \<Rightarrow> token option" where
  "token_of_claims c = do {
     sub \<leftarrow> as_string (c ''sub'');
     acc \<leftarrow> as_string (c ''access'');
     scope \<leftarrow> convertInterfaceToStringSlice (c ''scope'');
     e \<leftarrow> as_float (c ''exp'');
     Some \<lparr>tok_sub = sub, tok_access = acc, tok_scope = scope, tok_expires_at = int64_of_float e * second\<rparr> }"

definition ValidateJWTToken :: "'w svc \<Rightarrow> jwt \<Rightarrow> token_service \<Rightarrow> string \<Rightarrow> ('w, token result option) state" where
  "ValidateJWTToken S J ts t = State_Monad.bind (time_now S)
     (\<lambda>now. State_Monad.return
        (case jwt_parse J (key_for ts) now t of
           Inl e \<Rightarrow> Some (Inl e)
         | Inr p \<Rightarrow>
           (case jp_claims p of
              None \<Rightarrow> Some (Inl (Errorf ''invalid token claims''))
            | Some c \<Rightarrow> if \<not> jp_valid p then Some (Inl (Errorf ''invalid token claims''))
                else map_option Inr (token_of_claims c))))"

definition ValidateScope :: "token \<Rightarrow> string list \<Rightarrow> bool" where
  "ValidateScope tok requiredTags =
     (if tok_access tok = AccessLevelAdmin then True
      else list_all (\<lambda>t. List.member (tok_scope tok) t) requiredTags)"

text \<open>An unknown level is missing from the table, so its rank is zero.\<close>

definition access_rank :: "string \<Rightarrow> int" where
  "access_rank a = (if a = AccessLevelRead then 1 else if a = AccessLevelWrite then 2
     else if a = AccessLevelReadWrite then 3 else if a = AccessLevelAdmin then 4 else 0)"

definition ValidateAccess :: "token \<Rightarrow> string \<Rightarrow> bool" where
  "ValidateAccess tok required =
     (if tok_access tok = AccessLevelAdmin then True else access_rank required \<le> access_rank (tok_access tok))"

section \<open>The handlers\<close>

text \<open>\<open>authHeader[len("Bearer "):]\<close>.\<close>

definition after_bearer :: "string \<Rightarrow> string option" where
  "after_bearer h = (if length h < 7 then None else Some (drop 7 h))"

definition CreateToken :: "'w svc \<Rightarrow> jwt \<Rightarrow> token_service \<Rightarrow> string \<Rightarrow> string \<Rightarrow> ('w, response option) state" where
  "CreateToken S J ts authHeader body =
     (if authHeader = [] then State_Monad.return (Some (Reply 401 (ErrorBody ''authorization header is required'')))
      else (case after_bearer authHeader of
        None \<Rightarrow> State_Monad.return None
      | Some t \<Rightarrow>
        if \<not> ValidateMasterToken ts t then State_Monad.return (Some (Reply 401 (ErrorBody ''invalid master token'')))
        else (case bind_token body of
          Inl e \<Rightarrow> State_Monad.return (Some (Reply 400 (ErrorBody (error_text e))))
        | Inr req \<Rightarrow>
          if tr_type req \<noteq> TokenTypeJWT then State_Monad.return (Some (Reply 400 (ErrorBody ''only JWT tokens are supported'')))
          else State_Monad.bind (CreateJWTToken S J ts req)
            (\<lambda>r. State_Monad.return (Some (case r of
               Inl e \<Rightarrow> Reply 500 (ErrorBody ''failed to create token'')
             | Inr s \<Rightarrow> Reply 200 (TokenBody
                 \<lparr>ctr_token = s, ctr_type = tr_type req, ctr_sub = tr_sub req, ctr_access = tr_access req,
                  ctr_scope = (case tr_scope req of None \<Rightarrow> [] | Some ss \<Rightarrow> ss), ctr_expires_at = tr_expires_at req\<rparr>)))))))"

text \<open>A middleware replies and aborts the request, or passes it on with what it stored in the context.\<close>

datatype 'a gate = Aborted response | Passed 'a

definition AuthMiddleware ::
  "'w svc \<Rightarrow> jwt \<Rightarrow> token_service \<Rightarrow> string \<Rightarrow> string list \<Rightarrow> string \<Rightarrow> ('w, token option gate option) state" where
  "AuthMiddleware S J ts requiredAccess requiredTags authHeader =
     (if authHeader = [] then State_Monad.return (Some (Aborted (Reply 401 (ErrorBody ''authorization header is required''))))
      else (case after_bearer authHeader of
        None \<Rightarrow> State_Monad.return None
      | Some t \<Rightarrow>
        if ValidateMasterToken ts t then State_Monad.return (Some (Passed None))
        else State_Monad.bind (ValidateJWTToken S J ts t)
          (\<lambda>r. case r of
             None \<Rightarrow> State_Monad.return None
           | Some (Inl e) \<Rightarrow> State_Monad.return (Some (Aborted (Reply 401 (ErrorBody ''invalid token''))))
           | Some (Inr tok) \<Rightarrow> State_Monad.bind (time_now S)
               (\<lambda>now. State_Monad.return (Some (
                  if tok_expires_at tok < now then Aborted (Reply 401 (ErrorBody ''token has expired''))
                  else if \<not> ValidateAccess tok requiredAccess then Aborted (Reply 403 (ErrorBody ''insufficient access level''))
                  else if \<not> ValidateScope tok requiredTags then Aborted (Reply 403 (ErrorBody ''insufficient scope''))
                  else Passed (Some tok)))))))"
section \<open>Properties\<close>

declare result_return [simp]

lemma those_strings: "those (map (\<lambda>v. as_string (Some v)) (map GString ss)) = Some ss"
  by (induction ss) simp_all

lemma jwt_okD:
  assumes "jwt_ok J signed"
  shows "(\<And>k v. c k = Some v \<Longrightarrow> exact_value v) \<Longrightarrow> jwt_sign J key c = Inr t \<Longrightarrow> signed (HMAC ''HS256'') key t (json_claims c)"
    "signed m key t c' \<Longrightarrow> kf m = Inr key \<Longrightarrow> in_time c' now \<Longrightarrow> jwt_parse J kf now t = Inr \<lparr>jp_claims = Some c', jp_valid = True\<rparr>"
    "jwt_parse J kf now t = Inr p \<Longrightarrow> \<exists>m key c. kf m = Inr key \<and> signed m key t c \<and> in_time c now \<and> p = \<lparr>jp_claims = Some c, jp_valid = True\<rparr>"
  using assms unfolding jwt_ok_def by blast+

definition exact_request :: "create_token_request \<Rightarrow> bool" where
  "exact_request req \<longleftrightarrow> plain_string (tr_sub req) \<and> plain_string (tr_access req)
     \<and> (\<exists>ss. tr_scope req = Some ss \<and> list_all plain_string ss) \<and> \<bar>unix (tr_expires_at req)\<bar> \<le> 2 ^ 53"

text \<open>C21. A token that the service issues is one that it accepts: until its expiry, in whole seconds, \<open>ValidateJWTToken\<close>
  returns the subject, the access level and the scope of the request, with the expiry cut to the second.\<close>

theorem created_token_validates:
  assumes "jwt_ok J signed" "exact_request req" "\<bar>unix (result_of (time_now S) w)\<bar> \<le> 2 ^ 53"
    "result_of (CreateJWTToken S J ts req) w = Inr t"
    "result_of (time_now S) w2 < unix (tr_expires_at req) * second"
  shows "result_of (ValidateJWTToken S J ts t) w2 = Some (Inr
     \<lparr>tok_sub = tr_sub req, tok_access = tr_access req, tok_scope = the (tr_scope req),
      tok_expires_at = unix (tr_expires_at req) * second\<rparr>)"
proof -
  let ?c = "request_claims req (result_of (time_now S) w)"
  obtain ss where ss: "tr_scope req = Some ss" "list_all plain_string ss" using assms(2) by (auto simp: exact_request_def)
  have "exact_value v" if "?c k = Some v" for k v
    using that assms(2,3) ss
    by (auto simp: request_claims_def exact_request_def exact_value_def list_all_iff split: if_splits)
  moreover have "jwt_sign J (ts_jwtSecret ts) ?c = Inr t" using assms(4) by (simp add: CreateJWTToken_def result_bind)
  ultimately have sig: "signed (HMAC ''HS256'') (ts_jwtSecret ts) t (json_claims ?c)" using jwt_okD(1) [OF assms(1)] by blast
  have time: "in_time (json_claims ?c) (result_of (time_now S) w2)"
    using assms(5) by (simp add: in_time_def json_claims_def request_claims_def)
  have "is_int64 (unix (tr_expires_at req))" using assms(2) by (auto simp: exact_request_def is_int64_def)
  then have "token_of_claims (json_claims ?c) = Some \<lparr>tok_sub = tr_sub req, tok_access = tr_access req, tok_scope = ss,
      tok_expires_at = unix (tr_expires_at req) * second\<rparr>"
    by (simp add: token_of_claims_def json_claims_def request_claims_def ss(1) those_strings [simplified] int64_of_float_def)
  with jwt_okD(2) [OF assms(1) sig _ time, of "key_for ts"] ss(1) show ?thesis
    by (simp add: ValidateJWTToken_def result_bind key_for_def)
qed

text \<open>C20. Only the holder of the master token or of a token signed with the service's secret passes \<open>AuthMiddleware\<close>, and the
  latter only in time, with a sufficient access level and with all required tags in scope, unless its level is
  admin; its expiry is not past when it is looked at once more, which stops a token with the expiry zero, that the library
  lets through; and a token signed by another method than HMAC never passes. The first seven bytes of the header are not looked at.\<close>

theorem AuthMiddleware_admits:
  assumes "jwt_ok J signed" "result_of (AuthMiddleware S J ts requiredAccess requiredTags authHeader) w = Some (Passed ctx)"
  shows "7 \<le> length authHeader \<and> (let t = drop 7 authHeader in
     (t = ts_masterToken ts \<and> ctx = None)
   \<or> (\<exists>alg c tok. ctx = Some tok \<and> signed (HMAC alg) (ts_jwtSecret ts) t c \<and> token_of_claims c = Some tok
        \<and> in_time c (result_of (time_now S) w)
        \<and> result_of (time_now S) (after (ValidateJWTToken S J ts t) w) \<le> tok_expires_at tok
        \<and> (tok_access tok = AccessLevelAdmin
           \<or> access_rank requiredAccess \<le> access_rank (tok_access tok) \<and> set requiredTags \<subseteq> set (tok_scope tok))))"
proof -
  from assms(2) obtain t where t: "after_bearer authHeader = Some t"
    by (auto simp: AuthMiddleware_def split: if_splits option.splits)
  then have len: "7 \<le> length authHeader" "t = drop 7 authHeader" by (auto simp: after_bearer_def split: if_splits)
  show ?thesis
  proof (cases "t = ts_masterToken ts")
    case True
    with assms(2) t have "ctx = None" by (auto simp: AuthMiddleware_def ValidateMasterToken_def split: if_splits)
    with len True show ?thesis by simp
  next
    case False
    with assms(2) t obtain tok where tok: "result_of (ValidateJWTToken S J ts t) w = Some (Inr tok)" "ctx = Some tok"
      "result_of (time_now S) (after (ValidateJWTToken S J ts t) w) \<le> tok_expires_at tok" "ValidateAccess tok requiredAccess" "ValidateScope tok requiredTags"
      by (auto simp: AuthMiddleware_def ValidateMasterToken_def result_bind split: if_splits option.splits sum.splits)
    let ?now = "result_of (time_now S) w"
    from tok(1) obtain p c where p: "jwt_parse J (key_for ts) ?now t = Inr p" "jp_claims p = Some c" "token_of_claims c = Some tok"
      by (auto simp: ValidateJWTToken_def result_bind split: sum.splits option.splits if_splits)
    from jwt_okD(3) [OF assms(1) p(1)] obtain m key c' where m: "key_for ts m = Inr key" "signed m key t c'" "in_time c' ?now"
      "p = \<lparr>jp_claims = Some c', jp_valid = True\<rparr>" by blast
    then obtain alg where "m = HMAC alg" "key = ts_jwtSecret ts" by (auto simp: key_for_def split: jwt_method.splits)
    with m p tok(4,5) have "signed (HMAC alg) (ts_jwtSecret ts) t c" "in_time c ?now"
      "tok_access tok = AccessLevelAdmin \<or> access_rank requiredAccess \<le> access_rank (tok_access tok) \<and> set requiredTags \<subseteq> set (tok_scope tok)"
      by (auto simp: ValidateAccess_def ValidateScope_def list_all_iff split: if_splits)
    with len tok(2,3) p(3) show ?thesis unfolding Let_def by blast
  qed
qed

text \<open>\<open>CreateToken\<close> issues tokens to the holder of the master token only, of the type JWT and with the claims of the
  request. A header of one to six bytes is sliced out of range, which panics, and nothing else does.\<close>

theorem CreateToken_requires_master:
  "(result_of (CreateToken S J ts authHeader body) w = None \<longleftrightarrow> authHeader \<noteq> [] \<and> length authHeader < 7)
   \<and> (\<forall>b. result_of (CreateToken S J ts authHeader body) w = Some (Reply 200 b) \<longrightarrow>
        7 \<le> length authHeader \<and> drop 7 authHeader = ts_masterToken ts
      \<and> (\<exists>req t. bind_token body = Inr req \<and> tr_type req = TokenTypeJWT
           \<and> jwt_sign J (ts_jwtSecret ts) (request_claims req (result_of (time_now S) w)) = Inr t
           \<and> b = TokenBody \<lparr>ctr_token = t, ctr_type = TokenTypeJWT, ctr_sub = tr_sub req, ctr_access = tr_access req,
                ctr_scope = the (tr_scope req), ctr_expires_at = tr_expires_at req\<rparr>))"
proof -
  have some: "tr_scope req \<noteq> None" if "bind_token s = Inr req" for s req
    using that by (auto simp: bind_token_def bind_json_def split: option.splits if_splits)
  show ?thesis
    by (auto simp: CreateToken_def after_bearer_def ValidateMasterToken_def CreateJWTToken_def result_bind
        dest: some split: sum.splits if_splits option.splits)
qed
section \<open>A concrete library\<close>

text \<open>It knows one token. Its services are those of the concrete world, whose clock shows 120 seconds.\<close>

definition demo_token_request :: create_token_request where
  "demo_token_request = \<lparr>tr_type = ''jwt'', tr_sub = ''user1'', tr_access = ''write'', tr_scope = Some [''nightly''], tr_expires_at = 200 * second\<rparr>"

definition demo_claims :: claims where
  "demo_claims = request_claims demo_token_request (120 * second)"

definition demo_signed :: "jwt_method \<Rightarrow> string \<Rightarrow> string \<Rightarrow> claims \<Rightarrow> bool" where
  "demo_signed m key t c \<longleftrightarrow> m = HMAC ''HS256'' \<and> key = ''s3cret'' \<and> t = ''h.c.s'' \<and> c = json_claims demo_claims"

definition demo_jwt :: jwt where
  "demo_jwt =
     \<lparr>jwt_sign = (\<lambda>key c. if key = ''s3cret'' \<and> c = demo_claims then Inr ''h.c.s'' else Inl (Errorf ''unsupported'')),
      jwt_parse = (\<lambda>kf now t. if t = ''h.c.s'' \<and> kf (HMAC ''HS256'') = Inr ''s3cret'' \<and> in_time (json_claims demo_claims) now
        then Inr \<lparr>jp_claims = Some (json_claims demo_claims), jp_valid = True\<rparr> else Inl (Errorf ''token is invalid''))\<rparr>"

definition demo_tokens :: token_service where
  "demo_tokens = \<lparr>ts_masterToken = ''master'', ts_jwtSecret = ''s3cret''\<rparr>"

lemma demo_jwt_ok: "jwt_ok demo_jwt demo_signed"
  by (auto simp: jwt_ok_def demo_jwt_def demo_signed_def split: if_splits)

lemma demo_now: "result_of (time_now mem_svc) demo_mem = 120 * second"
  by (simp add: mem_svc_def result_of_def demo_mem_def)

lemma demo_issued: "result_of (CreateJWTToken mem_svc demo_jwt demo_tokens demo_token_request) demo_mem = Inr ''h.c.s''"
  by (simp add: CreateJWTToken_def result_bind demo_now demo_jwt_def demo_tokens_def demo_claims_def)

lemma demo_exact: "exact_request demo_token_request" "\<bar>unix (120 * second)\<bar> \<le> 2 ^ 53"
  by (simp_all add: exact_request_def demo_token_request_def plain_string_def unix_def second_def)

lemma demo_in_time: "120 * second < unix (tr_expires_at demo_token_request) * second"
  by (simp add: demo_token_request_def unix_def second_def)

lemma demo_token_of_claims: "token_of_claims (json_claims demo_claims)
    = Some \<lparr>tok_sub = ''user1'', tok_access = ''write'', tok_scope = [''nightly''], tok_expires_at = 200 * second\<rparr>"
  by (simp add: token_of_claims_def json_claims_def demo_claims_def request_claims_def demo_token_request_def unix_def
      second_def int64_of_float_def is_int64_def)

theorem created_token_validates_witness:
  "result_of (ValidateJWTToken mem_svc demo_jwt demo_tokens ''h.c.s'') demo_mem = Some (Inr
     \<lparr>tok_sub = ''user1'', tok_access = ''write'', tok_scope = [''nightly''], tok_expires_at = 200 * second\<rparr>)"
  using created_token_validates [OF demo_jwt_ok demo_exact(1) _ demo_issued, of demo_mem] demo_exact(2) demo_in_time
  by (simp add: demo_now) (simp add: demo_token_request_def unix_def second_def)

lemma demo_admitted:
  "result_of (AuthMiddleware mem_svc demo_jwt demo_tokens AccessLevelRead [''nightly''] ''Bearer h.c.s'') demo_mem
    = Some (Passed (Some \<lparr>tok_sub = ''user1'', tok_access = ''write'', tok_scope = [''nightly''], tok_expires_at = 200 * second\<rparr>))"
proof -
  have "in_time (json_claims demo_claims) (120 * second)"
    by (simp add: in_time_def json_claims_def demo_claims_def request_claims_def demo_token_request_def unix_def second_def)
  moreover have "after (time_now mem_svc) demo_mem = demo_mem" by (simp add: after_def mem_svc_def)
  ultimately show ?thesis
    by (simp add: AuthMiddleware_def ValidateMasterToken_def after_bearer_def ValidateJWTToken_def result_bind demo_now
        demo_jwt_def demo_tokens_def key_for_def demo_token_of_claims ValidateAccess_def ValidateScope_def access_rank_def
        access_level_defs) (simp add: after_def mem_svc_def State_Monad.bind_def demo_mem_def second_def result_of_def)
qed

theorem AuthMiddleware_admits_witness:
  "\<exists>alg c. demo_signed (HMAC alg) ''s3cret'' ''h.c.s'' c \<and> in_time c (120 * second)"
  using AuthMiddleware_admits [OF demo_jwt_ok demo_admitted] by (auto simp: Let_def demo_now demo_tokens_def)

definition demo_token_body :: string where
  "demo_token_body = ''{\"type\":\"jwt\",\"sub\":\"user1\",\"access\":\"write\",\"scope\":[\"nightly\"],\"expires_at\":\"1970-01-01T00:03:20Z\"}''"

lemma demo_bind_token: "bind_token demo_token_body = Inr demo_token_request"
  by code_simp

theorem CreateToken_requires_master_witness:
  "drop 7 ''Bearer master'' = ts_masterToken demo_tokens
   \<and> (\<exists>b. result_of (CreateToken mem_svc demo_jwt demo_tokens ''Bearer master'' demo_token_body) demo_mem = Some (Reply 200 b))"
proof -
  have "result_of (CreateToken mem_svc demo_jwt demo_tokens ''Bearer master'' demo_token_body) demo_mem
      = Some (Reply 200 (TokenBody \<lparr>ctr_token = ''h.c.s'', ctr_type = ''jwt'', ctr_sub = ''user1'', ctr_access = ''write'',
          ctr_scope = [''nightly''], ctr_expires_at = 200 * second\<rparr>))"
    using demo_issued
    by (simp add: CreateToken_def after_bearer_def ValidateMasterToken_def demo_bind_token TokenTypeJWT_def result_bind)
      (simp add: demo_tokens_def demo_token_request_def)
  with CreateToken_requires_master [of mem_svc demo_jwt demo_tokens "''Bearer master''" demo_token_body demo_mem]
  show ?thesis by blast
qed

end
