(* ===== verification/Middleware.thy ===== *)
theory Middleware
  imports Tokens
begin

text \<open>
  \<open>internal/middleware\<close>, without the rate limiter: the checks of the authorization header, the translation of errors to replies,
  request identifiers and request logging. A middleware of gin is a \<open>gate\<close>: it replies and aborts, or passes.
\<close>

section \<open>The authorization header\<close>

definition TokenAuthWithLogger :: "string \<Rightarrow> string gate" where
  "TokenAuthWithLogger authHeader =
     (if authHeader = [] then Aborted (Reply 401 (ErrorBody ''Authorization header is required''))
      else let parts = split_on (CHR '' '') authHeader in
        if length parts \<noteq> 2 \<or> parts ! 0 \<noteq> ''Bearer'' then Aborted (Reply 401 (ErrorBody ''Invalid authorization header format''))
        else if parts ! 1 = [] then Aborted (Reply 401 (ErrorBody ''Token is required''))
        else Passed (parts ! 1))"

text \<open>The same checks with the logger of the context, which falls back to one that does nothing.\<close>

definition TokenAuth :: "string \<Rightarrow> string gate" where
  "TokenAuth authHeader =
     (if authHeader = [] then Aborted (Reply 401 (ErrorBody ''Authorization header is required''))
      else let parts = split_on (CHR '' '') authHeader in
        if length parts \<noteq> 2 \<or> parts ! 0 \<noteq> ''Bearer'' then Aborted (Reply 401 (ErrorBody ''Invalid authorization header format''))
        else if parts ! 1 = [] then Aborted (Reply 401 (ErrorBody ''Token is required''))
        else Passed (parts ! 1))"

definition RequireMasterToken :: "string \<Rightarrow> string \<Rightarrow> unit gate" where
  "RequireMasterToken masterToken authHeader =
     (if authHeader = [] then Aborted (Reply 401 (ErrorBody ''Authorization header is required''))
      else let parts = split_on (CHR '' '') authHeader in
        if length parts \<noteq> 2 \<or> parts ! 0 \<noteq> ''Bearer'' then Aborted (Reply 401 (ErrorBody ''Invalid authorization header format''))
        else if parts ! 1 \<noteq> masterToken then Aborted (Reply 403 (ErrorBody ''Master token required''))
        else Passed ())"

section \<open>Errors of the context\<close>

datatype api_error =
    ValidationError string
  | AuthError string
  | NotFoundError string
  | RateLimitError string
  | OtherError string

fun api_error_text :: "api_error \<Rightarrow> string" where
  "api_error_text (ValidationError m) = m" | "api_error_text (AuthError m) = m" | "api_error_text (NotFoundError m) = m"
| "api_error_text (RateLimitError m) = m" | "api_error_text (OtherError m) = m"

definition ErrorHandler :: "api_error list \<Rightarrow> response option" where
  "ErrorHandler errs =
     (if errs = [] then None
      else let err = last errs in
        Some (Reply (case err of ValidationError _ \<Rightarrow> 400 | AuthError _ \<Rightarrow> 401 | NotFoundError _ \<Rightarrow> 404
           | RateLimitError _ \<Rightarrow> 429 | OtherError _ \<Rightarrow> 500) (ErrorBody (api_error_text err))))"

section \<open>Request identifiers\<close>

text \<open>The identifier goes into the context, the reply's header \<open>X-Request-ID\<close> and the logger.\<close>

definition RequestIDMiddleware :: "'w svc \<Rightarrow> string \<Rightarrow> ('w, string) state" where
  "RequestIDMiddleware S header = (if header = [] then new_uuid S else State_Monad.return header)"

section \<open>Request logging\<close>

record http_call =
  hc_method :: string
  hc_path :: string
  hc_ip :: string
  hc_user_agent :: string
  hc_body :: "string option"

record handled =
  hd_status :: int
  hd_body :: string
  hd_request_id :: string
  hd_errors :: string

datatype log_level = LogInfo string | LogWarn string | LogError string

record log_entry =
  le_level :: log_level
  le_status :: string
  le_method :: string
  le_path :: string
  le_ip :: string
  le_duration :: duration
  le_user_agent :: string
  le_request_id :: "string option"
  le_request_body :: "string option"
  le_response_body :: "string option"
  le_errors :: "string option"

definition nonempty :: "string \<Rightarrow> string option" where
  "nonempty s = (if s = [] then None else Some s)"

definition small_text :: "string \<Rightarrow> string option" where
  "small_text s = (if 0 < length s \<and> length s < 1024 then Some s else None)"

definition level_of_status :: "int \<Rightarrow> log_level" where
  "level_of_status st =
     (if 500 \<le> st then LogError ''Server error'' else if 400 \<le> st then LogWarn ''Client error''
      else if 300 \<le> st then LogInfo ''Redirection'' else LogInfo ''Success'')"

text \<open>The body is read once and put back, so that the rest of the chain reads the same body.\<close>

definition Logger :: "'w svc \<Rightarrow> (string option \<Rightarrow> ('w, handled) state) \<Rightarrow> http_call \<Rightarrow> ('w, handled \<times> log_entry) state" where
  "Logger S chain c = do {
     start \<leftarrow> time_now S;
     let requestBody = (case hc_body c of None \<Rightarrow> [] | Some b \<Rightarrow> b);
     r \<leftarrow> chain (map_option (\<lambda>_. requestBody) (hc_body c));
     end \<leftarrow> time_now S;
     State_Monad.return (r,
       \<lparr>le_level = level_of_status (hd_status r), le_status = show_int (hd_status r), le_method = hc_method c,
        le_path = hc_path c, le_ip = hc_ip c, le_duration = end - start, le_user_agent = hc_user_agent c,
        le_request_id = nonempty (hd_request_id r), le_request_body = small_text requestBody,
        le_response_body = small_text (hd_body r), le_errors = nonempty (hd_errors r)\<rparr>) }"

section \<open>Properties\<close>

lemma two_parts: "length ps = 2 \<and> ps ! 0 = a \<longleftrightarrow> (\<exists>b. ps = [a, b])"
  by (cases ps rule: List.list.exhaust; cases "tl ps") (auto simp: numeral_2_eq_2 length_Suc_conv)

text \<open>The headers that the checks pass.\<close>

lemma bearer_parts:
  "length (split_on (CHR '' '') h) \<noteq> 2 \<or> split_on (CHR '' '') h ! 0 \<noteq> ''Bearer'' \<longleftrightarrow> (\<nexists>b. h = ''Bearer '' @ b \<and> CHR '' '' \<notin> set b)"
  "split_on (CHR '' '') h = [''Bearer'', b] \<longleftrightarrow> h = ''Bearer '' @ b \<and> CHR '' '' \<notin> set b"
  using two_parts [of "split_on (CHR '' '') h" "''Bearer''"] by (auto simp: split_on_two)

lemma token_header: "TokenAuth h = Passed t \<longleftrightarrow> h = ''Bearer '' @ t \<and> t \<noteq> [] \<and> CHR '' '' \<notin> set t"
proof (cases "\<exists>b. h = ''Bearer '' @ b \<and> CHR '' '' \<notin> set b")
  case True
  then obtain b where h: "h = ''Bearer '' @ b" "CHR '' '' \<notin> set b" by blast
  then have "split_on (CHR '' '') h = [''Bearer'', b]" using bearer_parts(2) by blast
  then show ?thesis using h by (auto simp: TokenAuth_def)
next
  case False
  then show ?thesis using bearer_parts(1) [of h] by (auto simp: TokenAuth_def Let_def)
qed

lemma master_header: "RequireMasterToken m h = Passed () \<longleftrightarrow> h = ''Bearer '' @ m \<and> CHR '' '' \<notin> set m"
proof (cases "\<exists>b. h = ''Bearer '' @ b \<and> CHR '' '' \<notin> set b")
  case True
  then obtain b where h: "h = ''Bearer '' @ b" "CHR '' '' \<notin> set b" by blast
  then have "split_on (CHR '' '') h = [''Bearer'', b]" using bearer_parts(2) by blast
  then show ?thesis using h by (auto simp: RequireMasterToken_def)
next
  case False
  then show ?thesis using bearer_parts(1) [of h] by (auto simp: RequireMasterToken_def Let_def)
qed

text \<open>What the two checks of the header let through: \<open>TokenAuth\<close> every header of the form \<open>Bearer t\<close> with any text \<open>t\<close>
  that is not empty and has no blank, so it validates no token; \<open>RequireMasterToken\<close> exactly the header with the master
  token, and none when that has a blank. Every other header is refused with 401 or 403.\<close>

theorem header_checks_exact:
  "(TokenAuth h = Passed t \<longleftrightarrow> h = ''Bearer '' @ t \<and> t \<noteq> [] \<and> CHR '' '' \<notin> set t)
   \<and> (RequireMasterToken m h = Passed () \<longleftrightarrow> h = ''Bearer '' @ m \<and> CHR '' '' \<notin> set m)
   \<and> TokenAuthWithLogger h = TokenAuth h
   \<and> (case TokenAuth h of Passed _ \<Rightarrow> True | Aborted r \<Rightarrow> reply_status r = 401)
   \<and> (case RequireMasterToken m h of Passed _ \<Rightarrow> True | Aborted r \<Rightarrow> reply_status r \<in> {401, 403})"
proof -
  have "reply_status r = 401" if "TokenAuth h = Aborted r" for r
    using that by (auto simp: TokenAuth_def Let_def split: if_splits)
  moreover have "reply_status r \<in> {401, 403}" if "RequireMasterToken m h = Aborted r" for r
    using that by (auto simp: RequireMasterToken_def Let_def split: if_splits)
  moreover have "TokenAuthWithLogger h = TokenAuth h"
    by (simp add: TokenAuthWithLogger_def TokenAuth_def)
  ultimately show ?thesis
    by (simp add: token_header master_header split: gate.split)
qed

end
