(* ===== verification/RateLimit.thy ===== *)
theory RateLimit
  imports Middleware
begin

text \<open>
  \<open>internal/middleware/rate_limit.go\<close>: a token bucket for each client in two Redis keys that expire. The interface
  \<open>expiring_store\<close> is what the limiter relies on: reading a key, a transaction of writes that
  expire, and the clock. It is interpreted by a model of Redis with expiry.
\<close>

section \<open>The store\<close>

record 'w ttl_redis =
  ttl_get :: "string \<Rightarrow> ('w, string + string option) state"
  ttl_exec :: "(string \<times> string \<times> duration) list \<Rightarrow> ('w, string option) state"
  ttl_now :: "('w, instant) state"

definition put_all :: "(string \<times> string \<times> duration) list \<Rightarrow> (string \<Rightarrow> string option) \<Rightarrow> string \<Rightarrow> string option" where
  "put_all cmds m = fold (\<lambda>(k, v, _) m. m(k \<mapsto> v)) cmds m"

locale expiring_store =
  fixes R :: "'w ttl_redis"
    and val :: "'w \<Rightarrow> string \<Rightarrow> string option"
    and clock :: "'w \<Rightarrow> instant"
  assumes get: "wp (ttl_get R k) (\<lambda>r w'. val w' = val w \<and> clock w' = clock w \<and> (\<forall>v. r = Inr v \<longrightarrow> v = val w k)) w"
    and exec: "(\<And>k v d. (k, v, d) \<in> set cmds \<Longrightarrow> 0 < d) \<Longrightarrow> wp (ttl_exec R cmds) (\<lambda>r w'. clock w' = clock w
      \<and> (val w' = put_all cmds (val w) \<or> r \<noteq> None \<and> val w' = val w)) w"
    and now: "wp (ttl_now R) (\<lambda>t w'. t = clock w \<and> val w' = val w \<and> clock w' = clock w) w"
    and clock_range: "is_int64 (unix (clock w))"

section \<open>The limiter\<close>

record rate_limiter =
  rl_bucketSize :: int
  rl_refillRate :: int
  rl_windowInSec :: int

definition default_limiter :: rate_limiter where
  "default_limiter = \<lparr>rl_bucketSize = 100, rl_refillRate = 10, rl_windowInSec = 1\<rparr>"

definition NewRateLimiter :: "(rate_limiter \<Rightarrow> rate_limiter) list \<Rightarrow> rate_limiter" where
  "NewRateLimiter opts = fold (\<lambda>opt rl. opt rl) opts default_limiter"

definition WithBucketSize :: "int \<Rightarrow> rate_limiter \<Rightarrow> rate_limiter" where
  "WithBucketSize n rl = rl\<lparr>rl_bucketSize := n\<rparr>"

definition WithRefillRate :: "int \<Rightarrow> rate_limiter \<Rightarrow> rate_limiter" where
  "WithRefillRate rate rl = rl\<lparr>rl_refillRate := rate\<rparr>"

definition WithWindow :: "int \<Rightarrow> rate_limiter \<Rightarrow> rate_limiter" where
  "WithWindow seconds rl = rl\<lparr>rl_windowInSec := seconds\<rparr>"

text \<open>The headers of a reply, before formatting; \<open>rh_retry\<close> is the refill rate, whose reciprocal is the header
  \<open>Retry-After\<close>.\<close>

record rate_headers =
  rh_limit :: int
  rh_remaining :: int
  rh_reset :: int
  rh_retry :: "int option"

definition client_id :: "string \<Rightarrow> string \<Rightarrow> string" where
  "client_id ip token_id = (if token_id \<noteq> [] then token_id else ip)"

definition bucket_key :: "string \<Rightarrow> string" where
  "bucket_key c = ''rate_limit:'' @ c @ '':bucket''"

definition last_update_key :: "string \<Rightarrow> string" where
  "last_update_key c = ''rate_limit:'' @ c @ '':last_update''"

text \<open>An integer read from the store: the default for a missing key, an error for anything that is not a number.\<close>

definition stored_int :: "int \<Rightarrow> string + string option \<Rightarrow> int option" where
  "stored_int d r = (case r of Inl _ \<Rightarrow> None | Inr None \<Rightarrow> Some d | Inr (Some s) \<Rightarrow> parse_int s)"

definition refilled :: "rate_limiter \<Rightarrow> int \<Rightarrow> int \<Rightarrow> int \<Rightarrow> int" where
  "refilled L now tokens lastUpdate =
     (let sum = wrap64 (tokens + wrap64 (wrap64 (now - lastUpdate) * rl_refillRate L))
      in if sum < rl_bucketSize L then sum else rl_bucketSize L)"

definition bucket_writes :: "rate_limiter \<Rightarrow> string \<Rightarrow> int \<Rightarrow> int \<Rightarrow> (string \<times> string \<times> duration) list" where
  "bucket_writes L c tokens now =
     [(bucket_key c, show_int tokens, dur_mul (rl_windowInSec L) second),
      (last_update_key c, show_int now, dur_mul (rl_windowInSec L) second)]"

text \<open>
  A request reads the clock and, with two commands of their own, the bucket (\<open>read_bucket\<close>): it is answered at once, or gets
  the tokens it has found and the second. Then it writes what it leaves of the bucket in a transaction (\<open>take_token\<close>). The
  transaction holds the two writes only, so other requests may come in between the halves.
\<close>

definition read_bucket :: "'w ttl_redis \<Rightarrow> rate_limiter \<Rightarrow> string \<Rightarrow> ('w, (unit gate \<times> rate_headers option) + int \<times> int) state" where
  "read_bucket R L c = do {
     t \<leftarrow> ttl_now R;
     let now = unix t;
     b \<leftarrow> ttl_get R (bucket_key c);
     (case stored_int (rl_bucketSize L) b of
        None \<Rightarrow> State_Monad.return (Inl (Aborted (Reply 500 (ErrorBody ''Rate limit check failed'')), None))
      | Some tokens0 \<Rightarrow> do {
          u \<leftarrow> ttl_get R (last_update_key c);
          State_Monad.return (case stored_int now u of
             None \<Rightarrow> Inl (Aborted (Reply 500 (ErrorBody ''Rate limit check failed'')), None)
           | Some lastUpdate \<Rightarrow>
             let tokens = refilled L now tokens0 lastUpdate in
             if tokens \<le> 0 then
               Inl (Aborted (Reply 429 (ErrorBody ''Rate limit exceeded'')),
                 Some \<lparr>rh_limit = rl_bucketSize L, rh_remaining = 0, rh_reset = wrap64 (now + 1), rh_retry = Some (rl_refillRate L)\<rparr>)
             else Inr (tokens, now)) }) }"

definition take_token :: "'w ttl_redis \<Rightarrow> rate_limiter \<Rightarrow> string \<Rightarrow> int \<times> int \<Rightarrow> ('w, unit gate \<times> rate_headers option) state" where
  "take_token R L c p = (case p of (tokens, now) \<Rightarrow> do {
     e \<leftarrow> ttl_exec R (bucket_writes L c (tokens - 1) now);
     State_Monad.return (case e of
        Some _ \<Rightarrow> (Aborted (Reply 500 (ErrorBody ''Rate limit update failed'')), None)
      | None \<Rightarrow> (Passed (), Some \<lparr>rh_limit = rl_bucketSize L, rh_remaining = tokens - 1,
           rh_reset = wrap64 (now + rl_windowInSec L), rh_retry = None\<rparr>)) })"

definition RateLimit :: "'w ttl_redis \<Rightarrow> rate_limiter \<Rightarrow> string \<Rightarrow> ('w, unit gate \<times> rate_headers option) state" where
  "RateLimit R L c = do {
     r \<leftarrow> read_bucket R L c;
     (case r of Inl reply \<Rightarrow> State_Monad.return reply | Inr p \<Rightarrow> take_token R L c p) }"

text \<open>The middleware as one list of calls.\<close>

lemma RateLimit_code:
  "RateLimit R L c = do {
     t \<leftarrow> ttl_now R;
     let now = unix t;
     b \<leftarrow> ttl_get R (bucket_key c);
     (case stored_int (rl_bucketSize L) b of
        None \<Rightarrow> State_Monad.return (Aborted (Reply 500 (ErrorBody ''Rate limit check failed'')), None)
      | Some tokens0 \<Rightarrow> do {
          u \<leftarrow> ttl_get R (last_update_key c);
          (case stored_int now u of
             None \<Rightarrow> State_Monad.return (Aborted (Reply 500 (ErrorBody ''Rate limit check failed'')), None)
           | Some lastUpdate \<Rightarrow>
             let tokens = refilled L now tokens0 lastUpdate in
             if tokens \<le> 0 then
               State_Monad.return (Aborted (Reply 429 (ErrorBody ''Rate limit exceeded'')),
                 Some \<lparr>rh_limit = rl_bucketSize L, rh_remaining = 0, rh_reset = wrap64 (now + 1), rh_retry = Some (rl_refillRate L)\<rparr>)
             else do {
               e \<leftarrow> ttl_exec R (bucket_writes L c (tokens - 1) now);
               State_Monad.return (case e of
                  Some _ \<Rightarrow> (Aborted (Reply 500 (ErrorBody ''Rate limit update failed'')), None)
                | None \<Rightarrow> (Passed (), Some \<lparr>rh_limit = rl_bucketSize L, rh_remaining = tokens - 1,
                     rh_reset = wrap64 (now + rl_windowInSec L), rh_retry = None\<rparr>)) }) }) }"
  unfolding RateLimit_def read_bucket_def take_token_def Let_def
  by (simp add: State_Monad.bind_def fun_eq_iff split: prod.split option.split)

section \<open>One request\<close>

lemma keys_differ [simp]: "bucket_key c \<noteq> last_update_key c'" "last_update_key c' \<noteq> bucket_key c"
proof -
  have "last (bucket_key c) \<noteq> last (last_update_key c')" by (simp add: bucket_key_def last_update_key_def)
  then show "bucket_key c \<noteq> last_update_key c'" "last_update_key c' \<noteq> bucket_key c" by metis+
qed

lemma put_bucket:
  "put_all (bucket_writes L c t now) m (bucket_key c) = Some (show_int t)"
  "put_all (bucket_writes L c t now) m (last_update_key c) = Some (show_int now)"
  by (simp_all add: put_all_def bucket_writes_def)

text \<open>The bucket as a request at second \<open>now\<close> finds it.\<close>

definition bucket_of :: "rate_limiter \<Rightarrow> string \<Rightarrow> int \<Rightarrow> (string \<Rightarrow> string option) \<Rightarrow> (int \<times> int) option" where
  "bucket_of L c now m =
     (case stored_int (rl_bucketSize L) (Inr (m (bucket_key c))) of
        None \<Rightarrow> None
      | Some t \<Rightarrow> (case stored_int now (Inr (m (last_update_key c))) of None \<Rightarrow> None | Some u \<Rightarrow> Some (t, u)))"

text \<open>
  The requests of one client that come one after another, each answered before the next one arrives, with the number of those
  that passed: between them time passes, and other clients may change other keys, but the two keys of this client do
  not expire.
\<close>

inductive rl_run ::
  "'w ttl_redis \<Rightarrow> ('w \<Rightarrow> string \<Rightarrow> string option) \<Rightarrow> ('w \<Rightarrow> instant) \<Rightarrow> rate_limiter \<Rightarrow> string \<Rightarrow> 'w \<Rightarrow> nat \<Rightarrow> 'w \<Rightarrow> bool"
  for R val clock L c w0 where
  start: "rl_run R val clock L c w0 0 w0"
| request: "rl_run R val clock L c w0 n w \<Longrightarrow> run_state (RateLimit R L c) w = ((g, h), w')
    \<Longrightarrow> rl_run R val clock L c w0 (if g = Passed () then Suc n else n) w'"
| pass_time: "rl_run R val clock L c w0 n w \<Longrightarrow> val w' (bucket_key c) = val w (bucket_key c)
    \<Longrightarrow> val w' (last_update_key c) = val w (last_update_key c) \<Longrightarrow> clock w \<le> clock w'
    \<Longrightarrow> rl_run R val clock L c w0 n w'"

text \<open>
  The requests of one client that overlap: \<open>ps\<close> is what the requests in flight have read and not yet written. A request
  reads while others are in flight, and they write in any order.
\<close>

inductive rl_race ::
  "'w ttl_redis \<Rightarrow> ('w \<Rightarrow> string \<Rightarrow> string option) \<Rightarrow> ('w \<Rightarrow> instant) \<Rightarrow> rate_limiter \<Rightarrow> string \<Rightarrow> 'w
    \<Rightarrow> (int \<times> int) list \<Rightarrow> nat \<Rightarrow> 'w \<Rightarrow> bool"
  for R val clock L c w0 where
  race_start: "rl_race R val clock L c w0 [] 0 w0"
| answered: "rl_race R val clock L c w0 ps n w \<Longrightarrow> run_state (read_bucket R L c) w = (Inl reply, w')
    \<Longrightarrow> rl_race R val clock L c w0 ps n w'"
| reads: "rl_race R val clock L c w0 ps n w \<Longrightarrow> run_state (read_bucket R L c) w = (Inr p, w')
    \<Longrightarrow> rl_race R val clock L c w0 (ps @ [p]) n w'"
| writes: "rl_race R val clock L c w0 (ps @ p # qs) n w \<Longrightarrow> run_state (take_token R L c p) w = ((g, h), w')
    \<Longrightarrow> rl_race R val clock L c w0 (ps @ qs) (if g = Passed () then Suc n else n) w'"
| race_time: "rl_race R val clock L c w0 ps n w \<Longrightarrow> val w' (bucket_key c) = val w (bucket_key c)
    \<Longrightarrow> val w' (last_update_key c) = val w (last_update_key c) \<Longrightarrow> clock w \<le> clock w'
    \<Longrightarrow> rl_race R val clock L c w0 ps n w'"

definition sane_limiter :: "rate_limiter \<Rightarrow> bool" where
  "sane_limiter L \<longleftrightarrow> 0 \<le> rl_bucketSize L \<and> rl_bucketSize L < 2 ^ 62 \<and> 0 < rl_refillRate L \<and> 0 < dur_mul (rl_windowInSec L) second"

text \<open>The tokens in the bucket and the requests that passed are covered by the bucket's size and the refill since the start.\<close>

definition covered :: "rate_limiter \<Rightarrow> string \<Rightarrow> int \<Rightarrow> nat \<Rightarrow> int \<Rightarrow> (string \<Rightarrow> string option) \<Rightarrow> bool" where
  "covered L c t0 n now m \<longleftrightarrow> n = 0 \<or> (\<exists>t u. m (bucket_key c) = Some (show_int t) \<and> m (last_update_key c) = Some (show_int u)
     \<and> 0 \<le> t \<and> t \<le> rl_bucketSize L \<and> t0 \<le> u \<and> u \<le> now \<and> int n + t \<le> rl_bucketSize L + rl_refillRate L * (u - t0))"

lemma refilled_exact:
  assumes L: "sane_limiter L" and t: "0 \<le> t" "t \<le> rl_bucketSize L" and u: "t0 \<le> u" "u \<le> now"
    and small: "rl_refillRate L * (now - t0) < 2 ^ 62"
  shows "refilled L now t u \<le> t + rl_refillRate L * (now - u)" "refilled L now t u \<le> rl_bucketSize L"
proof -
  let ?r = "rl_refillRate L" and ?e = "now - u"
  from L have r: "1 \<le> ?r" by (simp add: sane_limiter_def)
  have e: "0 \<le> ?e" "?e \<le> now - t0" using u by simp_all
  have "now - t0 \<le> ?r * (now - t0)" using r e mult_right_mono [of 1 ?r "now - t0"] by simp
  then have "?e < 2 ^ 62" using e(2) small by (meson le_less_trans order_trans)
  then have 1: "wrap64 ?e = ?e" using e by (intro wrap64_id) (simp add: is_int64_def)
  have m: "0 \<le> ?r * ?e" "?r * ?e \<le> ?r * (now - t0)" using r e by (simp_all add: mult_left_mono)
  then have 2: "wrap64 (?e * ?r) = ?e * ?r" using small by (intro wrap64_id) (simp add: is_int64_def mult.commute)
  have "wrap64 (t + ?e * ?r) = t + ?e * ?r"
  proof (rule wrap64_id)
    have "?r * ?e < 2 ^ 62" by (rule le_less_trans [OF m(2) small])
    moreover have "t < 2 ^ 62" using t L by (simp add: sane_limiter_def)
    ultimately have "t + ?r * ?e < 2 ^ 63" "0 \<le> t + ?r * ?e" using m(1) t by simp_all
    then show "is_int64 (t + ?e * ?r)" by (simp add: is_int64_def mult.commute)
  qed
  with 1 2 show "refilled L now t u \<le> t + ?r * ?e" by (simp add: refilled_def Let_def mult.commute)
qed (simp add: refilled_def Let_def)

lemma covered_request:
  assumes L: "sane_limiter L" and cov: "covered L c t0 n now m" and b: "bucket_of L c now m = Some (t, u)"
    and pos: "0 < refilled L now t u" and t0: "t0 \<le> now" "is_int64 t0" "is_int64 now"
    and small: "rl_refillRate L * (now - t0) < 2 ^ 62" and k: "k \<le> Suc n"
  shows "covered L c t0 k now (put_all (bucket_writes L c (refilled L now t u - 1) now) m)"
proof -
  let ?s = "rl_bucketSize L" and ?r = "rl_refillRate L" and ?t' = "refilled L now t u - 1"
  have le: "?t' \<le> ?s - 1" by (simp add: refilled_def Let_def)
  have "int k + ?t' \<le> ?s + ?r * (now - t0)"
  proof (cases "n = 0")
    case True
    moreover have "0 \<le> ?r * (now - t0)" using L t0 by (simp add: sane_limiter_def)
    ultimately show ?thesis using le k by linarith
  next
    case False
    with cov obtain t1 u1 where s: "m (bucket_key c) = Some (show_int t1)" "m (last_update_key c) = Some (show_int u1)"
      "0 \<le> t1" "t1 \<le> ?s" "t0 \<le> u1" "u1 \<le> now" "int n + t1 \<le> ?s + ?r * (u1 - t0)" by (auto simp: covered_def)
    have "is_int64 t1" "is_int64 u1" using s t0 L by (auto simp: is_int64_def sane_limiter_def)
    then have "t = t1" "u = u1" using b s by (simp_all add: bucket_of_def stored_int_def parse_int_show_int)
    then have "?t' + 1 \<le> t1 + ?r * (now - u1)" using refilled_exact(1) [OF L s(3-6) small] by simp
    moreover have "?r * (u1 - t0) + ?r * (now - u1) = ?r * (now - t0)" by (simp add: algebra_simps)
    ultimately show ?thesis using s(7) k by linarith
  qed
  with le pos t0(1) show ?thesis unfolding covered_def put_bucket by (intro disjI2 exI conjI) auto
qed

lemma unix_mono: "a \<le> b \<Longrightarrow> unix a \<le> unix b"
  by (simp add: unix_def zdiv_mono1 second_def)

context expiring_store
begin

lemma read_bucket_wp:
  "wp (read_bucket R L c) (\<lambda>r w'. val w' = val w \<and> clock w' = clock w \<and>
     (let now = unix (clock w); b = bucket_of L c now (val w) in
       (\<forall>g h. r = Inl (g, h) \<longrightarrow> g \<noteq> Passed ())
     \<and> (\<forall>p. r = Inr p \<longrightarrow> (\<exists>t u. b = Some (t, u) \<and> 0 < refilled L now t u \<and> p = (refilled L now t u, now)))
     \<and> ((\<forall>k w. \<exists>v. result_of (ttl_get R k) w = Inr v) \<longrightarrow> (\<forall>t u. b = Some (t, u) \<and> 0 < refilled L now t u
          \<longrightarrow> r = Inr (refilled L now t u, now))))) w"
proof -
  have get': "wp (ttl_get R k) (\<lambda>r w'. (val w' = val w \<and> clock w' = clock w \<and> (\<forall>v. r = Inr v \<longrightarrow> v = val w k))
      \<and> ((\<forall>k w. \<exists>v. result_of (ttl_get R k) w = Inr v) \<longrightarrow> (\<exists>v. r = Inr v))) w" for k w
    by (rule wp_conj [OF get]) (auto simp: wp_def result_of_def split: prod.split, metis fst_conv)
  show ?thesis
    unfolding read_bucket_def wp_bind Let_def
  proof (rule wp_mono [OF now], goal_cases)
    case (1 t w1)
    note w1 = 1
    show ?case
    proof (rule wp_mono [OF get'], goal_cases)
      case (1 b w2)
      note w2 = 1
      show ?case
      proof (cases "stored_int (rl_bucketSize L) b")
        case None
        then show ?thesis using w1 w2 by (auto simp: bucket_of_def split: option.splits)
      next
        case (Some tokens0)
        then have b: "b = Inr (val w (bucket_key c))" using w1 w2 by (cases b) (auto simp: stored_int_def)
        have "wp (ttl_get R (last_update_key c)) (\<lambda>u w3. val w3 = val w \<and> clock w3 = clock w \<and> (\<forall>v. u = Inr v \<longrightarrow> v = val w (last_update_key c))
            \<and> ((\<forall>k w. \<exists>v. result_of (ttl_get R k) w = Inr v) \<longrightarrow> (\<exists>v. u = Inr v))) w2"
          by (rule wp_mono [OF get']) (use w1 w2 in auto)
        then show ?thesis
          unfolding Some option.case wp_bind
        proof (rule wp_mono, goal_cases)
          case (1 u w3)
          let ?now = "unix (clock w)"
          have bo: "bucket_of L c ?now (val w) = (case stored_int ?now (Inr (val w (last_update_key c))) of None \<Rightarrow> None | Some u \<Rightarrow> Some (tokens0, u))"
            using Some by (simp add: bucket_of_def b)
          show ?case
          proof (cases u)
            case (Inl e)
            then show ?thesis using 1 w1 by (auto simp: stored_int_def)
          next
            case (Inr v)
            then show ?thesis using 1 w1 bo by (auto simp: Let_def split: option.split)
          qed
        qed
      qed
    qed
  qed
qed

lemma take_token_wp:
  assumes win: "0 < dur_mul (rl_windowInSec L) second"
  shows "wp (take_token R L c (t, s)) (\<lambda>(g, h) w'. clock w' = clock w
     \<and> (val w' = put_all (bucket_writes L c (t - 1) s) (val w) \<or> g \<noteq> Passed () \<and> val w' = val w)
     \<and> (g = Passed () \<longrightarrow> (\<exists>hd. h = Some hd \<and> rh_remaining hd = t - 1))
     \<and> ((\<forall>cmds w. result_of (ttl_exec R cmds) w = None) \<longrightarrow> g = Passed ())) w"
proof -
  have "0 < d" if "(k, v, d) \<in> set (bucket_writes L c (t - 1) s)" for k v d
    using that win by (auto simp: bucket_writes_def)
  then have "wp (ttl_exec R (bucket_writes L c (t - 1) s)) (\<lambda>r w'. (clock w' = clock w
      \<and> (val w' = put_all (bucket_writes L c (t - 1) s) (val w) \<or> r \<noteq> None \<and> val w' = val w))
      \<and> ((\<forall>cmds w. result_of (ttl_exec R cmds) w = None) \<longrightarrow> r = None)) w"
    by (intro wp_conj exec) (auto simp: wp_def result_of_def split: prod.split, metis fst_conv)
  then show ?thesis
    unfolding take_token_def prod.case wp_bind by (rule wp_mono) (auto split: option.split)
qed

lemma request_wp:
  assumes win: "0 < dur_mul (rl_windowInSec L) second"
  shows "wp (RateLimit R L c) (\<lambda>(g, h) w'. clock w' = clock w \<and>
     (let now = unix (clock w) in
       (g \<noteq> Passed () \<and> val w' = val w)
     \<or> (\<exists>t u. bucket_of L c now (val w) = Some (t, u) \<and> 0 < refilled L now t u
          \<and> val w' = put_all (bucket_writes L c (refilled L now t u - 1) now) (val w)
          \<and> (g = Passed () \<longrightarrow> (\<exists>hd. h = Some hd \<and> rh_remaining hd = refilled L now t u - 1))))) w"
  unfolding RateLimit_def wp_bind
proof (rule wp_mono [OF read_bucket_wp], goal_cases)
  case (1 r w1)
  show ?case
  proof (cases r)
    case (Inl reply)
    with 1 show ?thesis by (cases reply) (simp add: Let_def)
  next
    case (Inr p)
    with 1 obtain t u where p: "bucket_of L c (unix (clock w)) (val w) = Some (t, u)" "0 < refilled L (unix (clock w)) t u"
      "p = (refilled L (unix (clock w)) t u, unix (clock w))" by (auto simp: Let_def)
    show ?thesis
      unfolding Inr sum.case p(3) by (rule wp_mono [OF take_token_wp [OF win]]) (use 1 p in \<open>auto simp: Let_def\<close>)
  qed
qed

text \<open>Requests that read before the first of them writes.\<close>

lemma all_read:
  assumes ans: "\<And>k w. \<exists>v. result_of (ttl_get R k) w = Inr v"
    and b: "bucket_of L c (unix (clock w)) (val w) = Some (t, u)" "0 < refilled L (unix (clock w)) t u"
  shows "\<exists>w'. rl_race R val clock L c w (replicate n (refilled L (unix (clock w)) t u, unix (clock w))) 0 w'
    \<and> val w' = val w \<and> clock w' = clock w"
proof (induction n)
  case 0
  show ?case by (auto intro: race_start)
next
  case (Suc n)
  then obtain w1 where w1: "rl_race R val clock L c w (replicate n (refilled L (unix (clock w)) t u, unix (clock w))) 0 w1"
    "val w1 = val w" "clock w1 = clock w" by blast
  obtain r w2 where r: "run_state (read_bucket R L c) w1 = (r, w2)" by fastforce
  note q = wp_run [OF read_bucket_wp r, unfolded Let_def w1(2,3)]
  have p: "r = Inr (refilled L (unix (clock w)) t u, unix (clock w))" "val w2 = val w" "clock w2 = clock w"
    using q ans b by blast+
  from rl_race.reads [OF w1(1) r [unfolded p(1)]] p(2,3) show ?case
    by (intro exI [of _ w2]) (simp add: replicate_append_same)
qed

lemma all_write:
  assumes ans: "\<And>cmds w. result_of (ttl_exec R cmds) w = None" and win: "0 < dur_mul (rl_windowInSec L) second"
    and race: "rl_race R val clock L c w0 (replicate n (t, s)) k w"
  shows "\<exists>w'. rl_race R val clock L c w0 [] (n + k) w' \<and> clock w' = clock w
    \<and> (0 < n \<longrightarrow> val w' (bucket_key c) = Some (show_int (t - 1)))"
  using race
proof (induction n arbitrary: k w)
  case (Suc n)
  obtain g h w1 where run: "run_state (take_token R L c (t, s)) w = ((g, h), w1)"
    by (metis surj_pair)
  from wp_run [OF take_token_wp [OF win] run] ans have g: "g = Passed ()" "clock w1 = clock w"
    "val w1 = put_all (bucket_writes L c (t - 1) s) (val w)" by auto
  from Suc.prems have "rl_race R val clock L c w0 ([] @ (t, s) # replicate n (t, s)) k w" by simp
  from rl_race.writes [OF this run] g have w1: "rl_race R val clock L c w0 (replicate n (t, s)) (Suc k) w1" by simp
  from Suc.IH [OF this] g(2,3) w1 show ?case
    by (cases n) (auto simp: put_bucket)
qed auto

lemma race_admits_all:
  assumes "\<And>k w. \<exists>v. result_of (ttl_get R k) w = Inr v" "\<And>cmds w. result_of (ttl_exec R cmds) w = None"
    "0 < dur_mul (rl_windowInSec L) second"
    "bucket_of L c (unix (clock w)) (val w) = Some (t, u)" "0 < refilled L (unix (clock w)) t u"
  shows "\<exists>w'. rl_race R val clock L c w [] n w' \<and> clock w' = clock w
    \<and> (0 < n \<longrightarrow> val w' (bucket_key c) = Some (show_int (refilled L (unix (clock w)) t u - 1)))"
proof -
  obtain w1 where "rl_race R val clock L c w (replicate n (refilled L (unix (clock w)) t u, unix (clock w))) 0 w1" "clock w1 = clock w"
    using all_read [OF assms(1,4,5)] by blast
  with all_write [OF assms(2,3), of c w n] show ?thesis by fastforce
qed

text \<open>Requests one after another are the special case that nobody else is in flight.\<close>

lemma run_races: "rl_run R val clock L c w0 n w \<Longrightarrow> rl_race R val clock L c w0 [] n w"
proof (induction rule: rl_run.induct)
  case (request n w g h w')
  obtain r w1 where r: "run_state (read_bucket R L c) w = (r, w1)" by fastforce
  show ?case
  proof (cases r)
    case (Inl reply)
    then have "reply = (g, h)" "w1 = w'" using request(2) r by (simp_all add: RateLimit_def State_Monad.bind_def)
    with rl_race.answered [OF request(3)] r Inl wp_run [OF read_bucket_wp r] show ?thesis by (auto simp: Let_def)
  next
    case (Inr p)
    then have "run_state (take_token R L c p) w1 = ((g, h), w')" using request(2) r by (simp add: RateLimit_def State_Monad.bind_def)
    moreover have "rl_race R val clock L c w0 ([] @ p # []) n w1" using rl_race.reads [OF request(3)] r Inr by simp
    ultimately show ?thesis using rl_race.writes [of R val clock L c w0 "[]" p "[]"] by simp
  qed
qed (auto intro: rl_race.intros)

lemma run_covered:
  assumes L: "sane_limiter L" and run: "rl_run R val clock L c w0 n w"
  shows "clock w0 \<le> clock w \<and> (rl_refillRate L * (unix (clock w) - unix (clock w0)) < 2 ^ 62 \<longrightarrow>
     covered L c (unix (clock w0)) n (unix (clock w)) (val w))"
  using run
proof (induction rule: rl_run.induct)
  case start
  then show ?case by (simp add: covered_def)
next
  case (request n w g h w')
  have win: "0 < dur_mul (rl_windowInSec L) second" using L by (simp add: sane_limiter_def)
  let ?now = "unix (clock w)"
  from wp_run [OF request_wp [OF win] request(2)] have clk: "clock w' = clock w" and
    step: "(g \<noteq> Passed () \<and> val w' = val w) \<or> (\<exists>t u. bucket_of L c ?now (val w) = Some (t, u) \<and> 0 < refilled L ?now t u
          \<and> val w' = put_all (bucket_writes L c (refilled L ?now t u - 1) ?now) (val w))"
    by (auto simp: Let_def)
  show ?case
  proof (intro conjI impI)
    show "clock w0 \<le> clock w'" using request(3) clk by simp
    assume "rl_refillRate L * (unix (clock w') - unix (clock w0)) < 2 ^ 62"
    then have small: "rl_refillRate L * (?now - unix (clock w0)) < 2 ^ 62" and
      cov: "covered L c (unix (clock w0)) n ?now (val w)" using request(3) clk by simp_all
    from step show "covered L c (unix (clock w0)) (if g = Passed () then Suc n else n) (unix (clock w')) (val w')"
    proof
      assume "g \<noteq> Passed () \<and> val w' = val w"
      with cov clk show ?thesis by simp
    next
      assume "\<exists>t u. bucket_of L c ?now (val w) = Some (t, u) \<and> 0 < refilled L ?now t u
          \<and> val w' = put_all (bucket_writes L c (refilled L ?now t u - 1) ?now) (val w)"
      then obtain t u where tu: "bucket_of L c ?now (val w) = Some (t, u)" "0 < refilled L ?now t u"
        "val w' = put_all (bucket_writes L c (refilled L ?now t u - 1) ?now) (val w)" by blast
      have t0: "unix (clock w0) \<le> ?now" using request(3) unix_mono by simp
      show ?thesis
        unfolding clk tu(3)
        by (rule covered_request [OF L cov tu(1,2) t0 clock_range clock_range small]) simp
    qed
  qed
next
  case (pass_time n w w')
  let ?r = "rl_refillRate L" and ?t0 = "unix (clock w0)"
  have mono: "unix (clock w) \<le> unix (clock w')" by (rule unix_mono) (rule pass_time)
  then have le: "?r * (unix (clock w) - ?t0) \<le> ?r * (unix (clock w') - ?t0)"
    using L by (intro mult_left_mono) (auto simp: sane_limiter_def)
  show ?case
  proof (intro conjI impI)
    show "clock w0 \<le> clock w'" using pass_time by simp
    assume "?r * (unix (clock w') - ?t0) < 2 ^ 62"
    with le have "?r * (unix (clock w) - ?t0) < 2 ^ 62" by linarith
    then have "covered L c ?t0 n (unix (clock w)) (val w)" using pass_time by blast
    then show "covered L c ?t0 n (unix (clock w')) (val w')"
      using mono unfolding covered_def pass_time(2,3) by (meson order_trans)
  qed
qed

lemma run_bounded:
  assumes L: "sane_limiter L" and run: "rl_run R val clock L c w0 n w"
    and small: "rl_refillRate L * (unix (clock w) - unix (clock w0)) < 2 ^ 62"
  shows "int n \<le> rl_bucketSize L + rl_refillRate L * (unix (clock w) - unix (clock w0))"
proof -
  let ?r = "rl_refillRate L" and ?t0 = "unix (clock w0)"
  from run_covered [OF L run] small have le: "clock w0 \<le> clock w" and cov: "covered L c ?t0 n (unix (clock w)) (val w)" by blast+
  have r: "0 \<le> ?r" "0 \<le> rl_bucketSize L" using L by (simp_all add: sane_limiter_def)
  show ?thesis
  proof (cases "n = 0")
    case True
    then show ?thesis using r unix_mono [OF le] by simp
  next
    case False
    with cov obtain t u where "0 \<le> t" "u \<le> unix (clock w)" "int n + t \<le> rl_bucketSize L + ?r * (u - ?t0)"
      by (auto simp: covered_def)
    moreover from this(2) r have "?r * (u - ?t0) \<le> ?r * (unix (clock w) - ?t0)" by (intro mult_left_mono) auto
    ultimately show ?thesis by linarith
  qed
qed

end

section \<open>Redis with expiry\<close>

text \<open>A key is gone once its time to live has passed; the clock shows times whose seconds fit 64 bits.\<close>

record ttl_state =
  tt_clock :: instant
  tt_keys :: "string \<Rightarrow> (string \<times> instant) option"

definition tt_now :: "ttl_state \<Rightarrow> instant" where
  "tt_now w = max (- (2 ^ 63)) (min (tt_clock w) (2 ^ 63 - 1))"

definition tt_val :: "ttl_state \<Rightarrow> string \<Rightarrow> string option" where
  "tt_val w k = (case tt_keys w k of None \<Rightarrow> None | Some (v, e) \<Rightarrow> if tt_now w < e then Some v else None)"

definition tt_put :: "(string \<times> string \<times> duration) list \<Rightarrow> ttl_state \<Rightarrow> ttl_state" where
  "tt_put cmds w = w\<lparr>tt_keys := fold (\<lambda>(k, v, d) m. m(k \<mapsto> (v, tt_now w + d))) cmds (tt_keys w)\<rparr>"

definition redis_ttl :: "ttl_state ttl_redis" where
  "redis_ttl = \<lparr>ttl_get = (\<lambda>k. State (\<lambda>w. (Inr (tt_val w k), w))), ttl_exec = (\<lambda>cmds. State (\<lambda>w. (None, tt_put cmds w))),
     ttl_now = State (\<lambda>w. (tt_now w, w))\<rparr>"

lemma tt_now_keys [simp]: "tt_now (w\<lparr>tt_keys := ks\<rparr>) = tt_now w"
  by (simp add: tt_now_def)

lemma tt_put_val:
  assumes "\<And>k v d. (k, v, d) \<in> set cmds \<Longrightarrow> 0 < d"
  shows "tt_val (w\<lparr>tt_keys := fold (\<lambda>(k, v, d) m. m(k \<mapsto> (v, tt_now w + d))) cmds ks\<rparr>) = put_all cmds (tt_val (w\<lparr>tt_keys := ks\<rparr>))"
  using assms
proof (induction cmds arbitrary: ks)
  case (Cons c cmds)
  obtain k v d where c: "c = (k, v, d)" by (cases c) auto
  then have d: "0 < d" using Cons.prems [of k v d] by simp
  have one: "tt_val (w\<lparr>tt_keys := ks(k \<mapsto> (v, tt_now w + d))\<rparr>) = (tt_val (w\<lparr>tt_keys := ks\<rparr>))(k \<mapsto> v)"
    using d by (simp add: tt_val_def fun_eq_iff split: option.split)
  have "tt_val (w\<lparr>tt_keys := fold (\<lambda>(k, v, d) m. m(k \<mapsto> (v, tt_now w + d))) cmds (ks(k \<mapsto> (v, tt_now w + d)))\<rparr>)
      = put_all cmds (tt_val (w\<lparr>tt_keys := ks(k \<mapsto> (v, tt_now w + d))\<rparr>))"
    by (rule Cons.IH) (use Cons.prems in auto)
  then show ?case by (simp only: c put_all_def fold_simps prod.case one)
qed (simp add: put_all_def)

interpretation redis_ttl: expiring_store redis_ttl tt_val tt_now
proof
  fix cmds :: "(string \<times> string \<times> duration) list" and w :: ttl_state
  assume "\<And>k v d. (k, v, d) \<in> set cmds \<Longrightarrow> 0 < d"
  from tt_put_val [OF this, where w = w and ks = "tt_keys w"]
  show "wp (ttl_exec redis_ttl cmds) (\<lambda>r w'. tt_now w' = tt_now w \<and> (tt_val w' = put_all cmds (tt_val w) \<or> r \<noteq> None \<and> tt_val w' = tt_val w)) w"
    by (simp add: wp_def redis_ttl_def tt_put_def tt_now_def)
next
  fix w :: ttl_state
  have "- (2 ^ 63) \<le> unix (tt_now w) \<and> unix (tt_now w) < 2 ^ 63"
    using unix_mono [of "- (2 ^ 63)" "tt_now w"] unix_mono [of "tt_now w" "2 ^ 63 - 1"] by (simp add: tt_now_def unix_def second_def)
  then show "is_int64 (unix (tt_now w))" by (simp add: is_int64_def)
qed (simp_all add: wp_def redis_ttl_def)

section \<open>Properties\<close>

text \<open>C18. The bucket bounds the rate of requests that come one after another: over any stretch of time in which the keys of
  the client do not expire and each of its requests is answered before the next one arrives, at most \<open>bucketSize\<close> pass,
  and \<open>refillRate\<close> more for each second that goes by, whatever the store held at the start and whichever of its calls
  fail. Requests that overlap are not bounded (\<open>concurrent_requests_share_a_token\<close>).\<close>

theorem admitted_requests_bounded:
  assumes "expiring_store R val clock" "sane_limiter L" "rl_run R val clock L c w0 n w"
    "rl_refillRate L * (unix (clock w) - unix (clock w0)) < 2 ^ 62"
  shows "int n \<le> rl_bucketSize L + rl_refillRate L * (unix (clock w) - unix (clock w0))"
  by (rule expiring_store.run_bounded [OF assms])

text \<open>C14. Requests that overlap are not bounded at all: since the limiter reads the bucket outside of its transaction, any number
  of requests of a client that read before the first of them writes find the same tokens, and if there is one, all
  of them pass, without any time going by, and together they take one token out of the bucket.\<close>

theorem concurrent_requests_share_a_token:
  assumes "expiring_store R val clock" "sane_limiter L"
    "\<And>k w. \<exists>v. result_of (ttl_get R k) w = Inr v" "\<And>cmds w. result_of (ttl_exec R cmds) w = None"
    "bucket_of L c (unix (clock w)) (val w) = Some (t, u)" "0 < refilled L (unix (clock w)) t u"
  shows "\<exists>w'. rl_race R val clock L c w [] n w' \<and> clock w' = clock w
    \<and> (0 < n \<longrightarrow> val w' (bucket_key c) = Some (show_int (refilled L (unix (clock w)) t u - 1)))"
  using expiring_store.race_admits_all [OF assms(1,3,4) _ assms(5,6)] assms(2) by (simp add: sane_limiter_def)

text \<open>The refill rate does not bound it across expiry: when the keys of a client have expired, \<open>windowInSec\<close> seconds after
  its last request that passed, the next request finds a full bucket, however low the refill rate, and passes with all but one
  token left.\<close>

theorem expired_bucket_is_full:
  assumes "sane_limiter L" "0 < rl_bucketSize L" "result_of (RateLimit redis_ttl L c) w = (Passed (), h)"
    "tt_now (after (RateLimit redis_ttl L c) w) + dur_mul (rl_windowInSec L) second \<le> tt_now w2"
    "tt_keys w2 = tt_keys (after (RateLimit redis_ttl L c) w)"
  shows "\<exists>hd. result_of (RateLimit redis_ttl L c) w2 = (Passed (), Some hd) \<and> rh_remaining hd = rl_bucketSize L - 1"
proof -
  let ?w1 = "after (RateLimit redis_ttl L c) w"
  have "wp (RateLimit redis_ttl L c) (\<lambda>r w1. fst r = Passed () \<longrightarrow> tt_now w1 = tt_now w
      \<and> (\<exists>t. w1 = tt_put (bucket_writes L c t (unix (tt_now w))) w)) w"
    by (simp add: RateLimit_code redis_ttl_def wp_def State_Monad.bind_def Let_def tt_put_def split: option.split) blast
  from wp_result [OF this] assms(3) obtain t where t: "tt_now ?w1 = tt_now w" "?w1 = tt_put (bucket_writes L c t (unix (tt_now w))) w"
    by auto
  let ?d = "dur_mul (rl_windowInSec L) second"
  have "tt_keys ?w1 (bucket_key c) = Some (show_int t, tt_now w + ?d)"
    "tt_keys ?w1 (last_update_key c) = Some (show_int (unix (tt_now w)), tt_now w + ?d)"
    by (simp_all add: t(2) tt_put_def bucket_writes_def)
  then have gone: "tt_val w2 (bucket_key c) = None" "tt_val w2 (last_update_key c) = None"
    using assms(4,5) t(1) by (simp_all add: tt_val_def)
  have "is_int64 (rl_bucketSize L)" using assms(1) by (simp add: sane_limiter_def is_int64_def)
  then have "refilled L now (rl_bucketSize L) now = rl_bucketSize L" for now
    by (simp add: refilled_def wrap64_id is_int64_def [of 0])
  with assms(2) show ?thesis
    by (simp add: RateLimit_code redis_ttl_def result_of_def State_Monad.bind_def Let_def stored_int_def gone)
qed
section \<open>A concrete client\<close>

definition tiny_limiter :: rate_limiter where
  "tiny_limiter = \<lparr>rl_bucketSize = 1, rl_refillRate = 1, rl_windowInSec = 1\<rparr>"

definition ttl_start :: ttl_state where
  "ttl_start = \<lparr>tt_clock = 0, tt_keys = Map.empty\<rparr>"

lemma tiny_sane: "sane_limiter tiny_limiter"
  by (simp add: sane_limiter_def tiny_limiter_def dur_mul_def wrap64_def second_def)

lemma tiny_first: "result_of (RateLimit redis_ttl tiny_limiter ''ip'') ttl_start
    = (Passed (), Some \<lparr>rh_limit = 1, rh_remaining = 0, rh_reset = 1, rh_retry = None\<rparr>)"
  by (simp add: RateLimit_code redis_ttl_def result_of_def State_Monad.bind_def Let_def stored_int_def refilled_def
      tiny_limiter_def ttl_start_def tt_val_def tt_now_def wrap64_def unix_def second_def)

lemma tiny_clock: "tt_now (after (RateLimit redis_ttl tiny_limiter ''ip'') ttl_start) = 0"
proof -
  have "0 < dur_mul (rl_windowInSec tiny_limiter) second" using tiny_sane by (simp add: sane_limiter_def)
  from wp_result [OF redis_ttl.request_wp [OF this, where c = "''ip''" and w = ttl_start]] show ?thesis
    by (auto simp: tt_now_def ttl_start_def split: prod.splits)
qed

theorem admitted_requests_bounded_witness:
  "\<exists>w. rl_run redis_ttl tt_val tt_now tiny_limiter ''ip'' ttl_start 1 w \<and> unix (tt_now w) = 0 \<and> int 1 \<le> rl_bucketSize tiny_limiter"
proof -
  let ?w = "after (RateLimit redis_ttl tiny_limiter ''ip'') ttl_start"
  have "run_state (RateLimit redis_ttl tiny_limiter ''ip'') ttl_start
      = ((Passed (), Some \<lparr>rh_limit = 1, rh_remaining = 0, rh_reset = 1, rh_retry = None\<rparr>), ?w)"
    using tiny_first by (simp add: result_of_def after_def prod_eq_iff)
  from rl_run.request [OF rl_run.start this, of tt_val tt_now]
  have run: "rl_run redis_ttl tt_val tt_now tiny_limiter ''ip'' ttl_start 1 ?w" by simp
  have "unix (tt_now ttl_start) = 0" "unix (tt_now ?w) = 0"
    by (simp_all add: tiny_clock) (simp_all add: tt_now_def ttl_start_def unix_def)
  with admitted_requests_bounded [OF redis_ttl.expiring_store_axioms tiny_sane run] run show ?thesis by auto
qed

theorem concurrent_requests_share_a_token_witness:
  "\<exists>w'. rl_race redis_ttl tt_val tt_now tiny_limiter ''ip'' ttl_start [] 1000 w' \<and> tt_now w' = tt_now ttl_start
     \<and> rl_bucketSize tiny_limiter = 1 \<and> tt_val w' (bucket_key ''ip'') = Some (show_int 0)"
proof -
  have fresh: "bucket_of tiny_limiter ''ip'' 0 (tt_val ttl_start) = Some (1, 0)" "refilled tiny_limiter 0 1 0 = 1"
    by (simp_all add: bucket_of_def stored_int_def tt_val_def ttl_start_def tiny_limiter_def refilled_def wrap64_def)
  have now: "unix (tt_now ttl_start) = 0" by (simp add: tt_now_def ttl_start_def unix_def)
  show ?thesis
    using concurrent_requests_share_a_token [OF redis_ttl.expiring_store_axioms tiny_sane, of "''ip''" ttl_start 1 0 1000] fresh
    by (simp add: now redis_ttl_def result_of_def) (simp add: tiny_limiter_def)
qed

theorem expired_bucket_is_full_witness:
  "\<exists>hd. result_of (RateLimit redis_ttl tiny_limiter ''ip'')
       ((after (RateLimit redis_ttl tiny_limiter ''ip'') ttl_start)\<lparr>tt_clock := second\<rparr>) = (Passed (), Some hd)
     \<and> rh_remaining hd = rl_bucketSize tiny_limiter - 1"
  by (rule expired_bucket_is_full [OF tiny_sane _ tiny_first])
    (simp_all add: tiny_clock, simp_all add: tiny_limiter_def dur_mul_def wrap64_def second_def tt_now_def)

end
