(* ===== verification/Config.thy ===== *)
theory Config
  imports Archiver
begin

text \<open>
  \<open>internal/config/config.go\<close>: the retention settings with their parser of durations, and the defaults. Reading the file
  and the environment is the work of viper and not modelled. \<open>time.ParseDuration\<close> computes a
  fractional part in floating point; that product is the parameter \<open>fr\<close> (digits after the point, their number, the unit).
\<close>

section \<open>Durations\<close>

definition duration_error :: error where
  "duration_error = Errorf ''time: invalid duration''"

definition two63 :: nat where "two63 = 9223372036854775808"

text \<open>The leading digits of a text as a number of at most \<open>2 ^ 63\<close>, and the rest.\<close>

fun leadingInt :: "nat \<Rightarrow> string \<Rightarrow> (nat \<times> string) option" where
  "leadingInt x [] = Some (x, [])"
| "leadingInt x (c # s) =
     (if is_digit c then
        if two63 div 10 < x then None
        else let y = 10 * x + digit_val c in if two63 < y then None else leadingInt y s
      else Some (x, c # s))"

text \<open>The digits after the point: those that fit, their number, and the rest.\<close>

fun leadingFraction :: "bool \<Rightarrow> nat \<Rightarrow> nat \<Rightarrow> string \<Rightarrow> nat \<times> nat \<times> string" where
  "leadingFraction over x k [] = (x, k, [])"
| "leadingFraction over x k (c # s) =
     (if is_digit c then
        if over then leadingFraction True x k s
        else if (two63 - 1) div 10 < x then leadingFraction True x k s
        else let y = 10 * x + digit_val c in
          if two63 < y then leadingFraction True x k s else leadingFraction False y (Suc k) s
      else (x, k, c # s))"

definition unit_ns :: "string \<Rightarrow> nat option" where
  "unit_ns u = map_of [(''ns'', 1), (''us'', 1000), ([char_of (194::nat), char_of (181::nat), CHR ''s''], 1000),
     ([char_of (206::nat), char_of (188::nat), CHR ''s''], 1000), (''ms'', 1000000), (''s'', 1000000000),
     (''m'', 60000000000), (''h'', 3600000000000)] u"

definition in_number :: "char \<Rightarrow> bool" where
  "in_number c \<longleftrightarrow> c = CHR ''.'' \<or> is_digit c"

text \<open>One number with its unit, added to the sum so far.\<close>

definition duration_item :: "(nat \<Rightarrow> nat \<Rightarrow> nat \<Rightarrow> nat) \<Rightarrow> nat \<Rightarrow> string \<Rightarrow> (nat \<times> string) option" where
  "duration_item fr d s =
     (if s = [] \<or> \<not> in_number (hd s) then None
      else case leadingInt 0 s of
        None \<Rightarrow> None
      | Some (v, s1) \<Rightarrow>
        let point = s1 \<noteq> [] \<and> hd s1 = CHR ''.'';
            (f, k, s2) = (if point then leadingFraction False 0 0 (tl s1) else (0, 0, s1));
            pre = length s1 \<noteq> length s;
            post = point \<and> length s2 \<noteq> length (tl s1);
            u = takeWhile (\<lambda>c. \<not> in_number c) s2;
            rest = dropWhile (\<lambda>c. \<not> in_number c) s2
        in if \<not> pre \<and> \<not> post then None
           else if u = [] then None
           else case unit_ns u of
             None \<Rightarrow> None
           | Some unt \<Rightarrow>
             if two63 div unt < v then None
             else let w = v * unt + (if 0 < f then fr f k unt else 0) in
               if two63 < w then None else if two63 < d + w then None else Some (d + w, rest))"

text \<open>Every number consumes a character, so the length of the text bounds their count.\<close>

fun duration_items :: "(nat \<Rightarrow> nat \<Rightarrow> nat \<Rightarrow> nat) \<Rightarrow> nat \<Rightarrow> nat \<Rightarrow> string \<Rightarrow> nat option" where
  "duration_items fr 0 d s = (if s = [] then Some d else None)"
| "duration_items fr (Suc n) d s =
     (if s = [] then Some d
      else case duration_item fr d s of None \<Rightarrow> None | Some (d', rest) \<Rightarrow> duration_items fr n d' rest)"

definition ParseDuration :: "(nat \<Rightarrow> nat \<Rightarrow> nat \<Rightarrow> nat) \<Rightarrow> string \<Rightarrow> duration result" where
  "ParseDuration fr s0 =
     (let neg = s0 \<noteq> [] \<and> hd s0 = CHR ''-'';
          s = (if s0 \<noteq> [] \<and> (hd s0 = CHR ''-'' \<or> hd s0 = CHR ''+'') then tl s0 else s0)
      in if s = ''0'' then Inr 0
         else if s = [] then Inl duration_error
         else case duration_items fr (length s) 0 s of
           None \<Rightarrow> Inl duration_error
         | Some d \<Rightarrow> if neg then Inr (wrap64 (- wrap64 (int d)))
             else if two63 - 1 < d then Inl duration_error else Inr (int d))"

definition ParseFlexibleDuration :: "(nat \<Rightarrow> nat \<Rightarrow> nat \<Rightarrow> nat) \<Rightarrow> string \<Rightarrow> duration result" where
  "ParseFlexibleDuration fr s =
     (if s = [] then Inl (Errorf ''empty duration string'')
      else if 1 < length s \<and> last s = CHR ''d'' then
        (case ParseDuration fr (butlast s @ ''h'') of Inl e \<Rightarrow> Inl e | Inr n \<Rightarrow> Inr (wrap64 (n * 24)))
      else if 1 < length s \<and> last s = CHR ''w'' then
        (case ParseDuration fr (butlast s @ ''h'') of Inl e \<Rightarrow> Inl e | Inr n \<Rightarrow> Inr (wrap64 (wrap64 (n * 24) * 7)))
      else ParseDuration fr s)"

section \<open>Retention\<close>

record retention_config =
  rc_events :: string
  rc_occurrences :: string
  rc_cleanup_interval :: string

record retention_durations =
  rd_events :: duration
  rd_occurrences :: duration
  rd_cleanup_interval :: duration

definition ParseRetentionDurations :: "(nat \<Rightarrow> nat \<Rightarrow> nat \<Rightarrow> nat) \<Rightarrow> retention_config \<Rightarrow> retention_durations result" where
  "ParseRetentionDurations fr c =
     (case ParseFlexibleDuration fr (rc_events c) of
        Inl e \<Rightarrow> Inl (wrap_err ''invalid retention.events'' e)
      | Inr events \<Rightarrow>
        (case ParseFlexibleDuration fr (rc_occurrences c) of
           Inl e \<Rightarrow> Inl (wrap_err ''invalid retention.occurrences'' e)
         | Inr occurrences \<Rightarrow>
           (case ParseFlexibleDuration fr (rc_cleanup_interval c) of
              Inl e \<Rightarrow> Inl (wrap_err ''invalid retention.cleanup_interval'' e)
            | Inr cleanup \<Rightarrow> Inr \<lparr>rd_events = events, rd_occurrences = occurrences, rd_cleanup_interval = cleanup\<rparr>)))"

section \<open>Defaults\<close>

datatype setting = IntSetting int | TextSetting string

text \<open>The defaults that \<open>Load\<close> and \<open>LoadWithPath\<close> give to viper.\<close>

definition load_defaults :: "(string \<times> setting) list" where
  "load_defaults =
     [(''server.port'', IntSetting 8080), (''server.timeout'', TextSetting ''30s''), (''database.host'', TextSetting ''localhost''),
      (''database.port'', IntSetting 5432), (''database.user'', TextSetting ''postgres''),
      (''database.password'', TextSetting ''postgres''), (''database.dbname'', TextSetting ''qhronos''),
      (''database.sslmode'', TextSetting ''disable''), (''redis.host'', TextSetting ''localhost''), (''redis.port'', IntSetting 6379),
      (''redis.password'', TextSetting []), (''redis.db'', IntSetting 0), (''hmac.default_secret'', TextSetting ''qhronos.io''),
      (''scheduler.look_ahead_duration'', TextSetting ''24h''), (''scheduler.expansion_interval'', TextSetting ''5m''),
      (''retention.events'', TextSetting ''30d''), (''retention.occurrences'', TextSetting ''7d''),
      (''retention.cleanup_interval'', TextSetting ''1h''), (''archival.check_period'', TextSetting ''1h''),
      (''logging.level'', TextSetting ''info''), (''logging.file_path'', TextSetting ''qhronos.log''),
      (''logging.max_size'', IntSetting 10), (''logging.max_backups'', IntSetting 3), (''logging.max_age'', IntSetting 7),
      (''dispatch_max_retries'', IntSetting 3), (''dispatch_retry_backoff'', TextSetting ''1s'')]"

definition load_with_path_defaults :: "(string \<times> setting) list" where
  "load_with_path_defaults = load_defaults"

text \<open>The number of dispatch workers and the grace period have no default, so they are zero unless configured: a server
  without them dispatches nothing.\<close>

lemma no_worker_default:
  "map_of load_defaults ''scheduler.dispatch_worker_count'' = None" "map_of load_defaults ''scheduler.grace_period'' = None"
  by code_simp+

section \<open>Whole numbers of days and weeks\<close>

lemma foldl_digits_ge: "x \<le> foldl (\<lambda>a c. 10 * a + digit_val c) x t"
proof (induction t arbitrary: x)
  case (Cons c t)
  have "x \<le> 10 * x + digit_val c" by simp
  also have "\<dots> \<le> foldl (\<lambda>a c. 10 * a + digit_val c) (10 * x + digit_val c) t" by (rule Cons.IH)
  finally show ?case by simp
qed simp

text \<open>The overflow checks of \<open>leadingInt\<close> fail exactly on the numbers above \<open>2 ^ 63\<close>.\<close>

lemma leadingInt_digits:
  assumes "list_all is_digit t" "rest = [] \<or> \<not> is_digit (hd rest)" "x \<le> two63"
  shows "leadingInt x (t @ rest) =
    (let v = foldl (\<lambda>a c. 10 * a + digit_val c) x t in if v \<le> two63 then Some (v, rest) else None)"
  using assms(1,3)
proof (induction t arbitrary: x)
  case Nil
  with assms(2) show ?case by (cases rest) simp_all
next
  case (Cons c t)
  let ?y = "10 * x + digit_val c"
  note ge = foldl_digits_ge [of ?y t]
  consider "two63 div 10 < x" | "\<not> two63 div 10 < x" "two63 < ?y" | "\<not> two63 div 10 < x" "?y \<le> two63" by linarith
  then show ?case
  proof cases
    case 1
    then have "two63 < ?y" by (simp add: two63_def)
    with 1 Cons.prems ge show ?thesis by (simp add: Let_def)
  next
    case 2
    with Cons.prems ge show ?thesis by (simp add: Let_def)
  next
    case 3
    with Cons.prems Cons.IH [of ?y] show ?thesis by (simp add: Let_def)
  qed
qed

lemma leadingInt_show_nat:
  "rest = [] \<or> \<not> is_digit (hd rest) \<Longrightarrow>
   leadingInt 0 (show_nat n @ rest) = (if n \<le> two63 then Some (n, rest) else None)"
  using leadingInt_digits [of "show_nat n" rest 0] digits_val_show_nat [of n] show_nat_digits [of n]
  by (simp add: digits_val_def Let_def)

lemma hour_letter [simp]: "\<not> is_digit (CHR ''h'')" "\<not> in_number (CHR ''h'')"
  by (simp_all add: is_digit_def in_number_def)

lemma unit_ns_hour: "unit_ns ''h'' = Some 3600000000000"
  by (simp add: unit_ns_def)

lemma first_digit: obtains c s where "show_nat n = c # s" "is_digit c" "c \<noteq> CHR ''-''" "c \<noteq> CHR ''+''"
proof -
  obtain c s where cs: "show_nat n = c # s" by (cases "show_nat n") auto
  with show_nat_digits [of n] have "is_digit c" by simp
  moreover from this have "c \<noteq> CHR ''-''" "c \<noteq> CHR ''+''" by auto
  ultimately show thesis using cs that by blast
qed

lemma duration_item_hours:
  "duration_item fr 0 (show_nat n @ ''h'') = (if n \<le> 2562047 then Some (n * 3600000000000, []) else None)"
proof -
  have hd: "\<not> (show_nat n @ ''h'' = [] \<or> \<not> in_number (hd (show_nat n @ ''h'')))"
    by (rule first_digit [of n]) (simp add: in_number_def)
  have lead: "leadingInt 0 (show_nat n @ ''h'') = (if n \<le> two63 then Some (n, ''h'') else None)"
    by (rule leadingInt_show_nat) simp
  show ?thesis
    unfolding duration_item_def if_not_P [OF hd] lead
    by (simp add: Let_def unit_ns_hour two63_def)
qed

lemma ParseDuration_hours:
  "ParseDuration fr (show_nat n @ ''h'') = (if n \<le> 2562047 then Inr (int n * hour) else Inl duration_error)"
proof (rule first_digit [of n])
  fix c s assume cs: "show_nat n = c # s" "is_digit c" "c \<noteq> CHR ''-''" "c \<noteq> CHR ''+''"
  have items: "duration_items fr (length (show_nat n @ ''h'')) 0 (show_nat n @ ''h'')
      = (if n \<le> 2562047 then Some (n * 3600000000000) else None)"
    by (simp add: duration_item_hours) (cases "length (show_nat n)"; simp)
  have sign: "\<not> (show_nat n @ ''h'' \<noteq> [] \<and> (hd (show_nat n @ ''h'') = CHR ''-'' \<or> hd (show_nat n @ ''h'') = CHR ''+''))"
    "\<not> (show_nat n @ ''h'' \<noteq> [] \<and> hd (show_nat n @ ''h'') = CHR ''-'')"
    using cs by simp_all
  have other: "show_nat n @ ''h'' \<noteq> ''0''" "show_nat n @ ''h'' \<noteq> []" using cs by (cases s; simp)+
  show ?thesis
    unfolding ParseDuration_def Let_def if_not_P [OF sign(1)] items
    using sign(2) other by (simp add: two63_def hour_def del: append_eq_Cons_conv)
qed

lemma wrap64_scale: "wrap64 (wrap64 x * 7) = wrap64 (x * 7)"
proof -
  have "(x + 2 ^ 63) mod 2 ^ 64 * 7 mod 2 ^ 64 = (x + 2 ^ 63) * 7 mod (2 ^ 64 :: int)"
    by (simp add: mod_mult_left_eq)
  then have "((x + 2 ^ 63) mod 2 ^ 64 * 7 - 6 * 2 ^ 63) mod 2 ^ 64 = ((x + 2 ^ 63) * 7 - 6 * 2 ^ 63) mod (2 ^ 64 :: int)"
    by (metis mod_diff_left_eq)
  then show ?thesis by (simp add: wrap64_def algebra_simps)
qed

lemma days_duration:
  "ParseFlexibleDuration fr (show_nat n @ ''d'') =
     (if n \<le> 2562047 then Inr (wrap64 (int n * day_ns)) else Inl duration_error)"
  unfolding ParseFlexibleDuration_def
  by (simp add: butlast_append ParseDuration_hours hour_def day_ns_def mult.assoc)

lemma weeks_duration:
  "ParseFlexibleDuration fr (show_nat n @ ''w'') =
     (if n \<le> 2562047 then Inr (wrap64 (int n * (7 * day_ns))) else Inl duration_error)"
  unfolding ParseFlexibleDuration_def
  by (simp add: butlast_append ParseDuration_hours hour_def day_ns_def mult.assoc wrap64_scale)

lemma wrap64_exact: "wrap64 x = x \<longleftrightarrow> is_int64 x"
  using wrap64_id wrap64_range by metis

text \<open>C40. A retention of n days or weeks is read as that duration exactly when it is at most 106751 days or 15250
  weeks. The parser rejects a number only above 2562047: between the two bounds the multiplication by 24 wraps around
  and a wrong duration (a negative one for 106752 days) is returned without an error.\<close>

theorem whole_days_read_exactly:
  "(ParseFlexibleDuration fr (show_nat n @ ''d'') = Inr (int n * day_ns) \<longleftrightarrow> n \<le> 106751)
   \<and> (ParseFlexibleDuration fr (show_nat n @ ''w'') = Inr (int n * (7 * day_ns)) \<longleftrightarrow> n \<le> 15250)
   \<and> ((\<exists>e. ParseFlexibleDuration fr (show_nat n @ ''d'') = Inl e) \<longleftrightarrow> 2562047 < n)
   \<and> ((\<exists>e. ParseFlexibleDuration fr (show_nat n @ ''w'') = Inl e) \<longleftrightarrow> 2562047 < n)"
  by (auto simp: days_duration weeks_duration wrap64_exact is_int64_def day_ns_def)

text \<open>The default retention is read as 30 days, 7 days and an hour.\<close>

lemma default_retention: "ParseRetentionDurations fr \<lparr>rc_events = ''30d'', rc_occurrences = ''7d'', rc_cleanup_interval = ''1h''\<rparr>
    = Inr \<lparr>rd_events = 720 * hour, rd_occurrences = 168 * hour, rd_cleanup_interval = hour\<rparr>"
proof -
  have "show_nat 30 = ''30''" "show_nat 7 = ''7''" "show_nat 1 = ''1''"
    by code_simp+
  with days_duration [of fr 30] days_duration [of fr 7] ParseDuration_hours [of fr 1]
  show ?thesis by (simp add: ParseRetentionDurations_def ParseFlexibleDuration_def [of fr "''1h''"] day_ns_def hour_def wrap64_def)
qed

end
