(* ===== verification/Server.thy ===== *)
theory Server
  imports Typing EventApi Clients RateLimit Config
begin

text \<open>
  The assembled server: the routes of \<open>internal/api/routes.go\<close> with their chains of middleware, the status endpoint, and
  the goroutines that \<open>main\<close> starts, as steps over the shared stores. A step is one request, one goroutine of a
  handler, one turn of a background loop (a worker's in two halves), or a restart.
\<close>

section \<open>The server\<close>

text \<open>
  What \<open>main\<close> wires together. \<open>sv_seconds\<close> is \<open>int64(d.Seconds())\<close>, which goes through floating point;
  \<open>sv_unrouted\<close> is what gin answers to a path without a route (404 or a redirect).
\<close>

record api_request =
  aq_method :: string
  aq_path :: "string list"
  aq_query :: "(string \<times> string) list"
  aq_authorization :: string
  aq_request_id :: string
  aq_ip :: string
  aq_body :: string

record 'w server =
  sv_svc :: "'w svc"
  sv_ttl :: "'w ttl_redis"
  sv_limiter :: rate_limiter
  sv_jwt :: jwt
  sv_tokens :: token_service
  sv_master :: string
  sv_expander :: expander
  sv_dispatcher :: dispatcher
  sv_uuid :: "string \<Rightarrow> uuid option"
  sv_start :: instant
  sv_seconds :: "duration \<Rightarrow> int"
  sv_unrouted :: "api_request \<Rightarrow> response"
  sv_zone :: int
  sv_check_period :: duration
  sv_retention :: retention_durations

section \<open>Status\<close>

definition StatusHandler :: "'w server \<Rightarrow> ('w, response) state" where
  "StatusHandler G = State_Monad.bind (time_now (sv_svc G)) (\<lambda>now. State_Monad.return (Reply 200 (StatusBody
     \<lparr>sr_status = ''ok'', sr_uptime_seconds = sv_seconds G (now - sv_start G), sr_version = ''1.0.0'',
      sr_jwt = \<lparr>ji_issuer = ''qhronos'', ji_algorithm = ''HS256'', ji_default_exp_seconds = 3600,
        ji_token_info = \<lparr>ti_sub = ''rizqme'', ti_access = ''read_write'', ti_scope = [''user:rizqme'', ''system:qa''],
          ti_exp = 1714569600\<rparr>\<rparr>,
      sr_hmac = \<lparr>hi_algorithm = ''HMAC-SHA256'', hi_signature_header = ''X-Qhronos-Signature'',
        hi_default_secret = ''qhronos.io'', hi_event_override_supported = True\<rparr>\<rparr>)))"

section \<open>Routes\<close>

datatype endpoint =
    StatusPage
  | HealthPage
  | CreateEventPage
  | ListEventsPage
  | GetEventPage string
  | UpdateEventPage string
  | DeleteEventPage string
  | ListOccurrencesPage
  | GetOccurrencePage string
  | EventOccurrencesPage string
  | CreateTokenPage

text \<open>The table of routes, for a path split at its slashes. A parameter takes one segment that is not empty.\<close>

definition endpoint_of :: "string \<Rightarrow> string list \<Rightarrow> endpoint option" where
  "endpoint_of m p =
     (case p of
        [a] \<Rightarrow>
          if a = ''status'' \<and> m = ''GET'' then Some StatusPage
          else if a = ''healthz'' \<and> m = ''GET'' then Some HealthPage
          else if a = ''events'' \<and> m = ''POST'' then Some CreateEventPage
          else if a = ''events'' \<and> m = ''GET'' then Some ListEventsPage
          else if a = ''occurrences'' \<and> m = ''GET'' then Some ListOccurrencesPage
          else if a = ''tokens'' \<and> m = ''POST'' then Some CreateTokenPage
          else None
      | [a, i] \<Rightarrow>
          if i = [] then None
          else if a = ''events'' \<and> m = ''GET'' then Some (GetEventPage i)
          else if a = ''events'' \<and> m = ''PUT'' then Some (UpdateEventPage i)
          else if a = ''events'' \<and> m = ''DELETE'' then Some (DeleteEventPage i)
          else if a = ''occurrences'' \<and> m = ''GET'' then Some (GetOccurrencePage i)
          else None
      | [a, i, b] \<Rightarrow>
          if i \<noteq> [] \<and> a = ''events'' \<and> b = ''occurrences'' \<and> m = ''GET'' then Some (EventOccurrencesPage i) else None
      | _ \<Rightarrow> None)"

definition public :: "endpoint \<Rightarrow> bool" where
  "public e \<longleftrightarrow> e = StatusPage \<or> e = HealthPage"

text \<open>\<open>c.Query\<close>, \<open>c.QueryArray\<close> and \<open>c.DefaultQuery\<close>.\<close>

definition query_value :: "string \<Rightarrow> (string \<times> string) list \<Rightarrow> string" where
  "query_value k q = (case map_of q k of None \<Rightarrow> [] | Some v \<Rightarrow> v)"

definition query_all :: "string \<Rightarrow> (string \<times> string) list \<Rightarrow> string list" where
  "query_all k q = map snd (filter (\<lambda>kv. fst kv = k) q)"

text \<open>What a request leads to: the replies written, none for a panic, and the event left to a goroutine.\<close>

type_synonym outcome = "response list option \<times> event option"

definition just :: "('w, response) state \<Rightarrow> ('w, outcome) state" where
  "just m = State_Monad.bind m (\<lambda>r. State_Monad.return (Some [r], None))"

definition endpoint_handler :: "'w server \<Rightarrow> api_request \<Rightarrow> endpoint \<Rightarrow> ('w, outcome) state" where
  "endpoint_handler G q e =
     (let S = sv_svc G; up = sv_uuid G; X = sv_expander G in
      case e of
        StatusPage \<Rightarrow> just (StatusHandler G)
      | HealthPage \<Rightarrow> just (State_Monad.return (Reply 200 (HealthBody ''ok'')))
      | CreateEventPage \<Rightarrow> State_Monad.bind (CreateEvent S X (aq_body q)) (\<lambda>(r, job). State_Monad.return (Some [r], job))
      | ListEventsPage \<Rightarrow> just (ListEventsByTags S (query_value ''tags'' (aq_query q)))
      | GetEventPage i \<Rightarrow> just (EventHandlers.GetEvent up S i)
      | UpdateEventPage i \<Rightarrow> State_Monad.bind (UpdateEvent up S X i (aq_body q)) (\<lambda>(rs, job). State_Monad.return (Some rs, job))
      | DeleteEventPage i \<Rightarrow> just (DeleteEvent up S X i)
      | ListOccurrencesPage \<Rightarrow> just (ListOccurrencesByTags S (query_all ''tags'' (aq_query q))
          (map_of (aq_query q) ''page'') (map_of (aq_query q) ''limit''))
      | GetOccurrencePage i \<Rightarrow> just (GetOccurrence S i)
      | EventOccurrencesPage i \<Rightarrow> just (ListOccurrencesByEvent up S i)
      | CreateTokenPage \<Rightarrow>
          (case RequireMasterToken (sv_master G) (aq_authorization q) of
             Aborted r \<Rightarrow> State_Monad.return (Some [r], None)
           | Passed _ \<Rightarrow> State_Monad.bind (CreateToken S (sv_jwt G) (sv_tokens G) (aq_authorization q) (aq_body q))
               (\<lambda>r. State_Monad.return (map_option (\<lambda>x. [x]) r, None))))"

text \<open>
  The chain of a route: \<open>TokenAuth\<close> and the rate limiter in front of every handler but the public ones. The limiter looks for
  \<open>token_id\<close> in the context, where \<open>TokenAuth\<close> has stored \<open>token\<close> only.
\<close>

definition SetupRoutes :: "'w server \<Rightarrow> api_request \<Rightarrow> endpoint \<Rightarrow> ('w, outcome) state" where
  "SetupRoutes G q e =
     (if public e then endpoint_handler G q e
      else case TokenAuth (aq_authorization q) of
        Aborted r \<Rightarrow> State_Monad.return (Some [r], None)
      | Passed _ \<Rightarrow> State_Monad.bind (RateLimit (sv_ttl G) (sv_limiter G) (client_id (aq_ip q) []))
          (\<lambda>(g, _). case g of
             Aborted r \<Rightarrow> State_Monad.return (Some [r], None)
           | Passed _ \<Rightarrow> endpoint_handler G q e))"

text \<open>One request, with the identifier it gets and the recovery from panics around it.\<close>

definition serve :: "'w server \<Rightarrow> api_request \<Rightarrow> ('w, response list \<times> event option) state" where
  "serve G q = do {
     _ \<leftarrow> RequestIDMiddleware (sv_svc G) (aq_request_id q);
     (case endpoint_of (aq_method q) (aq_path q) of
        None \<Rightarrow> State_Monad.return ([sv_unrouted G q], None)
      | Some e \<Rightarrow> State_Monad.bind (SetupRoutes G q e)
          (\<lambda>(r, job). State_Monad.return (case r of None \<Rightarrow> [Reply 500 NoBody] | Some rs \<Rightarrow> rs, job))) }"

section \<open>The running process\<close>

record 'w process =
  pr_world :: 'w
  pr_jobs :: "event multiset"
  pr_busy :: "string multiset"
  pr_turns :: "string list"

definition jobs_of :: "event option \<Rightarrow> event multiset" where
  "jobs_of j = (case j of None \<Rightarrow> {#} | Some ev \<Rightarrow> {#ev#})"

text \<open>
  A step: a request, the goroutine that a handler started, a turn of one of the loops of \<open>main\<close> (the mover of due entries, the
  retry poller of the dispatcher, the expander, the archiver), one half of a worker's turn (the pop, the processing of what was
  popped), the end of the process and its start again, which loses what the goroutines held, or what happens outside
  (\<open>env\<close>), such as the passing of time. \<open>pr_turns\<close> is a record for the theorems of the items that were processed, the last first; no
  step looks at it.
\<close>

inductive server_step :: "'w server \<Rightarrow> ('w \<Rightarrow> 'w \<Rightarrow> bool) \<Rightarrow> 'w process \<Rightarrow> 'w process \<Rightarrow> bool" for G env where
  request: "run_state (serve G q) (pr_world p) = ((rs, job), w') \<Longrightarrow>
    server_step G env p (p\<lparr>pr_world := w', pr_jobs := pr_jobs p + jobs_of job\<rparr>)"
| goroutine: "ev \<in># pr_jobs p \<Longrightarrow> server_step G env p
    (p\<lparr>pr_world := after (background (sv_svc G) (sv_expander G) (Some ev)) (pr_world p), pr_jobs := pr_jobs p - {#ev#}\<rparr>)"
| mover: "server_step G env p (p\<lparr>pr_world := after (GetDueSchedules (sv_svc G) (ex_prefix (sv_expander G))) (pr_world p)\<rparr>)"
| worker_pop: "run_state (redis (sv_svc G) (BRPOP (di_prefix (sv_dispatcher G) @ dispatchQueueKey))) (pr_world p) = (r, w') \<Longrightarrow>
    server_step G env p (p\<lparr>pr_world := w',
      pr_busy := pr_busy p + (case r of Inr (RArr [_, item]) \<Rightarrow> {#item#} | _ \<Rightarrow> {#})\<rparr>)"
| worker_process: "item \<in># pr_busy p \<Longrightarrow> server_step G env p
    (p\<lparr>pr_world := after (process_item (sv_uuid G) (sv_svc G) (sv_dispatcher G) item) (pr_world p), pr_busy := pr_busy p - {#item#},
      pr_turns := item # pr_turns p\<rparr>)"
| poller: "server_step G env p (p\<lparr>pr_world := after (poller_turn (sv_svc G) (sv_dispatcher G)) (pr_world p)\<rparr>)"
| expander: "server_step G env p (p\<lparr>pr_world := after (ExpandEvents (sv_svc G) (sv_expander G)) (pr_world p)\<rparr>)"
| archiver: "server_step G env p (p\<lparr>pr_world := after (archive_cycle (sv_zone G) (sv_svc G) (sv_check_period G)
    (rd_events (sv_retention G))) (pr_world p)\<rparr>)"
| restart: "server_step G env p (p\<lparr>pr_jobs := {#}, pr_busy := {#}\<rparr>)"
| outside: "env (pr_world p) w' \<Longrightarrow> server_step G env p (p\<lparr>pr_world := w'\<rparr>)"

inductive server_run :: "'w server \<Rightarrow> ('w \<Rightarrow> 'w \<Rightarrow> bool) \<Rightarrow> 'w process \<Rightarrow> 'w process \<Rightarrow> bool" for G env where
  start: "server_run G env p p"
| next_step: "server_run G env p p' \<Longrightarrow> server_step G env p' p'' \<Longrightarrow> server_run G env p p''"

text \<open>The two halves make a worker's turn.\<close>

lemma worker_turn_halves:
  assumes "pr_busy p = {#}"
  shows "\<exists>vs. server_run G env p (p\<lparr>pr_world := after (worker_turn (sv_uuid G) (sv_svc G) (sv_dispatcher G)) (pr_world p),
    pr_turns := vs @ pr_turns p\<rparr>) \<and> length vs \<le> 1"
proof -
  let ?pop = "redis (sv_svc G) (BRPOP (di_prefix (sv_dispatcher G) @ dispatchQueueKey))"
  obtain r w' where pop: "run_state ?pop (pr_world p) = (r, w')" by fastforce
  note half = server_step.worker_pop [OF pop, where env = env]
  show ?thesis
  proof (cases "\<exists>k item. r = Inr (RArr [k, item])")
    case True
    then obtain k item where r: "r = Inr (RArr [k, item])" by blast
    let ?p1 = "p\<lparr>pr_world := w', pr_busy := {#item#}\<rparr>"
    have "server_step G env p ?p1" using half by (simp add: r assms)
    moreover have "server_step G env ?p1 (p\<lparr>pr_world := after (worker_turn (sv_uuid G) (sv_svc G) (sv_dispatcher G)) (pr_world p),
        pr_turns := [item] @ pr_turns p\<rparr>)"
      using server_step.worker_process [of item ?p1 G env] pop assms
      by (cases p) (simp add: r worker_turn_def after_def State_Monad.bind_def)
    ultimately show ?thesis by (intro exI [of _ "[item]"]) (simp, blast intro: server_run.intros)
  next
    case False
    then have none: "(case r of Inr (RArr [_, item]) \<Rightarrow> f item | _ \<Rightarrow> g) = g" for f :: "string \<Rightarrow> 'x" and g
      by (auto split: sum.split rreply.split list.split)
    have "server_step G env p (p\<lparr>pr_world := w'\<rparr>)" using half by (simp add: none)
    moreover have "after (worker_turn (sv_uuid G) (sv_svc G) (sv_dispatcher G)) (pr_world p) = w'"
      using pop by (simp add: worker_turn_def after_def State_Monad.bind_def none State_Monad.return_def)
    ultimately have "server_run G env p (p\<lparr>pr_world := after (worker_turn (sv_uuid G) (sv_svc G) (sv_dispatcher G)) (pr_world p)\<rparr>)"
      by (metis server_run.intros)
    then show ?thesis by (intro exI [of _ "[]"]) simp
  qed
qed

section \<open>The walk through a request\<close>

locale server_logic = program_logic I W R S up pre ids
  for I :: "'s \<Rightarrow> bool" and W :: "'s \<Rightarrow> 'w" and R :: "'s \<Rightarrow> 's \<Rightarrow> bool" and S :: "'w svc"
    and up :: "string \<Rightarrow> uuid option" and pre :: string and ids :: "uuid \<Rightarrow> bool" +
  fixes T :: "'w ttl_redis"
  assumes limiter_steps: "by_steps I W R (ttl_get T k) (\<lambda>_. True)" "by_steps I W R (ttl_exec T cs) (\<lambda>_. True)"
      "by_steps I W R (ttl_now T) (\<lambda>_. True)"

context server_logic
begin

lemma gate_steps [stepping]:
  "(\<And>r. g = Aborted r \<Longrightarrow> by_steps I W R (f r) Q) \<Longrightarrow> (\<And>x. g = Passed x \<Longrightarrow> by_steps I W R (h x) Q)
     \<Longrightarrow> by_steps I W R (case_gate f h g) Q"
  by (cases g) simp_all

lemma RateLimit_steps [stepping]: "by_steps I W R (RateLimit T L c) (\<lambda>_. True)"
  unfolding RateLimit_code Let_def by (intro stepping limiter_steps TrueI)

lemma token_steps [stepping]:
  "by_steps I W R (CreateToken S J ts h body) (\<lambda>_. True)" "by_steps I W R (RequestIDMiddleware S rid) (\<lambda>_. True)"
  unfolding CreateToken_def CreateJWTToken_def RequestIDMiddleware_def by (intro stepping TrueI)+

lemma just_steps: "by_steps I W R m (\<lambda>_. True) \<Longrightarrow> by_steps I W R (just m) (job_fits ids)"
  unfolding just_def by (intro stepping) simp_all

lemma page_steps:
  assumes "sv_svc G = S" "sv_uuid G = up" "ex_prefix (sv_expander G) = pre"
  shows "by_steps I W R (endpoint_handler G q e) (job_fits ids)"
proof (cases e)
  case CreateEventPage
  then show ?thesis
    unfolding endpoint_handler_def Let_def assms
    by (simp, intro steps_bind [OF CreateEvent_steps]) (auto simp: job_fits_def intro!: stepping)
next
  case (UpdateEventPage i)
  then show ?thesis
    unfolding endpoint_handler_def Let_def assms
    by (simp, intro steps_bind [OF UpdateEvent_steps [OF assms(3)]]) (auto simp: job_fits_def intro!: stepping)
qed (unfold endpoint_handler_def Let_def assms StatusHandler_def, simp_all only: endpoint.case,
    (intro just_steps stepping DeleteEvent_steps assms(3) TrueI; simp)+)

lemma serve_steps:
  assumes "sv_svc G = S" "sv_uuid G = up" "ex_prefix (sv_expander G) = pre" "sv_ttl G = T"
  shows "by_steps I W R (serve G q) (job_fits ids)"
proof -
  have routed: "by_steps I W R (SetupRoutes G q e) (job_fits ids)" for e
    unfolding SetupRoutes_def assms(4)
    by (intro stepping page_steps assms(1-3) steps_then [OF RateLimit_steps]) simp_all
  show ?thesis
    unfolding serve_def assms(1)
    by (intro steps_then [OF token_steps(2)] steps_cases(2) steps_bind [OF routed] steps_return)
      (auto simp: job_fits_def intro!: steps_return)
qed

end

section \<open>The stores stay typed\<close>

text \<open>The limiter's keys are strings of the same Redis: its operations leave everything else alone.\<close>

definition apart :: "'w views \<Rightarrow> ('w, 'a) state \<Rightarrow> bool" where
  "apart V m \<longleftrightarrow> (\<forall>w. strings_only (rv V w) (rv V (after m w)) \<and> dv V (after m w) = dv V w)"

definition limiter_apart :: "'w views \<Rightarrow> 'w ttl_redis \<Rightarrow> bool" where
  "limiter_apart V T \<longleftrightarrow> (\<forall>k. apart V (ttl_get T k)) \<and> (\<forall>cs. apart V (ttl_exec T cs)) \<and> apart V (ttl_now T)"

definition limiter_remembers :: "('w \<Rightarrow> uuid set) \<Rightarrow> 'w ttl_redis \<Rightarrow> bool" where
  "limiter_remembers issued T \<longleftrightarrow>
     (\<forall>k. remembers issued (ttl_get T k)) \<and> (\<forall>cs. remembers issued (ttl_exec T cs)) \<and> remembers issued (ttl_now T)"

text \<open>What happens outside leaves the tables alone and may let plain keys expire.\<close>

definition env_apart :: "'w views \<Rightarrow> ('w \<Rightarrow> 'w \<Rightarrow> bool) \<Rightarrow> bool" where
  "env_apart V env \<longleftrightarrow> (\<forall>w w'. env w w' \<longrightarrow> strings_only (rv V w) (rv V w') \<and> dv V w' = dv V w)"

definition process_fits :: "'w views \<Rightarrow> (uuid \<Rightarrow> bool) \<Rightarrow> 'w process \<Rightarrow> bool" where
  "process_fits V ids p \<longleftrightarrow> stores_fit V ids (pr_world p) \<and> (\<forall>ev \<in># pr_jobs p. event_fits ids ev)"

lemma stores_fit_cong: "strings_only (rv V w) (rv V w') \<Longrightarrow> dv V w' = dv V w \<Longrightarrow> stores_fit V ids w' = stores_fit V ids w"
  by (simp add: stores_fit_rows strings_only_zsets)

locale typed_server = typed_services S P V up pre ids issued
  for S :: "'w svc" and P and V :: "'w views" and up pre ids and issued :: "'w \<Rightarrow> uuid set" +
  fixes T :: "'w ttl_redis"
  assumes limiter: "limiter_apart V T" and limiter_ids: "limiter_remembers issued T"

sublocale typed_server \<subseteq> srv: server_logic "stores_fit V ids" "\<lambda>w. w" "\<lambda>w w'. issued w \<subseteq> issued w'" S up pre ids T
proof unfold_locales
  have one: "by_steps (stores_fit V ids) (\<lambda>w. w) (\<lambda>w w'. issued w \<subseteq> issued w') m (\<lambda>_. True)"
    if "remembers issued m" "apart V m" for m :: "('w, 'x) state"
  proof (rule service_steps [OF that(1)])
    fix w assume w: "stores_fit V ids w"
    from that(2) have "strings_only (rv V w) (rv V (after m w)) \<and> dv V (after m w) = dv V w"
      unfolding apart_def by (rule spec)
    then have "stores_fit V ids (after m w) = stores_fit V ids w" by (elim conjE) (rule stores_fit_cong)
    with w have "stores_fit V ids (after m w)" by (rule iffD2 [rotated])
    then show "wp m (\<lambda>x w'. stores_fit V ids w' \<and> True) w" by (simp add: wp_def after_def case_prod_unfold)
  qed
  show "by_steps (stores_fit V ids) (\<lambda>w. w) (\<lambda>w w'. issued w \<subseteq> issued w') (ttl_get T k) (\<lambda>_. True)"
    "by_steps (stores_fit V ids) (\<lambda>w. w) (\<lambda>w w'. issued w \<subseteq> issued w') (ttl_exec T cs) (\<lambda>_. True)"
    "by_steps (stores_fit V ids) (\<lambda>w. w) (\<lambda>w w'. issued w \<subseteq> issued w') (ttl_now T) (\<lambda>_. True)" for k cs
    using limiter limiter_ids by (auto simp: limiter_apart_def limiter_remembers_def intro: one)
qed

lemma by_steps_after: "by_steps I (\<lambda>w. w) R m Q \<Longrightarrow> I w \<Longrightarrow> Q (result_of m w) \<and> R w (after m w) \<and> I (after m w)"
  by (auto simp: by_steps_def dest: wp_result)

context typed_server
begin

lemma step_fits:
  assumes "server_step G env p p'" "process_fits V ids p" "env_apart V env"
    "sv_svc G = S" "sv_uuid G = up" "ex_prefix (sv_expander G) = pre" "sv_ttl G = T"
  shows "process_fits V ids p'"
proof -
  have w: "stores_fit V ids (pr_world p)" and jobs: "\<forall>ev \<in># pr_jobs p. event_fits ids ev"
    using assms(2) by (simp_all add: process_fits_def)
  have ran: "stores_fit V ids (after m (pr_world p))"
    if "by_steps (stores_fit V ids) (\<lambda>w. w) (\<lambda>w w'. issued w \<subseteq> issued w') m Q" for m :: "('w, 'x) state" and Q
    using by_steps_after [OF that w] by simp
  note same = process_fits_def assms(4-6)
  from assms(1) show ?thesis
  proof (cases rule: server_step.cases)
    case (request q rs job w')
    then have w': "w' = after (serve G q) (pr_world p)" "result_of (serve G q) (pr_world p) = (rs, job)"
      by (simp_all add: after_def result_of_def)
    with by_steps_after [OF srv.serve_steps [OF assms(4-7), of q] w] jobs request(1) show ?thesis
      by (auto simp: process_fits_def job_fits_def jobs_of_def split: option.splits)
  next
    case (goroutine ev)
    then show ?thesis
      using jobs ran [OF fit.background_steps [of "Some ev" "sv_expander G"]] by (auto simp: same dest: in_diffD)
  next
    case (worker_pop r w')
    then have "w' = after (redis S (BRPOP (di_prefix (sv_dispatcher G) @ dispatchQueueKey))) (pr_world p)"
      by (simp add: after_def assms(4))
    with worker_pop(1) jobs ran [OF plain_typed [of "BRPOP (di_prefix (sv_dispatcher G) @ dispatchQueueKey)"]] show ?thesis
      by (simp add: process_fits_def)
  next
    case (outside w')
    with w jobs assms(3) show ?thesis by (simp add: process_fits_def env_apart_def) (metis stores_fit_cong)
  qed (use jobs w in \<open>simp_all add: same ran [OF loops_typed(1)] ran [OF loops_typed(2)] ran [OF fit.process_item_steps]
      ran [OF fit.ExpandEvents_steps [OF assms(6)]] ran [OF fit.archive_cycle_steps]\<close>)
qed

lemma run_fits:
  assumes "server_run G env p p'" "process_fits V ids p" "env_apart V env"
    "sv_svc G = S" "sv_uuid G = up" "ex_prefix (sv_expander G) = pre" "sv_ttl G = T"
  shows "process_fits V ids p'"
  using assms(1,2) by (induction rule: server_run.induct) (auto dest: step_fits [OF _ _ assms(3-7)])

end

text \<open>C4. The stores stay typed: from typed stores, whatever requests come in and however the handlers' goroutines, the mover, the
  workers, the retry poller, the expander and the archiver take turns, also over restarts, the sorted sets are ordered, the keys
  of the tables are unique and refer to each other, every event row decodes and its metadata is JSON. So the listing of the
  active events, which an expansion round begins with, sees every one of them unless the call itself fails.\<close>

theorem server_stays_typed:
  assumes "svc_ok (sv_svc G) P V" "pg_ok P" "limiter_apart V (sv_ttl G)" "env_apart V env"
    "stores_typed V (pr_world p)" "pr_jobs p = {#}" "server_run G env p p'"
  shows "stores_typed V (pr_world p')
    \<and> (sql_answers (sv_svc G) (SelectEventsByStatus EventStatusActive) \<longrightarrow>
        (\<exists>evs. result_of (ListActive (sv_svc G)) (pr_world p') = Inr evs
           \<and> image_mset ev_id (mset evs) = image_mset er_id (filter_mset (\<lambda>r. er_status r = EventStatusActive)
               (mset (db_events (dv V (pr_world p')))))))"
proof -
  have "typed_server (sv_svc G) P V (\<lambda>_. True) (\<lambda>_. {}) (sv_ttl G)"
    using assms(1-3) by unfold_locales (simp_all add: issues_def limiter_remembers_def remembers_def)
  from typed_server.run_fits [OF this assms(7) _ assms(4) refl refl refl refl] assms(5,6)
  have "stores_typed V (pr_world p')" by (simp add: process_fits_def stores_fit_def)
  with ListActive_complete [OF assms(1)] show ?thesis by blast
qed

section \<open>Who gets in\<close>

lemma TokenAuth_cases:
  obtains t where "h = ''Bearer '' @ t" "t \<noteq> []" "CHR '' '' \<notin> set t" "TokenAuth h = Passed t"
  | msg where "\<nexists>t. h = ''Bearer '' @ t \<and> t \<noteq> [] \<and> CHR '' '' \<notin> set t" "TokenAuth h = Aborted (Reply 401 (ErrorBody msg))"
    "msg \<noteq> ''invalid master token''"
proof (cases "TokenAuth h")
  case (Passed t)
  with token_header [of h t] that(1) show thesis by blast
next
  case (Aborted r)
  moreover from this have "\<nexists>t. h = ''Bearer '' @ t \<and> t \<noteq> [] \<and> CHR '' '' \<notin> set t" using token_header [of h] by (metis gate.distinct(1))
  moreover from Aborted obtain msg where "r = Reply 401 (ErrorBody msg)" "msg \<noteq> ''invalid master token''" by (auto simp: TokenAuth_def Let_def split: if_splits)
  ultimately show thesis using that(2) by blast
qed

text \<open>C19. Without a header of the form \<open>Bearer t\<close> no request gets past the public pages: it is answered with 401 once, starts no
  goroutine, and nothing is called but, where the request has no identifier, the source of identifiers. With such a
  header the text \<open>t\<close> does not matter: on every route but the one that issues tokens, two requests that differ in it only
  are served alike, whether it is a valid token or not.\<close>

theorem protected_routes_check_header_only:
  assumes "endpoint_of (aq_method q) (aq_path q) = Some e" "\<not> public e"
  shows "((\<nexists>t. aq_authorization q = ''Bearer '' @ t \<and> t \<noteq> [] \<and> CHR '' '' \<notin> set t) \<longrightarrow>
      (\<exists>msg. run_state (serve G q) w = (([Reply 401 (ErrorBody msg)], None), after (RequestIDMiddleware (sv_svc G) (aq_request_id q)) w)))
    \<and> (e \<noteq> CreateTokenPage \<and> t \<noteq> [] \<and> CHR '' '' \<notin> set t \<and> t' \<noteq> [] \<and> CHR '' '' \<notin> set t' \<longrightarrow>
      serve G (q\<lparr>aq_authorization := ''Bearer '' @ t\<rparr>) = serve G (q\<lparr>aq_authorization := ''Bearer '' @ t'\<rparr>))"
proof (intro conjI impI)
  assume bad: "\<nexists>t. aq_authorization q = ''Bearer '' @ t \<and> t \<noteq> [] \<and> CHR '' '' \<notin> set t"
  then obtain msg where "TokenAuth (aq_authorization q) = Aborted (Reply 401 (ErrorBody msg))"
    by (cases rule: TokenAuth_cases [of "aq_authorization q"]) auto
  then show "\<exists>msg. run_state (serve G q) w = (([Reply 401 (ErrorBody msg)], None), after (RequestIDMiddleware (sv_svc G) (aq_request_id q)) w)"
    using assms by (simp add: serve_def SetupRoutes_def State_Monad.bind_def after_def split: prod.split)
next
  assume t: "e \<noteq> CreateTokenPage \<and> t \<noteq> [] \<and> CHR '' '' \<notin> set t \<and> t' \<noteq> [] \<and> CHR '' '' \<notin> set t'"
  have eq: "endpoint_handler G (q\<lparr>aq_authorization := h\<rparr>) e = endpoint_handler G (q\<lparr>aq_authorization := h'\<rparr>) e" for h h'
    using t by (cases e) (simp_all add: endpoint_handler_def)
  have "serve G (q\<lparr>aq_authorization := h\<rparr>) = serve G (q\<lparr>aq_authorization := h'\<rparr>)"
    if "TokenAuth h = Passed x" "TokenAuth h' = Passed y" for h h' x y
    using assms that by (simp add: serve_def SetupRoutes_def) (subst eq [of h h'], rule refl)
  then show "serve G (q\<lparr>aq_authorization := ''Bearer '' @ t\<rparr>) = serve G (q\<lparr>aq_authorization := ''Bearer '' @ t'\<rparr>)"
    using t token_header by blast
qed

lemma bound_scope: "bind_token s = Inr req \<Longrightarrow> tr_scope req \<noteq> None"
  by (auto simp: bind_token_def bind_json_def split: option.splits if_splits)

lemma bound_error: "bind_token s = Inl x \<Longrightarrow> error_text x \<noteq> ''invalid master token''"
  by (auto simp: bind_token_def bind_json_def json_error_def split: option.splits if_splits)

lemma RateLimit_reply:
  assumes "result_of (RateLimit R L c) w = (Aborted r, h)"
  obtains st msg where "r = Reply st (ErrorBody msg)" "st \<noteq> 200" "msg \<noteq> ''invalid master token''"
  using assms that
  by (auto simp: RateLimit_code result_bind result_return Let_def split: option.splits if_splits)

text \<open>C22. Behind its route \<open>CreateToken\<close> is safe: the checks in front of it let only \<open>Bearer\<close> and the master token through, so its
  own check of the master token never fails and its slice of the header never panics, and where no master token is
  configured the route issues no token at all. (In \<open>main\<close> both checks have the same master token.)\<close>

theorem token_route_never_panics:
  assumes "ts_masterToken (sv_tokens G) = sv_master G"
  shows "case result_of (SetupRoutes G q CreateTokenPage) w of (r, job) \<Rightarrow>
      job = None \<and> (\<exists>st b. r = Some [Reply st b]
        \<and> (b \<noteq> ErrorBody ''invalid master token'')
        \<and> (st = 200 \<longrightarrow> aq_authorization q = ''Bearer '' @ sv_master G \<and> sv_master G \<noteq> []
             \<and> (\<exists>req t. bind_token (aq_body q) = Inr req \<and> b = TokenBody \<lparr>ctr_token = t, ctr_type = TokenTypeJWT, ctr_sub = tr_sub req,
                  ctr_access = tr_access req, ctr_scope = the (tr_scope req), ctr_expires_at = tr_expires_at req\<rparr>)))"
proof (cases rule: TokenAuth_cases [of "aq_authorization q"])
  case (2 msg)
  then show ?thesis by (simp add: SetupRoutes_def public_def result_return)
next
  case (1 t)
  note auth = 1
  let ?h = "aq_authorization q" and ?w = "after (RateLimit (sv_ttl G) (sv_limiter G) (client_id (aq_ip q) [])) w"
  show ?thesis
  proof (cases "RequireMasterToken (sv_master G) ?h")
    case (Aborted r)
    then obtain st msg where "r = Reply st (ErrorBody msg)" "st \<noteq> 200" "msg \<noteq> ''invalid master token''"
      by (auto simp: RequireMasterToken_def Let_def split: if_splits)
    with Aborted auth(4) show ?thesis
      by (auto simp: SetupRoutes_def public_def result_bind result_return endpoint_handler_def Let_def
          split: prod.split gate.split elim!: RateLimit_reply)
  next
    case (Passed u)
    then have h: "?h = ''Bearer '' @ sv_master G" "sv_master G \<noteq> []" using auth master_header [of "sv_master G" ?h] by auto
    then have t: "after_bearer ?h = Some (sv_master G)" by (simp add: after_bearer_def)
    show ?thesis
      using auth(4) h t Passed assms
      by (auto simp: SetupRoutes_def public_def result_bind result_return endpoint_handler_def Let_def CreateToken_def
          ValidateMasterToken_def dest: bound_scope bound_error split: prod.split gate.split sum.split elim!: RateLimit_reply)
  qed
qed

section \<open>A concrete server\<close>

text \<open>It runs on the in-memory services, whose clock stands still, so that no key expires.\<close>

definition mem_ttl :: "mem ttl_redis" where
  "mem_ttl =
     \<lparr>ttl_get = (\<lambda>k. State (\<lambda>w. (Inr (rd_strings (m_redis w) k), w))),
      ttl_exec = (\<lambda>cs. State (\<lambda>w. (None, w\<lparr>m_redis := (m_redis w)\<lparr>rd_strings := put_all cs (rd_strings (m_redis w))\<rparr>\<rparr>))),
      ttl_now = State (\<lambda>w. (m_time w, w))\<rparr>"

definition demo_server :: "mem server" where
  "demo_server =
     \<lparr>sv_svc = mem_svc, sv_ttl = mem_ttl, sv_limiter = default_limiter, sv_jwt = demo_jwt,
      sv_tokens = \<lparr>ts_masterToken = ''m4ster'', ts_jwtSecret = ''s3cret''\<rparr>, sv_master = ''m4ster'',
      sv_expander = \<lparr>ex_prefix = [], lookAheadDuration = 24 * hour, gracePeriod = 0\<rparr>,
      sv_dispatcher = \<lparr>di_prefix = [], di_maxRetries = 3, di_retryDelay = second, di_hmac = None, di_request_error = (\<lambda>_ _. None)\<rparr>,
      sv_uuid = Some, sv_start = 0, sv_seconds = (\<lambda>d. d div second), sv_unrouted = (\<lambda>_. Reply 404 NoBody), sv_zone = 0,
      sv_check_period = hour, sv_retention = \<lparr>rd_events = 720 * hour, rd_occurrences = 168 * hour, rd_cleanup_interval = hour\<rparr>\<rparr>"

definition demo_call :: "string \<Rightarrow> api_request" where
  "demo_call h = \<lparr>aq_method = ''DELETE'', aq_path = [''events'', mem_uuid 0], aq_query = [], aq_authorization = h,
     aq_request_id = ''r1'', aq_ip = ''10.0.0.1'', aq_body = []\<rparr>"

lemma mem_ttl_apart: "limiter_apart mem_views mem_ttl"
  by (auto simp: limiter_apart_def apart_def mem_ttl_def after_def strings_only_def)

text \<open>Outside of the server only time passes.\<close>

definition mem_env :: "mem \<Rightarrow> mem \<Rightarrow> bool" where
  "mem_env w w' \<longleftrightarrow> (\<exists>t. m_time w \<le> t \<and> w' = w\<lparr>m_time := t\<rparr>)"

lemma mem_env_apart: "env_apart mem_views mem_env"
  by (auto simp: env_apart_def mem_env_def)

lemma demo_typed: "stores_typed mem_views demo_mem"
proof -
  have "row_typed demo_row" unfolding row_typed_columns by code_simp
  then show ?thesis by (simp add: stores_typed_def tables_typed_def) (simp add: demo_mem_def)
qed

theorem server_stays_typed_witness:
  "\<exists>p. server_run demo_server mem_env \<lparr>pr_world = demo_mem, pr_jobs = {#}, pr_busy = {#}, pr_turns = []\<rparr> p \<and> stores_typed mem_views (pr_world p)"
proof -
  let ?p = "\<lparr>pr_world = demo_mem, pr_jobs = {#}, pr_busy = {#}, pr_turns = []\<rparr> :: mem process"
  have svc: "svc_ok (sv_svc demo_server) mem_pg mem_views" "limiter_apart mem_views (sv_ttl demo_server)"
    by (simp_all add: demo_server_def mem_svc_ok mem_ttl_apart)
  have run: "server_run demo_server mem_env ?p (?p\<lparr>pr_world := after (ExpandEvents mem_svc (sv_expander demo_server)) demo_mem\<rparr>)"
    using server_run.next_step [OF server_run.start server_step.expander, of demo_server mem_env ?p] by (simp add: demo_server_def)
  from server_stays_typed [OF svc(1) mem_pg_ok svc(2) mem_env_apart _ _ run] demo_typed run show ?thesis by auto
qed

theorem protected_routes_check_header_only_witness:
  "(\<exists>msg. run_state (serve demo_server (demo_call ''Basic xyz'')) demo_mem = (([Reply 401 (ErrorBody msg)], None), demo_mem))
   \<and> serve demo_server (demo_call ''Bearer not-a-token'') = serve demo_server (demo_call ''Bearer m4ster'')"
proof -
  have e: "endpoint_of (aq_method (demo_call h)) (aq_path (demo_call h)) = Some (DeleteEventPage (mem_uuid 0))" for h
    by (simp add: demo_call_def endpoint_of_def mem_uuid_def)
  have "after (RequestIDMiddleware mem_svc ''r1'') demo_mem = demo_mem" by (simp add: RequestIDMiddleware_def after_def)
  moreover note protected_routes_check_header_only [OF e, where G = demo_server and w = demo_mem and t = "''not-a-token''" and t' = "''m4ster''"]
  ultimately show ?thesis by (simp add: public_def) (simp add: demo_call_def demo_server_def)
qed

theorem token_route_never_panics_witness:
  "\<exists>st b. fst (result_of (SetupRoutes demo_server (demo_call ''Bearer m4ster'') CreateTokenPage) demo_mem) = Some [Reply st b]
     \<and> b \<noteq> ErrorBody ''invalid master token''"
  using token_route_never_panics [of demo_server "demo_call ''Bearer m4ster''" demo_mem]
  by (auto simp: demo_server_def split: prod.splits)
interpretation mem_server: typed_server mem_svc mem_pg mem_views Some "[]" "\<lambda>_. True" "\<lambda>_. {}" mem_ttl
  by unfold_locales (simp_all add: mem_ttl_apart limiter_remembers_def remembers_def)

end
