(* ===== verification/Pipeline.thy ===== *)
theory Pipeline
  imports Prelude "HOL-Library.Multiset"
begin

text \<open>
  The delivery pipeline in the abstract: items, each an occurrence with the number of dispatches it has
  had, wait for their time, are queued, are busy in a worker, and come back from the retry queue. Any
  number of workers, schedulers and pollers take the steps in any order; items may be lost (an event is
  deleted, a worker crashes, a reply does not arrive). The program's Redis structures refine it
  (theory \<open>Delivery\<close>).
\<close>

type_synonym item = "string \<times> int"

record pipeline =
  waiting :: "item multiset"
  queued :: "item multiset"
  busy :: "item multiset"
  retrying :: "item multiset"
  entered :: "string set"
  turns :: "string list"

definition empty_pipeline :: pipeline where
  "empty_pipeline = \<lparr>waiting = {#}, queued = {#}, busy = {#}, retrying = {#}, entered = {}, turns = []\<rparr>"

text \<open>\<open>turns\<close> lists the occurrences of the dispatches so far; \<open>limit\<close> is the program's \<open>maxRetries\<close>.\<close>

inductive pipe_step :: "int \<Rightarrow> pipeline \<Rightarrow> pipeline \<Rightarrow> bool" for limit where
  enter: "oid \<notin> entered p \<Longrightarrow> pipe_step limit p (p\<lparr>waiting := add_mset (oid, 0) (waiting p), entered := insert oid (entered p)\<rparr>)"
| fall_due: "M \<subseteq># waiting p \<Longrightarrow> pipe_step limit p (p\<lparr>waiting := waiting p - M, queued := queued p + M\<rparr>)"
| take_item: "x \<in># queued p \<Longrightarrow> pipe_step limit p (p\<lparr>queued := queued p - {#x#}, busy := add_mset x (busy p)\<rparr>)"
| finish: "(oid, a) \<in># busy p \<Longrightarrow> pipe_step limit p (p\<lparr>busy := busy p - {#(oid, a)#}, turns := oid # turns p\<rparr>)"
| again: "(oid, a) \<in># busy p \<Longrightarrow> a + 1 < limit \<Longrightarrow>
    pipe_step limit p (p\<lparr>busy := busy p - {#(oid, a)#}, retrying := add_mset (oid, a + 1) (retrying p), turns := oid # turns p\<rparr>)"
| come_back: "M \<subseteq># retrying p \<Longrightarrow> pipe_step limit p (p\<lparr>retrying := retrying p - M, queued := queued p + M\<rparr>)"
| lose_waiting: "pipe_step limit p (p\<lparr>waiting := waiting p - M\<rparr>)"
| lose_queued: "pipe_step limit p (p\<lparr>queued := queued p - M\<rparr>)"
| lose_busy: "pipe_step limit p (p\<lparr>busy := busy p - M\<rparr>)"

inductive pipe_steps :: "int \<Rightarrow> pipeline \<Rightarrow> pipeline \<Rightarrow> bool" for limit where
  stay: "pipe_steps limit p p"
| go: "pipe_steps limit p q \<Longrightarrow> pipe_step limit q r \<Longrightarrow> pipe_steps limit p r"

declare pipe_steps.stay [simp, intro]

lemma pipe_steps_one [intro]: "pipe_step limit p q \<Longrightarrow> pipe_steps limit p q"
  by (rule pipe_steps.go [OF pipe_steps.stay])

lemma pipe_steps_trans: "pipe_steps limit q r \<Longrightarrow> pipe_steps limit p q \<Longrightarrow> pipe_steps limit p r"
  by (induction rule: pipe_steps.induct) (auto intro: pipe_steps.go)

section \<open>The invariant\<close>

text \<open>
  No occurrence is in the pipeline twice; an item's count is the number of turns its occurrence has had,
  and is below the limit (one turn is had even with a limit of zero).
\<close>

definition items :: "pipeline \<Rightarrow> item multiset" where
  "items p = waiting p + queued p + busy p + retrying p"

definition turns_of :: "pipeline \<Rightarrow> string \<Rightarrow> nat" where
  "turns_of p oid = length (filter ((=) oid) (turns p))"

definition turn_limit :: "int \<Rightarrow> nat" where
  "turn_limit limit = nat (max 1 limit)"

definition pipe_ok :: "int \<Rightarrow> pipeline \<Rightarrow> bool" where
  "pipe_ok limit p \<longleftrightarrow>
     (\<forall>x \<in># items p. snd x = int (turns_of p (fst x)) \<and> turns_of p (fst x) < turn_limit limit \<and> fst x \<in> entered p)
   \<and> (\<forall>oid. count (image_mset fst (items p)) oid \<le> 1)
   \<and> (\<forall>oid. turns_of p oid \<le> turn_limit limit) \<and> set (turns p) \<subseteq> entered p"

text \<open>Losing or moving items keeps the invariant: only their collection matters.\<close>

lemma pipe_ok_fewer:
  assumes "pipe_ok limit p" "items q \<subseteq># items p" "turns q = turns p" "entered q = entered p"
  shows "pipe_ok limit q"
proof -
  have "count (image_mset fst (items q)) oid \<le> count (image_mset fst (items p)) oid" for oid
    using assms(2) by (intro mset_subset_eq_count image_mset_subseteq_mono)
  with assms show ?thesis
    by (auto simp: pipe_ok_def turns_of_def dest: mset_subset_eqD) (meson le_trans)
qed

lemma sole_item:
  assumes "pipe_ok limit p" "items p = add_mset (oid, a) R"
  shows "oid \<notin> fst ` set_mset R" "int (turns_of p oid) = a" "turns_of p oid < turn_limit limit"
proof -
  have "count (image_mset fst (items p)) oid \<le> 1" using assms(1) by (simp add: pipe_ok_def)
  then show "oid \<notin> fst ` set_mset R" by (simp add: assms(2) count_eq_zero_iff)
  show "int (turns_of p oid) = a" "turns_of p oid < turn_limit limit"
    using assms by (auto simp: pipe_ok_def)
qed

text \<open>A turn: the item leaves, or comes back with its count one higher.\<close>

lemma turn_ok:
  assumes "pipe_ok limit p" "items p = add_mset (oid, a) R" "turns q = oid # turns p" "entered q = entered p"
    "items q = R \<or> items q = add_mset (oid, a + 1) R \<and> a + 1 < limit"
  shows "pipe_ok limit q"
proof -
  note s = sole_item [OF assms(1,2)]
  have t: "turns_of q i = turns_of p i + (if i = oid then 1 else 0)" for i
    by (simp add: turns_of_def assms(3))
  have c: "count (image_mset fst R) i \<le> 1" for i
  proof -
    have "count (image_mset fst R) i \<le> count (image_mset fst (items p)) i" by (simp add: assms(2))
    also have "\<dots> \<le> 1" using assms(1) by (simp add: pipe_ok_def)
    finally show ?thesis .
  qed
  have none: "count (image_mset fst R) oid = 0" using s(1) by (simp add: count_eq_zero_iff)
  have R: "b = int (turns_of p i) \<and> turns_of p i < turn_limit limit \<and> i \<in> entered p \<and> i \<noteq> oid"
    if "(i, b) \<in># R" for i b
  proof -
    from that have "(i, b) \<in># items p" by (simp add: assms(2))
    with assms(1) have "b = int (turns_of p i) \<and> turns_of p i < turn_limit limit \<and> i \<in> entered p"
      unfolding pipe_ok_def by fastforce
    moreover from that have "i \<in> fst ` set_mset R" by (metis fst_conv image_eqI)
    ultimately show ?thesis using s(1) by blast
  qed
  have "oid \<in> entered p" using assms(1,2) by (auto simp: pipe_ok_def)
  moreover have "turns_of p oid + 1 \<le> turn_limit limit" using s(3) by simp
  moreover have "a + 1 < limit \<Longrightarrow> turns_of p oid + 1 < turn_limit limit" using s(2) by (simp add: turn_limit_def)
  ultimately have new: "snd x = int (turns_of q (fst x)) \<and> turns_of q (fst x) < turn_limit limit \<and> fst x \<in> entered q"
    if x: "x \<in># items q" for x
  proof (cases "x \<in># R")
    case True
    with R [of "fst x" "snd x"] assms(4) show ?thesis by (simp add: t)
  next
    case False
    with x assms(5) have "x = (oid, a + 1)" "a + 1 < limit" by auto
    with s(2) assms(4) \<open>oid \<in> entered p\<close> \<open>a + 1 < limit \<Longrightarrow> turns_of p oid + 1 < turn_limit limit\<close> show ?thesis by (simp add: t)
  qed
  have "count (image_mset fst (items q)) i \<le> 1" for i
    using assms(5) c [of i] none by auto
  moreover have "turns_of q i \<le> turn_limit limit" for i
    using assms(1) \<open>turns_of p oid + 1 \<le> turn_limit limit\<close> by (simp add: pipe_ok_def t)
  moreover have "set (turns q) \<subseteq> entered q"
    using assms(1,3,4) \<open>oid \<in> entered p\<close> by (simp add: pipe_ok_def)
  ultimately show ?thesis using new by (simp add: pipe_ok_def)
qed

lemma pipe_step_ok:
  assumes "pipe_step limit p q" "pipe_ok limit p"
  shows "pipe_ok limit q"
  using assms
proof (induction rule: pipe_step.induct)
  case (enter oid p)
  have "oid \<notin> set (turns p)" "oid \<notin> fst ` set_mset (items p)"
    using enter by (auto simp: pipe_ok_def)
  then have "turns_of p oid = 0" "count (image_mset fst (items p)) oid = 0"
    by (auto simp: turns_of_def filter_empty_conv count_eq_zero_iff)
  with enter(2) show ?case
    by (auto simp: pipe_ok_def items_def turns_of_def turn_limit_def)
next
  case (fall_due M p)
  then obtain W where "waiting p = M + W" by (auto simp: subset_mset.le_iff_add)
  with fall_due(2) show ?case by (elim pipe_ok_fewer) (simp_all add: items_def ac_simps)
next
  case (take_item x p)
  then obtain Q where "queued p = add_mset x Q" by (auto dest: multi_member_split)
  with take_item(2) show ?case by (elim pipe_ok_fewer) (simp_all add: items_def)
next
  case (finish oid a p)
  then obtain B where "busy p = add_mset (oid, a) B" by (auto dest: multi_member_split)
  with finish show ?case
    by - (rule turn_ok [of limit p oid a "waiting p + queued p + B + retrying p"], simp_all add: items_def)
next
  case (again oid a p)
  then obtain B where "busy p = add_mset (oid, a) B" by (auto dest: multi_member_split)
  with again show ?case
    by - (rule turn_ok [of limit p oid a "waiting p + queued p + B + retrying p"], simp_all add: items_def)
next
  case (come_back M p)
  then obtain W where "retrying p = M + W" by (auto simp: subset_mset.le_iff_add)
  with come_back(2) show ?case by (elim pipe_ok_fewer) (simp_all add: items_def ac_simps)
qed (auto elim!: pipe_ok_fewer simp: items_def intro: subset_mset.add_mono)

lemma pipe_steps_ok: "pipe_steps limit p q \<Longrightarrow> pipe_ok limit p \<Longrightarrow> pipe_ok limit q"
  by (induction rule: pipe_steps.induct) (auto intro: pipe_step_ok)

lemma pipe_ok_empty: "pipe_ok limit empty_pipeline"
  by (simp add: pipe_ok_def empty_pipeline_def items_def turns_of_def)

section \<open>Occurrences that have gone\<close>

text \<open>An occurrence that entered the pipeline and is nowhere in it gets no further turn.\<close>

definition gone :: "string \<Rightarrow> pipeline \<Rightarrow> bool" where
  "gone oid p \<longleftrightarrow> oid \<in> entered p \<and> (\<forall>x \<in># items p. fst x \<noteq> oid)"

lemma gone_step: "pipe_step limit p q \<Longrightarrow> gone oid p \<Longrightarrow> gone oid q \<and> turns_of q oid = turns_of p oid"
proof (induction rule: pipe_step.induct)
  case (finish oid' a p)
  then obtain B where "busy p = add_mset (oid', a) B" by (auto dest: multi_member_split)
  with finish(2) show ?case by (auto simp: gone_def items_def turns_of_def)
next
  case (again oid' a p)
  then obtain B where "busy p = add_mset (oid', a) B" by (auto dest: multi_member_split)
  with again(3) show ?case by (auto simp: gone_def items_def turns_of_def)
qed (auto simp: gone_def items_def turns_of_def dest: in_diffD mset_subset_eqD)

lemma gone_steps: "pipe_steps limit p q \<Longrightarrow> gone oid p \<Longrightarrow> gone oid q \<and> turns_of q oid = turns_of p oid"
  by (induction rule: pipe_steps.induct) (auto dest: gone_step)

lemma entered_step: "pipe_step limit p q \<Longrightarrow> entered p \<subseteq> entered q"
  by (induction rule: pipe_step.induct) auto

lemma entered_steps: "pipe_steps limit p q \<Longrightarrow> entered p \<subseteq> entered q"
  by (induction rule: pipe_steps.induct) (auto dest: entered_step)

end
