(* ===== verification/Delivery.thy ===== *)
theory Delivery
  imports Pipeline Expansion Dispatcher
begin

text \<open>
  The Redis structures refine the abstract pipeline. A run is the world with the items that workers hold,
  the items dispatched so far and the identifiers in use; its steps are the program's functions: the
  expander's \<open>scheduleWithRetry\<close>, \<open>GetDueSchedules\<close>, the worker's pop and its processing of the item,
  the retry poller, the removals, and anything that leaves Redis alone. Each is one step of the run;
  workers, pollers and the expander may take them in any order, and a worker may die with its item.
\<close>

section \<open>The pipeline in Redis\<close>

definition entry_item :: "(string \<Rightarrow> uuid option) \<Rightarrow> string \<Rightarrow> item" where
  "entry_item up v = (case unmarshal_schedule up v of Inr s \<Rightarrow> (oc_occurrence_id s, oc_attempt_count s) | Inl _ \<Rightarrow> ([], 0))"

definition waiting_items :: "(string \<Rightarrow> uuid option) \<Rightarrow> string \<Rightarrow> rdata \<Rightarrow> item multiset" where
  "waiting_items up pre d = image_mset (\<lambda>k. entry_item up (snd (the (pending_entries pre d k)))) (mset_set (dom (pending_entries pre d)))"

definition retry_queue :: "string \<Rightarrow> rdata \<Rightarrow> string list" where
  "retry_queue pre d = zmembers (rd_zsets d (pre @ retryQueueKey))"

lemma retry_key_other: "retryQueueKey \<noteq> ScheduleKey" "ScheduleKey \<noteq> retryQueueKey"
  by (simp_all add: retryQueueKey_def ScheduleKey_def)

lemma finite_pending: "finite (dom (pending_entries pre d))"
proof (rule finite_subset)
  show "dom (pending_entries pre d) \<subseteq> zmember ` set (rd_zsets d (pre @ ScheduleKey))"
    by (auto simp: pending_entries_def score_of_def dom_def split: option.splits dest!: map_of_SomeD)
qed simp

lemma waiting_add:
  assumes "pending_entries pre d' = (pending_entries pre d)(k \<mapsto> (s, v))" "pending_entries pre d k = None"
  shows "waiting_items up pre d' = add_mset (entry_item up v) (waiting_items up pre d)"
proof -
  have "k \<notin> dom (pending_entries pre d)" using assms(2) by auto
  moreover have "image_mset (\<lambda>j. entry_item up (snd (the (pending_entries pre d' j)))) (mset_set (dom (pending_entries pre d)))
      = waiting_items up pre d"
    unfolding waiting_items_def by (rule image_mset_cong) (use assms finite_pending in \<open>auto simp: dom_def\<close>)
  ultimately show ?thesis
    using finite_pending by (simp add: waiting_items_def assms(1))
qed

lemma waiting_less:
  assumes "pending_entries pre d' \<subseteq>\<^sub>m pending_entries pre d"
  shows "waiting_items up pre d' \<subseteq># waiting_items up pre d"
proof -
  have "waiting_items up pre d' = image_mset (\<lambda>k. entry_item up (snd (the (pending_entries pre d k)))) (mset_set (dom (pending_entries pre d')))"
    unfolding waiting_items_def by (rule image_mset_cong) (use assms finite_pending in \<open>auto simp: map_le_def\<close>)
  moreover have "mset_set (dom (pending_entries pre d')) \<subseteq># mset_set (dom (pending_entries pre d))"
    using map_le_implies_dom_le [OF assms] finite_pending by (simp add: subset_imp_msubset_mset_set)
  ultimately show ?thesis unfolding waiting_items_def by (simp add: image_mset_subseteq_mono)
qed

lemma waiting_moves:
  assumes "rdata_ok d"
  obtains M where "M \<subseteq># waiting_items up pre d" "waiting_items up pre (move_entries pre now d) = waiting_items up pre d - M"
    "image_mset (entry_item up) (mset (dispatch_queue pre (move_entries pre now d)))
       = image_mset (entry_item up) (mset (dispatch_queue pre d)) + M"
proof -
  let ?p = "pending_entries pre d" and ?p' = "pending_entries pre (move_entries pre now d)"
  obtain ks where ks: "distinct ks" "set ks = {k. \<exists>s v. ?p k = Some (s, v) \<and> 0 \<le> s \<and> s \<le> now}"
    "dispatch_queue pre (move_entries pre now d) = dispatch_queue pre d @ map (\<lambda>k. snd (the (?p k))) ks"
    by (rule redis_store.move_readyE [OF assms, of pre now])
  have p': "?p' k = (if k \<in> set ks then None else ?p k)" for k
    using redis_store.move_pending [OF assms, of pre now] ks(2) by (auto split: option.splits)
  then have dom: "dom ?p = dom ?p' \<union> set ks" "dom ?p' \<inter> set ks = {}" using ks(2) by (auto split: if_splits)
  define f where "f k = entry_item up (snd (the (?p k)))" for k
  define M where "M = image_mset f (mset ks)"
  have w': "waiting_items up pre (move_entries pre now d) = image_mset f (mset_set (dom ?p'))"
    unfolding waiting_items_def f_def by (rule image_mset_cong) (use p' finite_pending in \<open>auto split: if_splits\<close>)
  have "mset_set (dom ?p) = mset_set (dom ?p') + mset ks"
    using dom finite_pending [of pre "move_entries pre now d"] ks(1) by (simp add: mset_set_Union mset_set_set)
  then have w: "waiting_items up pre d = waiting_items up pre (move_entries pre now d) + M"
    by (simp add: waiting_items_def [of up pre d] w' M_def f_def [abs_def])
  show ?thesis
  proof (rule that)
    show "M \<subseteq># waiting_items up pre d" "waiting_items up pre (move_entries pre now d) = waiting_items up pre d - M"
      by (simp_all add: w)
    show "image_mset (entry_item up) (mset (dispatch_queue pre (move_entries pre now d)))
       = image_mset (entry_item up) (mset (dispatch_queue pre d)) + M"
      by (simp add: ks(3) M_def f_def [abs_def] multiset.map_comp comp_def flip: mset_map)
  qed
qed
section \<open>Runs of the program\<close>

record 'w run =
  rn_world :: 'w
  rn_busy :: "string multiset"
  rn_turns :: "string list"
  rn_used :: "uuid set"

definition pipeline_of :: "(string \<Rightarrow> uuid option) \<Rightarrow> string \<Rightarrow> 'w views \<Rightarrow> 'w run \<Rightarrow> pipeline" where
  "pipeline_of up pre V r = (let d = rv V (rn_world r) in
     \<lparr>waiting = waiting_items up pre d, queued = image_mset (entry_item up) (mset (dispatch_queue pre d)),
      busy = image_mset (entry_item up) (rn_busy r), retrying = image_mset (entry_item up) (mset (retry_queue pre d)),
      entered = rn_used r, turns = map (\<lambda>v. fst (entry_item up v)) (rn_turns r)\<rparr>)"

text \<open>If it can be encoded at all, an entry has representable fields.\<close>

definition marshals :: "(string \<Rightarrow> uuid option) \<Rightarrow> schedule \<Rightarrow> bool" where
  "marshals up s \<longleftrightarrow> (\<forall>data. marshal_schedule s = Inr data \<longrightarrow> ok_schedule up s)"

text \<open>
  A step of the program. A new occurrence has an identifier not in use (\<open>uuid.New\<close>), no attempts and
  representable fields; the calls of one \<open>scheduleWithRetry\<close> are not interleaved with other steps.
\<close>

inductive code_step :: "(string \<Rightarrow> uuid option) \<Rightarrow> 'w svc \<Rightarrow> 'w views \<Rightarrow> dispatcher \<Rightarrow> 'w run \<Rightarrow> 'w run \<Rightarrow> bool"
  for up S V D where
  schedule: "oc_occurrence_id oc \<notin> rn_used r \<Longrightarrow> oc_attempt_count oc = 0 \<Longrightarrow> marshals up (schedule_of oc ev) \<Longrightarrow>
    code_step up S V D r (r\<lparr>rn_world := after (scheduleWithRetry S (di_prefix D) oc ev) (rn_world r),
      rn_used := insert (oc_occurrence_id oc) (rn_used r)\<rparr>)"
| move: "code_step up S V D r (r\<lparr>rn_world := after (GetDueSchedules S (di_prefix D)) (rn_world r)\<rparr>)"
| pop: "run_state (redis S (BRPOP (di_prefix D @ dispatchQueueKey))) (rn_world r) = (Inr (RArr [k, v]), w') \<Longrightarrow>
    code_step up S V D r (r\<lparr>rn_world := w', rn_busy := add_mset v (rn_busy r)\<rparr>)"
| pop_fails: "run_state (redis S (BRPOP (di_prefix D @ dispatchQueueKey))) (rn_world r) = (x, w') \<Longrightarrow>
    \<forall>k v. x \<noteq> Inr (RArr [k, v]) \<Longrightarrow> code_step up S V D r (r\<lparr>rn_world := w'\<rparr>)"
| process: "v \<in># rn_busy r \<Longrightarrow>
    code_step up S V D r (r\<lparr>rn_world := after (process_item up S D v) (rn_world r), rn_busy := rn_busy r - {#v#},
      rn_turns := v # rn_turns r\<rparr>)"
| die: "code_step up S V D r (r\<lparr>rn_busy := rn_busy r - {#v#}\<rparr>)"
| poll: "code_step up S V D r (r\<lparr>rn_world := after (poller_turn S D) (rn_world r)\<rparr>)"
| remove: "code_step up S V D r (r\<lparr>rn_world := after (RemoveScheduledEvent S (di_prefix D) oc) (rn_world r)\<rparr>)"
| remove_event: "code_step up S V D r (r\<lparr>rn_world := after (RemoveEventOccurrencesFromRedis up S (di_prefix D) i) (rn_world r)\<rparr>)"
| elsewhere: "strings_only (rv V (rn_world r)) (rv V w') \<Longrightarrow> code_step up S V D r (r\<lparr>rn_world := w'\<rparr>)"

inductive code_run :: "(string \<Rightarrow> uuid option) \<Rightarrow> 'w svc \<Rightarrow> 'w views \<Rightarrow> dispatcher \<Rightarrow> 'w run \<Rightarrow> 'w run \<Rightarrow> bool"
  for up S V D where
  start: "code_run up S V D r r"
| next_step: "code_run up S V D r r' \<Longrightarrow> code_step up S V D r' r'' \<Longrightarrow> code_run up S V D r r''"

text \<open>Every payload anywhere is a schedule with representable fields.\<close>

definition good :: "(string \<Rightarrow> uuid option) \<Rightarrow> string \<Rightarrow> bool" where
  "good up v \<longleftrightarrow> (\<exists>s. unmarshal_schedule up v = Inr s \<and> ok_schedule up s)"

definition payloads :: "string \<Rightarrow> rdata \<Rightarrow> string set" where
  "payloads pre d = (snd ` ran (pending_entries pre d)) \<union> set (dispatch_queue pre d) \<union> set (retry_queue pre d)"

definition run_ok :: "(string \<Rightarrow> uuid option) \<Rightarrow> string \<Rightarrow> 'w views \<Rightarrow> 'w run \<Rightarrow> bool" where
  "run_ok up pre V r \<longleftrightarrow> rdata_ok (rv V (rn_world r))
     \<and> (\<forall>v \<in> payloads pre (rv V (rn_world r)) \<union> set_mset (rn_busy r). good up v)"

lemma entry_item_simps: "unmarshal_schedule up v = Inr s \<Longrightarrow> entry_item up v = (oc_occurrence_id s, oc_attempt_count s)"
  by (simp add: entry_item_def)

text \<open>What a step does to the Redis data, and how the pipeline sees it.\<close>

abbreviation (input) same_queues :: "string \<Rightarrow> rdata \<Rightarrow> rdata \<Rightarrow> bool" where
  "same_queues pre d d' \<equiv> dispatch_queue pre d' = dispatch_queue pre d \<and> retry_queue pre d' = retry_queue pre d"

definition shrinks :: "string \<Rightarrow> rdata \<Rightarrow> rdata \<Rightarrow> bool" where
  "shrinks pre d d' \<longleftrightarrow> rdata_ok d' \<and> pending_entries pre d' \<subseteq>\<^sub>m pending_entries pre d \<and> same_queues pre d d'"

lemma shrinks_refl [simp]: "rdata_ok d \<Longrightarrow> shrinks pre d d"
  by (simp add: shrinks_def)

lemma shrinks_trans: "shrinks pre d d' \<Longrightarrow> shrinks pre d' d'' \<Longrightarrow> shrinks pre d d''"
  by (auto simp: shrinks_def intro: map_le_trans)

lemma removal_shrinks:
  assumes "rdata_ok d"
  shows "shrinks pre d (remove_entry pre k d)" "shrinks pre d (drop_member pre k d)" "shrinks pre d (drop_payload pre k d)"
proof -
  have z: "zset_ok (rd_zsets d (pre @ ScheduleKey))" using assms by (simp add: rdata_ok_def)
  show "shrinks pre d (remove_entry pre k d)"
    using redis_store.delete_inv [OF assms, of pre k] redis_store.delete_pending [OF assms, of pre k]
    by (simp add: shrinks_def redis_store.delete_ready map_le_def) (simp add: remove_entry_def retry_queue_def retry_key_other)
  show "shrinks pre d (drop_member pre k d)"
    using assms z by (auto simp: shrinks_def drop_member_def dispatch_queue_def retry_queue_def retry_key_other map_le_def
        pending_entries_def score_of_zrem dom_def split: option.splits if_splits intro!: codec_intros)
  show "shrinks pre d (drop_payload pre k d)"
    using assms z by (auto simp: shrinks_def drop_payload_def dispatch_queue_def retry_queue_def retry_key_other map_le_def
        pending_entries_def dom_def split: option.splits if_splits intro!: codec_intros)
qed
section \<open>Each function as steps of the pipeline\<close>

text \<open>A smaller schedule is a loss of waiting items.\<close>

lemma shrinks_run:
  assumes "shrinks (di_prefix D) (rv V (rn_world r)) (rv V w')" "run_ok up (di_prefix D) V r"
  shows "run_ok up (di_prefix D) V (r\<lparr>rn_world := w'\<rparr>)
     \<and> pipe_step limit (pipeline_of up (di_prefix D) V r) (pipeline_of up (di_prefix D) V (r\<lparr>rn_world := w'\<rparr>))"
proof
  let ?d = "rv V (rn_world r)" and ?d' = "rv V w'" and ?pre = "di_prefix D"
  from assms(1) have le: "pending_entries ?pre ?d' \<subseteq>\<^sub>m pending_entries ?pre ?d" and q: "same_queues ?pre ?d ?d'" and ok: "rdata_ok ?d'"
    by (simp_all add: shrinks_def)
  have "ran (pending_entries ?pre ?d') \<subseteq> ran (pending_entries ?pre ?d)" using le by (force simp: ran_def map_le_def dom_def)
  with assms(2) ok q show "run_ok up ?pre V (r\<lparr>rn_world := w'\<rparr>)"
    unfolding run_ok_def payloads_def by auto
  have "waiting_items up ?pre ?d' = waiting_items up ?pre ?d - (waiting_items up ?pre ?d - waiting_items up ?pre ?d')"
    using waiting_less [OF le] by (simp add: multiset_eq_iff subseteq_mset_def)
  then have "pipeline_of up ?pre V (r\<lparr>rn_world := w'\<rparr>) = (pipeline_of up ?pre V r)\<lparr>waiting :=
      waiting (pipeline_of up ?pre V r) - (waiting_items up ?pre ?d - waiting_items up ?pre ?d')\<rparr>"
    using q by (simp add: pipeline_of_def Let_def)
  then show "pipe_step limit (pipeline_of up ?pre V r) (pipeline_of up ?pre V (r\<lparr>rn_world := w'\<rparr>))"
    by (simp only: pipe_step.lose_waiting)
qed

lemma RemoveScheduledEvent_shrinks:
  assumes ok: "svc_ok S P V" and d: "rdata_ok (rv V w)"
  shows "shrinks pre (rv V w) (rv V (after (RemoveScheduledEvent S pre oc) w))"
proof -
  have "wp (RemoveScheduledEvent S pre oc) (\<lambda>_ w'. rv V w' \<in> (let k = schedule_key (oc_event_id oc) (oc_scheduled_at oc) in
      {rv V w, drop_member pre k (rv V w), remove_entry pre k (rv V w)})) w"
    unfolding RemoveScheduledEvent_def Let_def wp_attempt
    by (rule wp_redis [OF ok]) (auto simp: drop_member_def remove_entry_def intro!: wp_redis [OF ok] dest!: redis_sem_call)
  from wp_result [OF this] show ?thesis using removal_shrinks [OF d] d by (auto simp: Let_def)
qed

lemma RemoveEventOccurrences_shrinks:
  assumes ok: "svc_ok S P V" and d: "rdata_ok (rv V w)"
  shows "shrinks pre (rv V w) (rv V (after (RemoveEventOccurrencesFromRedis up S pre i) w))"
proof -
  have loop: "wp (for_each (remove_if_of up S pre i) ks) (\<lambda>_ w'. shrinks pre (rv V w) (rv V w')) w1" if "rv V w1 = rv V w" for ks w1
  proof (rule wp_for_each)
    fix k w2 assume I: "shrinks pre (rv V w) (rv V w2)"
    then have "rdata_ok (rv V w2)" by (simp add: shrinks_def)
    from removal_shrinks [OF this] show "wp (remove_if_of up S pre i k) (\<lambda>_ w'. shrinks pre (rv V w) (rv V w')) w2"
      by (intro wp_mono [OF remove_if_of_wp [OF ok]]) (use I in \<open>auto intro: shrinks_trans\<close>)
  qed (use that d in simp)
  have "wp (RemoveEventOccurrencesFromRedis up S pre i) (\<lambda>_ w'. shrinks pre (rv V w) (rv V w')) w"
    unfolding RemoveEventOccurrencesFromRedis_def wp_attempt
  proof (rule wp_redis [OF ok], goal_cases)
    case (1 x w1)
    then have "rv V w1 = rv V w" by simp
    with 1 show ?case by (simp add: loop)
  qed (use d in auto)
  from wp_result [OF this] show ?thesis .
qed

lemma GetDueSchedules_moves:
  assumes ok: "svc_ok S P V"
  shows "rv V (after (GetDueSchedules S pre) w) = rv V w \<or> (\<exists>now. rv V (after (GetDueSchedules S pre) w) = move_entries pre now (rv V w))"
proof -
  have "wp (GetDueSchedules S pre) (\<lambda>_ w'. rv V w' = rv V w \<or> (\<exists>now. rv V w' = move_entries pre now (rv V w))) w"
    unfolding GetDueSchedules_def wp_bind wp_attempt
    by (rule wp_time [OF ok], rule wp_redis [OF ok]) (auto simp: move_entries_def call_def, metis snd_conv)
  from wp_result [OF this] show ?thesis .
qed

lemma lua_retry_result:
  "lua_retry z q vs d = upd_zset z (filter (\<lambda>i. zmember i \<notin> set vs)) (upd_list q (\<lambda>l. l @ vs) d)"
proof (induction vs arbitrary: d)
  case Nil
  show ?case by (simp add: upd_zset_def upd_list_def)
next
  case (Cons v vs)
  have "filter (\<lambda>i. zmember i \<notin> set vs) (zrem v zs) = filter (\<lambda>i. zmember i \<notin> set (v # vs)) zs" for zs
    by (auto simp: zrem_def intro!: filter_cong)
  with Cons show ?case by (simp add: upd_zset_def upd_list_def)
qed

text \<open>What is due in a sorted set, and the rest.\<close>

lemma retry_range_split:
  assumes "zset_ok z"
  shows "mset (zmembers z) = mset (zrange_by_score None t z)
     + mset (zmembers (filter (\<lambda>i. zmember i \<notin> set (zrange_by_score None t z)) z))"
proof -
  have inj: "inj_on zmember (set z)" using assms by (simp add: zset_ok_def zmembers_def distinct_map)
  have "filter (\<lambda>i. zmember i \<notin> set (zrange_by_score None t z)) z = filter (\<lambda>i. \<not> zscore i \<le> t) z"
    by (rule filter_cong) (use inj in \<open>auto simp: zrange_by_score_def dest: inj_onD\<close>)
  moreover have "mset (map zmember z) = mset (map zmember (filter (\<lambda>i. zscore i \<le> t) z)) + mset (map zmember (filter (\<lambda>i. \<not> zscore i \<le> t) z))"
    by (simp only: mset_map mset_filter flip: image_mset_union multiset_partition)
  ultimately show ?thesis by (simp add: zrange_by_score_def zmembers_def)
qed

lemma poller_moves:
  assumes ok: "svc_ok S P V" and d: "rdata_ok (rv V w)"
  shows "rv V (after (poller_turn S D) w) = rv V w \<or> (\<exists>due. mset (retry_queue (di_prefix D) (rv V w)) = mset due
       + mset (retry_queue (di_prefix D) (rv V (after (poller_turn S D) w)))
     \<and> rv V (after (poller_turn S D) w) = lua_retry (di_prefix D @ retryQueueKey) (di_prefix D @ dispatchQueueKey) due (rv V w))"
proof -
  let ?z = "rd_zsets (rv V w) (di_prefix D @ retryQueueKey)"
  note split = retry_range_split [of ?z]
  have "wp (poller_turn S D) (\<lambda>_ w'. rv V w' = rv V w \<or> (\<exists>now. rv V w' = lua_retry (di_prefix D @ retryQueueKey)
      (di_prefix D @ dispatchQueueKey) (zrange_by_score None now ?z) (rv V w))) w"
    unfolding poller_turn_def wp_bind wp_ignore
    by (rule wp_time [OF ok], rule wp_redis [OF ok]) (auto simp: retryLua_def Let_def call_def, metis)
  from wp_result [OF this] consider "rv V (after (poller_turn S D) w) = rv V w" | t where
      "rv V (after (poller_turn S D) w) = lua_retry (di_prefix D @ retryQueueKey) (di_prefix D @ dispatchQueueKey) (zrange_by_score None t ?z) (rv V w)"
    by blast
  then show ?thesis
  proof cases
    case (2 t)
    then show ?thesis
      using split [of t] d
      by (intro disjI2 exI [of _ "zrange_by_score None t ?z"]) (simp add: lua_retry_result retry_queue_def rdata_ok_def)
  qed simp
qed
section \<open>The simulation\<close>

definition run_inv :: "(string \<Rightarrow> uuid option) \<Rightarrow> 'w views \<Rightarrow> dispatcher \<Rightarrow> 'w run \<Rightarrow> bool" where
  "run_inv up V D r \<longleftrightarrow> run_ok up (di_prefix D) V r \<and> pipe_ok (di_maxRetries D) (pipeline_of up (di_prefix D) V r)"

definition simulates :: "(string \<Rightarrow> uuid option) \<Rightarrow> 'w views \<Rightarrow> dispatcher \<Rightarrow> 'w run \<Rightarrow> 'w run \<Rightarrow> bool" where
  "simulates up V D r r' \<longleftrightarrow> run_ok up (di_prefix D) V r'
     \<and> pipe_steps (di_maxRetries D) (pipeline_of up (di_prefix D) V r) (pipeline_of up (di_prefix D) V r')"

lemma pipeline_world: "rv V w' = rv V (rn_world r) \<Longrightarrow> pipeline_of up pre V (r\<lparr>rn_world := w'\<rparr>) = pipeline_of up pre V r"
  by (simp add: pipeline_of_def Let_def)

lemma run_ok_world: "rv V w' = rv V (rn_world r) \<Longrightarrow> run_ok up pre V r \<Longrightarrow> run_ok up pre V (r\<lparr>rn_world := w'\<rparr>)"
  by (simp add: run_ok_def)

lemma strings_only_same:
  assumes "strings_only d d'"
  shows "pending_entries pre d' = pending_entries pre d" "dispatch_queue pre d' = dispatch_queue pre d"
    "retry_queue pre d' = retry_queue pre d" "rdata_ok d' = rdata_ok d"
  using assms by (auto simp: strings_only_def pending_entries_def dispatch_queue_def retry_queue_def rdata_ok_def fun_eq_iff
      split: option.split)

lemma strings_only_run:
  assumes "strings_only (rv V (rn_world r)) (rv V w')" "run_ok up pre V r"
  shows "run_ok up pre V (r\<lparr>rn_world := w'\<rparr>)" "pipeline_of up pre V (r\<lparr>rn_world := w'\<rparr>) = pipeline_of up pre V r"
  using assms(2) by (simp_all add: run_ok_def pipeline_of_def Let_def payloads_def waiting_items_def strings_only_same [OF assms(1)])

lemma simulates_shrinks:
  "shrinks (di_prefix D) (rv V (rn_world r)) (rv V w') \<Longrightarrow> run_ok up (di_prefix D) V r \<Longrightarrow> simulates up V D r (r\<lparr>rn_world := w'\<rparr>)"
  by (auto simp: simulates_def dest: shrinks_run)

lemma simulates_move:
  assumes "run_ok up (di_prefix D) V r" "rv V w' = move_entries (di_prefix D) now (rv V (rn_world r))"
  shows "simulates up V D r (r\<lparr>rn_world := w'\<rparr>)"
proof -
  let ?pre = "di_prefix D" and ?d = "rv V (rn_world r)"
  have d: "rdata_ok ?d" using assms(1) by (simp add: run_ok_def)
  obtain ks where ks: "set ks = {k. \<exists>s v. pending_entries ?pre ?d k = Some (s, v) \<and> 0 \<le> s \<and> s \<le> now}"
    "dispatch_queue ?pre (rv V w') = dispatch_queue ?pre ?d @ map (\<lambda>k. snd (the (pending_entries ?pre ?d k))) ks"
    unfolding assms(2) by (rule redis_store.move_readyE [OF d, of ?pre now])
  have retry: "retry_queue ?pre (rv V w') = retry_queue ?pre ?d"
  proof -
    obtain n' d' where mv: "lua_move (?pre @ ScheduleKey) (?pre @ scheduleDataKey) (?pre @ dispatchQueueKey)
        (due_keys ?pre now ?d) 0 ?d = (n', d')" by fastforce
    then have "rv V w' = d'" by (simp add: assms(2) move_entries_def scheduleLua_def due_keys_def)
    with lua_move_result [OF due_keys(1) [OF d] mv] show ?thesis by (simp add: retry_queue_def retry_key_other)
  qed
  have "ran (pending_entries ?pre (rv V w')) \<subseteq> ran (pending_entries ?pre ?d)"
    by (auto simp: assms(2) redis_store.move_pending [OF d] ran_def split: option.splits if_splits)
  moreover have "set (dispatch_queue ?pre (rv V w')) \<subseteq> set (dispatch_queue ?pre ?d) \<union> snd ` ran (pending_entries ?pre ?d)"
    using ks by (force simp: ran_def)
  ultimately have ok: "run_ok up ?pre V (r\<lparr>rn_world := w'\<rparr>)"
    using assms(1) retry redis_store.move_inv [OF d, of ?pre now] unfolding run_ok_def payloads_def by (auto simp: assms(2))
  obtain M where M: "M \<subseteq># waiting_items up ?pre ?d" "waiting_items up ?pre (rv V w') = waiting_items up ?pre ?d - M"
    "image_mset (entry_item up) (mset (dispatch_queue ?pre (rv V w'))) = image_mset (entry_item up) (mset (dispatch_queue ?pre ?d)) + M"
    unfolding assms(2) by (rule waiting_moves [OF d])
  have "pipe_step (di_maxRetries D) (pipeline_of up ?pre V r) (pipeline_of up ?pre V (r\<lparr>rn_world := w'\<rparr>))"
    using pipe_step.fall_due [of M "pipeline_of up ?pre V r"] M retry by (simp add: pipeline_of_def Let_def)
  with ok show ?thesis by (auto simp: simulates_def)
qed

lemma simulates_poll:
  assumes "run_ok up (di_prefix D) V r"
    "mset (retry_queue (di_prefix D) (rv V (rn_world r))) = mset due + mset (retry_queue (di_prefix D) (rv V w'))"
    "rv V w' = lua_retry (di_prefix D @ retryQueueKey) (di_prefix D @ dispatchQueueKey) due (rv V (rn_world r))"
  shows "simulates up V D r (r\<lparr>rn_world := w'\<rparr>)"
proof -
  let ?pre = "di_prefix D" and ?d = "rv V (rn_world r)"
  have d: "rdata_ok ?d" using assms(1) by (simp add: run_ok_def)
  have e: "pending_entries ?pre (rv V w') = pending_entries ?pre ?d" "dispatch_queue ?pre (rv V w') = dispatch_queue ?pre ?d @ due"
    by (simp_all add: assms(3) lua_retry_result pending_entries_def dispatch_queue_def retry_key_other fun_eq_iff split: option.split)
  have "set (retry_queue ?pre ?d) = set due \<union> set (retry_queue ?pre (rv V w'))"
    using arg_cong [OF assms(2), of set_mset] by simp
  moreover have "rdata_ok (rv V w')"
    using d by (auto simp: assms(3) lua_retry_result zset_ok_def zmembers_def sorted_wrt_filter distinct_map_filter_pred intro!: codec_intros)
  ultimately have ok: "run_ok up ?pre V (r\<lparr>rn_world := w'\<rparr>)"
    using assms(1) e unfolding run_ok_def payloads_def by auto
  let ?M = "image_mset (entry_item up) (mset due)"
  have "?M \<subseteq># retrying (pipeline_of up ?pre V r)"
    by (simp add: pipeline_of_def Let_def assms(2))
  from pipe_step.come_back [OF this, of "di_maxRetries D"]
  have "pipe_step (di_maxRetries D) (pipeline_of up ?pre V r) (pipeline_of up ?pre V (r\<lparr>rn_world := w'\<rparr>))"
    by (simp add: pipeline_of_def Let_def waiting_items_def e assms(2))
  with ok show ?thesis by (auto simp: simulates_def)
qed
text \<open>A new entry: it enters; when nothing was added its item is lost at once.\<close>

lemma simulates_schedule:
  assumes ok: "svc_ok S P V" and r: "run_ok up (di_prefix D) V r"
    and new: "oc_occurrence_id oc \<notin> rn_used r" "oc_attempt_count oc = 0" "marshals up (schedule_of oc ev)"
  shows "simulates up V D r (r\<lparr>rn_world := after (scheduleWithRetry S (di_prefix D) oc ev) (rn_world r),
      rn_used := insert (oc_occurrence_id oc) (rn_used r)\<rparr>)"
proof -
  let ?pre = "di_prefix D" and ?d = "rv V (rn_world r)" and ?oid = "oc_occurrence_id oc"
  define w' where "w' = after (scheduleWithRetry S ?pre oc ev) (rn_world r)"
  let ?r' = "r\<lparr>rn_world := w', rn_used := insert ?oid (rn_used r)\<rparr>" and ?p = "pipeline_of up ?pre V r"
  have d: "rdata_ok ?d" using r by (simp add: run_ok_def)
  have fresh: "?oid \<notin> entered ?p" using new(1) by (simp add: pipeline_of_def Let_def)
  note enter = pipe_step.enter [OF fresh, of "di_maxRetries D"]
  have res: "schedule_result ?pre oc ev ?d (rv V w')"
    using wp_result [OF schedule_attempts_wp [OF ok]] by (simp add: w'_def scheduleWithRetry_def)
  have retry: "retry_queue ?pre (rv V w') = retry_queue ?pre ?d" "dispatch_queue ?pre (rv V w') = dispatch_queue ?pre ?d"
    using res by (auto simp: schedule_result_def schedule_entry_def partial_entry_def add_entry_def retry_queue_def
        dispatch_queue_def retry_key_other)
  consider (same) "pending_entries ?pre (rv V w') = pending_entries ?pre ?d" "rdata_ok (rv V w')"
    | (added) data where "marshal_schedule (schedule_of oc ev) = Inr data" "\<not> scheduled_key ?pre oc ev ?d"
        "rv V w' = schedule_entry ?pre oc ev data ?d"
    using res d partial_pending [OF d, of ?pre oc ev] by (auto simp: schedule_result_def)
  then show ?thesis
  proof cases
    case same
    then have "run_ok up ?pre V ?r'" using r retry by (simp add: run_ok_def payloads_def)
    moreover have "pipe_step (di_maxRetries D) (?p\<lparr>waiting := add_mset (?oid, 0) (waiting ?p), entered := insert ?oid (entered ?p)\<rparr>)
        (pipeline_of up ?pre V ?r')"
      using pipe_step.lose_waiting [of "di_maxRetries D" "?p\<lparr>waiting := add_mset (?oid, 0) (waiting ?p), entered := insert ?oid (entered ?p)\<rparr>" "{#(?oid, 0)#}"]
        same(1) retry by (simp add: pipeline_of_def Let_def waiting_items_def)
    ultimately show ?thesis
      unfolding simulates_def w'_def [symmetric] using enter by (blast intro: pipe_steps.go)
  next
    case added
    have sok: "ok_schedule up (schedule_of oc ev)" using new(3) added(1) by (simp add: marshals_def)
    obtain data' where data: "marshal_schedule (schedule_of oc ev) = Inr data'" "unmarshal_schedule up data' = Inr (schedule_of oc ev)"
      by (rule marshal_schedule_ok [OF sok])
    with added(1) have un: "unmarshal_schedule up data = Inr (schedule_of oc ev)" by simp
    let ?k = "schedule_key (ev_id ev) (oc_scheduled_at oc)"
    have none: "pending_entries ?pre ?d ?k = None" using added(2) by (simp add: scheduled_key_def pending_entries_def)
    have p': "pending_entries ?pre (rv V w') = (pending_entries ?pre ?d)(?k \<mapsto> (unix (oc_scheduled_at oc), data))"
      by (simp add: added(3) schedule_entry_def redis_store.insert_pending [OF d])
    have "good up data" using un sok by (auto simp: good_def)
    moreover have "rdata_ok (rv V w')" by (simp add: added(3) schedule_entry_def redis_store.insert_inv [OF d])
    moreover have "ran (pending_entries ?pre (rv V w')) = insert (unix (oc_scheduled_at oc), data) (ran (pending_entries ?pre ?d))"
      using none by (simp add: p')
    ultimately have "run_ok up ?pre V ?r'" using r retry unfolding run_ok_def payloads_def by auto
    moreover have "pipeline_of up ?pre V ?r' = ?p\<lparr>waiting := add_mset (?oid, 0) (waiting ?p), entered := insert ?oid (entered ?p)\<rparr>"
      using waiting_add [OF p' none, of up] retry new(2)
      by (simp add: pipeline_of_def Let_def entry_item_simps [OF un] schedule_of_def occurrence.defs)
    ultimately show ?thesis
      unfolding simulates_def w'_def [symmetric] using enter by auto
  qed
qed

text \<open>The pop: the item moves to the worker, or is lost with the reply.\<close>

lemma pop_data:
  "call (BRPOP (pre @ dispatchQueueKey)) d = d \<and> dispatch_queue pre d = []
   \<or> (\<exists>v. call (BRPOP (pre @ dispatchQueueKey)) d = upd_list (pre @ dispatchQueueKey) butlast d
        \<and> redis_sem (BRPOP (pre @ dispatchQueueKey)) d = (RArr [pre @ dispatchQueueKey, v], upd_list (pre @ dispatchQueueKey) butlast d)
        \<and> dispatch_queue pre d = dispatch_queue pre (upd_list (pre @ dispatchQueueKey) butlast d) @ [v])"
  by (cases "rd_lists d (pre @ dispatchQueueKey)") (auto simp: call_def dispatch_queue_def)

lemma pending_upd_list [simp]: "pending_entries pre (upd_list k f d) = pending_entries pre d"
  by (simp add: pending_entries_def fun_eq_iff split: option.split)

lemma popped_run_ok:
  assumes "run_ok up pre V r" "rv V w' = upd_list (pre @ dispatchQueueKey) butlast (rv V (rn_world r))"
    "set_mset B \<subseteq> set_mset (rn_busy r) \<union> set (dispatch_queue pre (rv V (rn_world r)))"
  shows "run_ok up pre V (r\<lparr>rn_world := w', rn_busy := B\<rparr>)"
  using assms by (auto simp: run_ok_def payloads_def dispatch_queue_def retry_queue_def
      intro!: codec_intros dest: in_set_butlastD)

lemma pop_pipeline:
  assumes "rv V w' = upd_list (pre @ dispatchQueueKey) butlast (rv V (rn_world r))"
    "dispatch_queue pre (rv V (rn_world r)) = dispatch_queue pre (rv V w') @ [v]"
  shows "pipeline_of up pre V (r\<lparr>rn_world := w'\<rparr>) = (pipeline_of up pre V r)
      \<lparr>queued := queued (pipeline_of up pre V r) - {#entry_item up v#}\<rparr>"
    "pipeline_of up pre V (r\<lparr>rn_world := w', rn_busy := add_mset v (rn_busy r)\<rparr>) = (pipeline_of up pre V r)
      \<lparr>queued := queued (pipeline_of up pre V r) - {#entry_item up v#},
       busy := add_mset (entry_item up v) (busy (pipeline_of up pre V r))\<rparr>"
    "entry_item up v \<in># queued (pipeline_of up pre V r)"
proof -
  have "pending_entries pre (rv V w') = pending_entries pre (rv V (rn_world r))" "retry_queue pre (rv V w') = retry_queue pre (rv V (rn_world r))"
    by (simp_all add: assms(1) retry_queue_def)
  then show "pipeline_of up pre V (r\<lparr>rn_world := w'\<rparr>) = (pipeline_of up pre V r)
      \<lparr>queued := queued (pipeline_of up pre V r) - {#entry_item up v#}\<rparr>"
    "pipeline_of up pre V (r\<lparr>rn_world := w', rn_busy := add_mset v (rn_busy r)\<rparr>) = (pipeline_of up pre V r)
      \<lparr>queued := queued (pipeline_of up pre V r) - {#entry_item up v#},
       busy := add_mset (entry_item up v) (busy (pipeline_of up pre V r))\<rparr>"
    "entry_item up v \<in># queued (pipeline_of up pre V r)"
    by (simp_all add: pipeline_of_def Let_def waiting_items_def assms(2))
qed

lemma simulates_pop:
  assumes ok: "svc_ok S P V" and r: "run_ok up (di_prefix D) V r"
    and run: "run_state (redis S (BRPOP (di_prefix D @ dispatchQueueKey))) (rn_world r) = (x, w')"
  shows "x = Inr (RArr [k, v]) \<Longrightarrow> simulates up V D r (r\<lparr>rn_world := w', rn_busy := add_mset v (rn_busy r)\<rparr>)"
    "simulates up V D r (r\<lparr>rn_world := w'\<rparr>)"
proof -
  let ?pre = "di_prefix D" and ?d = "rv V (rn_world r)" and ?c = "BRPOP (di_prefix D @ dispatchQueueKey)"
  have "wp (redis S ?c) (\<lambda>x w'. (rv V w' = ?d \<or> rv V w' = call ?c ?d) \<and> (\<forall>y. x = Inr y \<longrightarrow> redis_sem ?c ?d = (y, rv V w'))) (rn_world r)"
    by (rule wp_redis [OF ok]) (auto simp: call_def)
  from wp_run [OF this run] have post: "rv V w' = ?d \<or> rv V w' = call ?c ?d" "\<And>y. x = Inr y \<Longrightarrow> redis_sem ?c ?d = (y, rv V w')"
    by simp_all
  have lost: "simulates up V D r (r\<lparr>rn_world := w'\<rparr>)" if "rv V w' = ?d"
    using that run_ok_world [OF that r] by (simp add: simulates_def pipeline_world)
  show "simulates up V D r (r\<lparr>rn_world := w'\<rparr>)"
  proof (cases "rv V w' = ?d")
    case False
    with post(1) pop_data [of ?pre ?d] obtain v where v: "rv V w' = upd_list (?pre @ dispatchQueueKey) butlast ?d"
      "dispatch_queue ?pre ?d = dispatch_queue ?pre (rv V w') @ [v]" by auto
    have "run_ok up ?pre V (r\<lparr>rn_world := w', rn_busy := rn_busy r\<rparr>)" by (rule popped_run_ok [OF r v(1)]) simp
    then show ?thesis
      using pipe_step.lose_queued [of "di_maxRetries D" "pipeline_of up ?pre V r" "{#entry_item up v#}"] pop_pipeline(1) [OF v, of up]
      by (auto simp: simulates_def)
  qed (rule lost)
  show "simulates up V D r (r\<lparr>rn_world := w', rn_busy := add_mset v (rn_busy r)\<rparr>)" if "x = Inr (RArr [k, v])"
  proof -
    from post(2) [OF that] have v: "rv V w' = upd_list (?pre @ dispatchQueueKey) butlast ?d"
      "dispatch_queue ?pre ?d = dispatch_queue ?pre (rv V w') @ [v]"
      using pop_data [of ?pre ?d] by (auto simp: dispatch_queue_def split: list.splits)
    have "run_ok up ?pre V (r\<lparr>rn_world := w', rn_busy := add_mset v (rn_busy r)\<rparr>)"
      by (rule popped_run_ok [OF r v(1)]) (auto simp: v(2))
    then show ?thesis
      using pipe_step.take_item [OF pop_pipeline(3) [OF v, of up], of "di_maxRetries D"] pop_pipeline(2) [OF v, of up]
      by (auto simp: simulates_def)
  qed
qed
text \<open>The processing of an item: a turn, and the item again in the retry queue or gone.\<close>

definition retried :: "dispatcher \<Rightarrow> schedule \<Rightarrow> rdata \<Rightarrow> rdata \<Rightarrow> bool" where
  "retried D s d d' \<longleftrightarrow> (\<exists>u v. wrap64 (oc_attempt_count s + 1) < di_maxRetries D
     \<and> marshal_schedule (s\<lparr>oc_attempt_count := wrap64 (oc_attempt_count s + 1)\<rparr>) = Inr v
     \<and> d' = call (ZADD (di_prefix D @ retryQueueKey) u v) d)"

lemma retry_later_wp:
  assumes ok: "svc_ok S P V"
  shows "wp (retry_later S D s) (\<lambda>_ w'. dv V w' = dv V w \<and> ov V w' = ov V w
     \<and> (rv V w' = rv V w \<or> retried D s (rv V w) (rv V w'))) w"
  unfolding retry_later_def Let_def
  by (auto split: sum.split simp: retried_def intro!: wp_time [OF ok] wp_redis [OF ok] dest!: redis_sem_call)

lemma process_item_wp:
  assumes ok: "svc_ok S P V" and v: "unmarshal_schedule up v = Inr s"
  shows "wp (process_item up S D v) (\<lambda>_ w'. \<exists>d1 \<in> orphan_cleanup (di_prefix D) s (rv V w).
     rv V w' = d1 \<or> retried D s d1 (rv V w')) w"
  unfolding process_item_def v sum.case wp_bind
proof (rule wp_mono [OF DispatchAction_wp [OF ok]], goal_cases)
  case (1 r w1)
  then have "wp (retry_later S D s) (\<lambda>_ w'. \<exists>d1 \<in> orphan_cleanup (di_prefix D) s (rv V w).
     rv V w' = d1 \<or> retried D s d1 (rv V w')) w1"
    by (intro wp_mono [OF retry_later_wp [OF ok]]) auto
  with 1 show ?case by (auto split: sum.split)
qed

lemma mset_zmembers_zadd:
  assumes "zset_ok zs"
  shows "mset (zmembers (zadd s m zs)) = (if m \<in> set (zmembers zs) then mset (zmembers zs) else add_mset m (mset (zmembers zs)))"
proof -
  have d: "distinct (zmembers (zadd s m zs))" "distinct (zmembers zs)"
    using zadd_ok [OF assms] assms by (simp_all add: zset_ok_def)
  show ?thesis
  proof (cases "m \<in> set (zmembers zs)")
    case True
    with d show ?thesis by (simp add: set_eq_iff_mset_eq_distinct [symmetric] insert_absorb)
  next
    case False
    with d have "distinct (m # zmembers zs)" by simp
    then have "mset (zmembers (zadd s m zs)) = mset (m # zmembers zs)"
      using d by (subst set_eq_iff_mset_eq_distinct [symmetric]) simp_all
    with False show ?thesis by simp
  qed
qed

lemma simulates_process:
  assumes ok: "svc_ok S P V" and inv: "run_inv up V D r" and v: "v \<in># rn_busy r" and lim: "is_int64 (di_maxRetries D)"
  shows "simulates up V D r (r\<lparr>rn_world := after (process_item up S D v) (rn_world r), rn_busy := rn_busy r - {#v#},
      rn_turns := v # rn_turns r\<rparr>)"
proof -
  let ?pre = "di_prefix D" and ?d = "rv V (rn_world r)" and ?p = "pipeline_of up (di_prefix D) V r"
  define w' where "w' = after (process_item up S D v) (rn_world r)"
  let ?r' = "r\<lparr>rn_world := w', rn_busy := rn_busy r - {#v#}, rn_turns := v # rn_turns r\<rparr>"
  from inv v obtain s where s: "unmarshal_schedule up v = Inr s" "ok_schedule up s"
    by (auto simp: run_inv_def run_ok_def good_def)
  have r: "run_ok up ?pre V r" and d: "rdata_ok ?d" using inv by (simp_all add: run_inv_def run_ok_def)
  let ?oid = "oc_occurrence_id s" and ?a = "oc_attempt_count s"
  have item: "entry_item up v = (?oid, ?a)" by (rule entry_item_simps [OF s(1)])
  then have busy: "(?oid, ?a) \<in># busy ?p" using v by (force simp: pipeline_of_def Let_def)
  then have "0 \<le> ?a \<and> ?a < max 1 (di_maxRetries D)"
    using inv by (force simp: run_inv_def pipe_ok_def items_def turn_limit_def)
  with lim have wrap: "wrap64 (?a + 1) = ?a + 1" "is_int64 (?a + 1)" by (auto simp: is_int64_def intro!: wrap64_id)
  obtain d1 where d1: "d1 \<in> orphan_cleanup ?pre s ?d" "rv V w' = d1 \<or> retried D s d1 (rv V w')"
    using wp_result [OF process_item_wp [OF ok s(1), of D "rn_world r"]] by (auto simp: w'_def)
  have sh: "shrinks ?pre ?d d1" using d1(1) removal_shrinks [OF d] d by (auto simp: orphan_cleanup_def Let_def)
  then have le: "waiting_items up ?pre d1 \<subseteq># waiting_items up ?pre ?d" and q1: "same_queues ?pre ?d d1" and ok1: "rdata_ok d1"
    by (auto simp: shrinks_def waiting_less)
  have ran: "ran (pending_entries ?pre d1) \<subseteq> ran (pending_entries ?pre ?d)" using sh by (force simp: shrinks_def ran_def map_le_def dom_def)
  have lose: "pipe_step (di_maxRetries D) p (p\<lparr>waiting := waiting_items up ?pre d1\<rparr>)" if "waiting p = waiting_items up ?pre ?d" for p
    using pipe_step.lose_waiting [of "di_maxRetries D" p "waiting_items up ?pre ?d - waiting_items up ?pre d1"] le that
    by (simp add: subset_mset.diff_diff_right)
  have busy': "image_mset (entry_item up) (rn_busy r - {#v#}) = busy ?p - {#(?oid, ?a)#}"
    using v item by (simp add: pipeline_of_def Let_def image_mset_Diff)
  let ?fin = "?p\<lparr>busy := busy ?p - {#(?oid, ?a)#}, turns := ?oid # turns ?p\<rparr>"
  have finish: "pipe_steps (di_maxRetries D) ?p (?fin\<lparr>waiting := waiting_items up ?pre d1\<rparr>)"
    using pipe_step.finish [OF busy, of "di_maxRetries D"] lose [of ?fin] by (auto simp: pipeline_of_def Let_def intro: pipe_steps.go)
  have fin: "simulates up V D r ?r'"
    if "pending_entries ?pre (rv V w') = pending_entries ?pre d1" "dispatch_queue ?pre (rv V w') = dispatch_queue ?pre d1"
      "mset (retry_queue ?pre (rv V w')) = mset (retry_queue ?pre d1)" "rdata_ok (rv V w')"
  proof -
    have "set (retry_queue ?pre (rv V w')) = set (retry_queue ?pre d1)" using that(3) by (metis set_mset_mset)
    then have "run_ok up ?pre V ?r'"
      using r that ran q1 unfolding run_ok_def payloads_def by (auto dest: in_diffD)
    moreover have "pipeline_of up ?pre V ?r' = ?fin\<lparr>waiting := waiting_items up ?pre d1\<rparr>"
      using that q1 item busy' by (simp add: pipeline_of_def Let_def waiting_items_def)
    ultimately show ?thesis using finish by (simp add: simulates_def)
  qed
  show ?thesis
    unfolding w'_def [symmetric]
  proof (cases "rv V w' = d1")
    case True
    with fin ok1 show "simulates up V D r ?r'" by simp
  next
    case False
    then obtain u v' where v': "?a + 1 < di_maxRetries D" "marshal_schedule (s\<lparr>oc_attempt_count := ?a + 1\<rparr>) = Inr v'"
      "rv V w' = call (ZADD (?pre @ retryQueueKey) u v') d1" using d1(2) by (auto simp: retried_def wrap)
    have sok: "ok_schedule up (s\<lparr>oc_attempt_count := ?a + 1\<rparr>)" using s(2) wrap(2) by (simp add: ok_schedule_def)
    obtain v2 where "marshal_schedule (s\<lparr>oc_attempt_count := ?a + 1\<rparr>) = Inr v2"
      "unmarshal_schedule up v2 = Inr (s\<lparr>oc_attempt_count := ?a + 1\<rparr>)" by (rule marshal_schedule_ok [OF sok])
    then have un: "unmarshal_schedule up v' = Inr (s\<lparr>oc_attempt_count := ?a + 1\<rparr>)" "good up v'"
      using v'(2) sok by (auto simp: good_def)
    have z: "zset_ok (rd_zsets d1 (?pre @ retryQueueKey))" using ok1 by (simp add: rdata_ok_def)
    have same: "pending_entries ?pre (rv V w') = pending_entries ?pre d1" "dispatch_queue ?pre (rv V w') = dispatch_queue ?pre d1"
      "rdata_ok (rv V w')"
      using ok1 by (auto simp: v'(3) pending_entries_def dispatch_queue_def retry_key_other fun_eq_iff split: option.split intro!: codec_intros)
    have rq: "mset (retry_queue ?pre (rv V w')) = (if v' \<in> set (retry_queue ?pre d1) then mset (retry_queue ?pre d1)
        else add_mset v' (mset (retry_queue ?pre d1)))"
      by (simp add: v'(3) retry_queue_def mset_zmembers_zadd [OF z])
    show "simulates up V D r ?r'"
    proof (cases "v' \<in> set (retry_queue ?pre d1)")
      case True
      with rq fin same show ?thesis by simp
    next
      case False
      let ?ag = "?p\<lparr>busy := busy ?p - {#(?oid, ?a)#}, retrying := add_mset (?oid, ?a + 1) (retrying ?p), turns := ?oid # turns ?p\<rparr>"
      have "set (retry_queue ?pre (rv V w')) = insert v' (set (retry_queue ?pre d1))"
        using arg_cong [OF rq, of set_mset] False by simp
      then have "run_ok up ?pre V ?r'"
        using r same un(2) ran q1 unfolding run_ok_def payloads_def by (auto dest: in_diffD)
      moreover have "pipeline_of up ?pre V ?r' = ?ag\<lparr>waiting := waiting_items up ?pre d1\<rparr>"
        using same rq False q1 item busy' entry_item_simps [OF un(1)] by (simp add: pipeline_of_def Let_def waiting_items_def)
      moreover have "pipe_steps (di_maxRetries D) ?p (?ag\<lparr>waiting := waiting_items up ?pre d1\<rparr>)"
        using pipe_step.again [OF busy v'(1)] lose [of ?ag] by (auto simp: pipeline_of_def Let_def intro: pipe_steps.go)
      ultimately show ?thesis by (simp add: simulates_def)
    qed
  qed
qed
text \<open>Every step is simulated, so every run keeps the invariant.\<close>

lemma code_step_simulated:
  assumes step: "code_step up S V D r r'" and ok: "svc_ok S P V" and inv: "run_inv up V D r" and lim: "is_int64 (di_maxRetries D)"
  shows "simulates up V D r r'"
proof -
  from inv have r: "run_ok up (di_prefix D) V r" and d: "rdata_ok (rv V (rn_world r))" by (simp_all add: run_inv_def run_ok_def)
  from step show ?thesis
  proof cases
    case (schedule oc ev)
    then show ?thesis using simulates_schedule [OF ok r] by simp
  next
    case move
    with GetDueSchedules_moves [OF ok, of "di_prefix D" "rn_world r"] simulates_move [OF r] run_ok_world [OF _ r] show ?thesis
      by (auto simp: simulates_def pipeline_world)
  next
    case (pop k v w')
    with simulates_pop(1) [OF ok r pop(2) refl] show ?thesis by simp
  next
    case (pop_fails x w')
    with simulates_pop(2) [OF ok r pop_fails(2)] show ?thesis by simp
  next
    case (process v)
    with simulates_process [OF ok inv _ lim] show ?thesis by simp
  next
    case (die v)
    have "run_ok up (di_prefix D) V (r\<lparr>rn_busy := rn_busy r - {#v#}\<rparr>)"
      using r unfolding run_ok_def by (auto dest: in_diffD)
    moreover have "pipe_step (di_maxRetries D) (pipeline_of up (di_prefix D) V r) (pipeline_of up (di_prefix D) V (r\<lparr>rn_busy := rn_busy r - {#v#}\<rparr>))"
      using pipe_step.lose_busy [of "di_maxRetries D" "pipeline_of up (di_prefix D) V r" "image_mset (entry_item up) (rn_busy r) - image_mset (entry_item up) (rn_busy r - {#v#})"]
        image_mset_subseteq_mono [of "rn_busy r - {#v#}" "rn_busy r" "entry_item up"]
      by (simp add: pipeline_of_def Let_def subset_mset.diff_diff_right)
    ultimately show ?thesis using die by (auto simp: simulates_def)
  next
    case poll
    with poller_moves [OF ok d, of D] simulates_poll [OF r] run_ok_world [OF _ r] show ?thesis
      by (auto simp: simulates_def pipeline_world)
  next
    case (remove oc)
    with simulates_shrinks [OF RemoveScheduledEvent_shrinks [OF ok d] r] show ?thesis by simp
  next
    case (remove_event i)
    with simulates_shrinks [OF RemoveEventOccurrences_shrinks [OF ok d] r] show ?thesis by simp
  next
    case (elsewhere w')
    with strings_only_run [OF _ r] show ?thesis by (auto simp: simulates_def)
  qed
qed

lemma simulates_inv: "simulates up V D r r' \<Longrightarrow> run_inv up V D r \<Longrightarrow> run_inv up V D r'"
  unfolding simulates_def run_inv_def using pipe_steps_ok by blast

lemma code_run_simulated:
  assumes "code_run up S V D r r'" "svc_ok S P V" "run_inv up V D r" "is_int64 (di_maxRetries D)"
  shows "simulates up V D r r' \<and> run_inv up V D r'"
  using assms(1,3)
proof (induction rule: code_run.induct)
  case (start r)
  then show ?case by (simp add: simulates_def run_inv_def)
next
  case (next_step r r' r'')
  then have s: "simulates up V D r r'" "run_inv up V D r'" by simp_all
  have "simulates up V D r' r''" using next_step.hyps(2) assms(2) s(2) assms(4) by (rule code_step_simulated)
  with s show ?case
    using simulates_inv unfolding simulates_def by (blast intro: pipe_steps_trans)
qed
section \<open>Properties\<close>

text \<open>A run that begins with nothing scheduled, queued or held by a worker.\<close>

definition fresh_run :: "'w \<Rightarrow> 'w run" where
  "fresh_run w = \<lparr>rn_world = w, rn_busy = {#}, rn_turns = [], rn_used = {}\<rparr>"

lemma fresh_run_pipeline:
  assumes "payloads pre (rv V w) = {}"
  shows "pipeline_of up pre V (fresh_run w) = empty_pipeline"
proof -
  have "pending_entries pre (rv V w) = Map.empty" using assms by (simp add: payloads_def flip: ran_empty) (auto simp: ran_def fun_eq_iff, metis option.exhaust surj_pair)
  moreover have "dispatch_queue pre (rv V w) = []" "retry_queue pre (rv V w) = []" using assms by (simp_all add: payloads_def)
  ultimately show ?thesis by (simp add: pipeline_of_def fresh_run_def empty_pipeline_def waiting_items_def)
qed

lemma fresh_run_inv:
  assumes "rdata_ok (rv V w)" "payloads (di_prefix D) (rv V w) = {}"
  shows "run_inv up V D (fresh_run w)"
  using assms by (simp add: run_inv_def fresh_run_pipeline pipe_ok_empty) (simp add: run_ok_def fresh_run_def)

lemma fresh_run_reaches:
  assumes "svc_ok S P V" "is_int64 (di_maxRetries D)" "rdata_ok (rv V w)" "payloads (di_prefix D) (rv V w) = {}"
    "code_run up S V D (fresh_run w) r"
  shows "pipe_steps (di_maxRetries D) empty_pipeline (pipeline_of up (di_prefix D) V r)
     \<and> pipe_ok (di_maxRetries D) (pipeline_of up (di_prefix D) V r)"
  using code_run_simulated [OF assms(5,1) fresh_run_inv [OF assms(3,4)] assms(2)] fresh_run_pipeline [OF assms(4)]
  by (simp add: simulates_def run_inv_def)

text \<open>The program refines the abstract pipeline: whatever steps the expander, the scheduler, the workers, the retry
  poller and the removals take, in whatever order and with whatever calls failing, the Redis structures and the
  workers' items go through steps of the pipeline, from the empty one.\<close>

theorem delivery_refines_pipeline:
  assumes "svc_ok S P V" "is_int64 (di_maxRetries D)" "rdata_ok (rv V w)" "payloads (di_prefix D) (rv V w) = {}"
    "code_run up S V D (fresh_run w) r"
  shows "pipe_steps (di_maxRetries D) empty_pipeline (pipeline_of up (di_prefix D) V r)"
  using fresh_run_reaches [OF assms] by simp

text \<open>Every occurrence is dispatched at most \<open>maxRetries\<close> times (once, when that is less than one), over any run.\<close>

theorem dispatches_bounded:
  assumes "svc_ok S P V" "is_int64 (di_maxRetries D)" "rdata_ok (rv V w)" "payloads (di_prefix D) (rv V w) = {}"
    "code_run up S V D (fresh_run w) r"
  shows "int (length (filter (\<lambda>v. fst (entry_item up v) = oid) (rn_turns r))) \<le> max 1 (di_maxRetries D)"
proof -
  have "turns_of (pipeline_of up (di_prefix D) V r) oid \<le> turn_limit (di_maxRetries D)"
    using fresh_run_reaches [OF assms] by (simp add: pipe_ok_def)
  then show ?thesis
    by (simp add: turns_of_def pipeline_of_def Let_def turn_limit_def filter_map comp_def eq_commute)
qed

text \<open>No occurrence is ever in the system twice: counted over the pending entries, the dispatch queue, the workers and
  the retry queue, each occurrence identifier occurs at most once; so two workers never hold the same occurrence.\<close>

theorem occurrence_never_twice:
  assumes "svc_ok S P V" "is_int64 (di_maxRetries D)" "rdata_ok (rv V w)" "payloads (di_prefix D) (rv V w) = {}"
    "code_run up S V D (fresh_run w) r"
  shows "let d = rv V (rn_world r); ids = image_mset (\<lambda>v. fst (entry_item up v)) in
     count (image_mset fst (waiting_items up (di_prefix D) d)) oid + count (ids (mset (dispatch_queue (di_prefix D) d))) oid
     + count (ids (rn_busy r)) oid + count (ids (mset (retry_queue (di_prefix D) d))) oid \<le> 1"
proof -
  have "count (image_mset fst (items (pipeline_of up (di_prefix D) V r))) oid \<le> 1"
    using fresh_run_reaches [OF assms] by (simp add: pipe_ok_def)
  then show ?thesis
    by (simp add: items_def pipeline_of_def Let_def multiset.map_comp comp_def)
qed

section \<open>A concrete run\<close>

definition demo_dispatcher :: dispatcher where
  "demo_dispatcher = \<lparr>di_prefix = [], di_maxRetries = 3, di_retryDelay = 5 * second, di_hmac = Some ''secret'', di_request_error = \<lambda>_ _. None\<rparr>"

definition demo_run :: "mem run" where
  "demo_run = (fresh_run demo_mem)\<lparr>rn_world := after (scheduleWithRetry mem_svc [] demo_occurrence demo_event) demo_mem,
     rn_used := {mem_uuid 7}\<rparr>"

lemma demo_run: "code_run Some mem_svc mem_views demo_dispatcher (fresh_run demo_mem) demo_run"
proof -
  have "list_all (printable 0) [60 * second, 0, zero_time]" by code_simp
  then have "marshals Some (schedule_of demo_occurrence demo_event)"
    by (simp add: marshals_def ok_schedule_def schedule_of_def occurrence.defs schedule.defs demo_occurrence_def demo_event_def is_int64_def)
  moreover have "oc_occurrence_id demo_occurrence = mem_uuid 7" "oc_attempt_count demo_occurrence = 0"
    by (simp_all add: demo_occurrence_def)
  ultimately have "code_step Some mem_svc mem_views demo_dispatcher (fresh_run demo_mem) demo_run"
    using code_step.schedule [of demo_occurrence "fresh_run demo_mem" Some demo_event mem_svc mem_views demo_dispatcher]
    by (simp add: demo_run_def demo_dispatcher_def) (simp add: fresh_run_def)
  then show ?thesis by (rule code_run.next_step [OF code_run.start])
qed

lemma demo_empty: "payloads (di_prefix demo_dispatcher) (rv mem_views demo_mem) = {}" "is_int64 (di_maxRetries demo_dispatcher)"
  "rdata_ok (rv mem_views demo_mem)"
  by (simp_all add: demo_dispatcher_def is_int64_def)
    (simp_all add: payloads_def demo_mem_def no_rdata_def pending_entries_def dispatch_queue_def retry_queue_def zmembers_def ran_def)

theorem delivery_refines_pipeline_witness: "pipe_steps 3 empty_pipeline (pipeline_of Some [] mem_views demo_run)"
  using delivery_refines_pipeline [OF mem_svc_ok demo_empty(2,3,1) demo_run] by (simp add: demo_dispatcher_def)

theorem dispatches_bounded_witness: "length (filter (\<lambda>v. fst (entry_item Some v) = mem_uuid 7) (rn_turns demo_run)) \<le> 3"
  using dispatches_bounded [OF mem_svc_ok demo_empty(2,3,1) demo_run, of "mem_uuid 7"] by (simp add: demo_dispatcher_def)

theorem occurrence_never_twice_witness:
  "count (image_mset (\<lambda>v. fst (entry_item Some v)) (rn_busy demo_run)) (mem_uuid 7) \<le> 1"
  using occurrence_never_twice [OF mem_svc_ok demo_empty(2,3,1) demo_run, of "mem_uuid 7"] by (simp add: Let_def)

end
