(* ===== verification/Composition.thy ===== *)
theory Composition
  imports Server Delivery
begin

text \<open>
  The server as a whole, with its deliveries: every step of \<open>Server.server_step\<close> (a request, a goroutine, a turn of a loop, a
  half of a worker's turn, a restart) is a run of \<open>Delivery.code_step\<close>, because the walk of \<open>Steps\<close> through the program holds
  for these runs, too. So what \<open>Pipeline\<close> shows of the items holds for the server under any requests and any
  interleaving. The identifiers (\<open>uuid.New\<close>) are new each time and have their canonical form; that is an assumption.
\<close>

section \<open>Entries that can be encoded\<close>

lemma marshal_time_range:
  assumes "marshal_time t = Some s"
  shows "printable 0 t"
proof -
  obtain y m d where ymd: "date_of 0 t = (y, m, d)" by (cases "date_of 0 t")
  define n where "n = unix t div 86400 + unix_epoch_day"
  have c: "civil n = (y, m, d)" using ymd by (simp add: date_of_def local_secs_def n_def)
  have y: "0 \<le> y" "y \<le> 9999" using assms ymd by (auto simp: marshal_time_def year_of_def split: if_splits)
  note b = civil_days_bound [OF c]
  have n: "n = year_start y + month_off (leap y) (m - 1) + d - 1"
    using civil(2) [OF c] day_number_month [of m y d] b by simp
  have off: "0 \<le> month_off (leap y) (m - 1)" "month_off (leap y) (m - 1) \<le> 366" by (rule month_off_range)+
  have "year_start 0 = - 366" "year_start 9999 = 3651694" by (simp_all add: year_start_def)
  then have "- 366 \<le> year_start y" "year_start y \<le> 3651694"
    using year_start_mono [OF y(1)] year_start_mono [OF y(2)] y by auto
  then have "- 10000000 \<le> unix t div 86400" "unix t div 86400 \<le> 10000000"
    using n off b by (auto simp: n_def unix_epoch_day_def)
  then have "is_int64 (unix t)"
    using div_mult_mod_eq [of "unix t" 86400] by (auto simp: is_int64_def)
  with y ymd show ?thesis by (simp add: printable_def year_of_def whole_minutes_def)
qed

lemma marshals_pending:
  assumes "event_fits (\<lambda>i. up i = Some i) ev" "up oid = Some oid"
  shows "marshals up (schedule_of (pending_occurrence oid (ev_id ev) t now) ev)"
  using assms
  by (auto simp: marshals_def marshal_schedule_def enc_schedule_def ok_schedule_def event_fits_def content_fits_def
      schedule_of_def pending_occurrence_def occurrence.defs schedule.defs is_int64_def bind_eq_Some_conv
      split: option.splits dest: marshal_time_range)
section \<open>Runs of the deliveries as a logic\<close>

lemma code_run_trans: "code_run up S V D r' r'' \<Longrightarrow> code_run up S V D r r' \<Longrightarrow> code_run up S V D r r''"
  by (induction rule: code_run.induct) (auto intro: code_run.next_step)

lemma code_run_one: "code_step up S V D r r' \<Longrightarrow> code_run up S V D r r'"
  by (rule code_run.next_step [OF code_run.start])

text \<open>The stores fit, and the occurrences that entered have identifiers that were given out.\<close>

definition tracked :: "(string \<Rightarrow> uuid option) \<Rightarrow> 'w views \<Rightarrow> ('w \<Rightarrow> uuid set) \<Rightarrow> 'w run \<Rightarrow> bool" where
  "tracked up V issued r \<longleftrightarrow> stores_fit V (\<lambda>i. up i = Some i) (rn_world r) \<and> rn_used r \<subseteq> issued (rn_world r)"

definition delivers :: "(string \<Rightarrow> uuid option) \<Rightarrow> 'w svc \<Rightarrow> 'w views \<Rightarrow> dispatcher \<Rightarrow> 'w run \<Rightarrow> 'w run \<Rightarrow> bool" where
  "delivers up S V D r r' \<longleftrightarrow> code_run up S V D r r' \<and> rn_busy r' = rn_busy r \<and> rn_turns r' = rn_turns r"

text \<open>\<open>uuid.New\<close> gives an identifier that was not given out before.\<close>

definition issues_new :: "'w svc \<Rightarrow> ('w \<Rightarrow> uuid set) \<Rightarrow> bool" where
  "issues_new S issued \<longleftrightarrow> (\<forall>w. result_of (new_uuid S) w \<notin> issued w \<and> result_of (new_uuid S) w \<in> issued (after (new_uuid S) w))"

locale delivering_server = typed_server S P V up pre "\<lambda>i. up i = Some i" issued T
  for S :: "'w svc" and P and V :: "'w views" and up pre and issued :: "'w \<Rightarrow> uuid set" and T :: "'w ttl_redis" +
  fixes D :: dispatcher
  assumes new_ids: "issues_new S issued" and prefix: "di_prefix D = pre"

sublocale delivering_server \<subseteq> run: step_logic "tracked up V issued" rn_world "delivers up S V D"
  by unfold_locales (auto simp: delivers_def intro: code_run.start code_run_trans)

context delivering_server
begin

text \<open>A computation that keeps the stores fit and is one step of the deliveries.\<close>

lemma one_step:
  assumes fits: "by_steps (stores_fit V (\<lambda>i. up i = Some i)) (\<lambda>w. w) (\<lambda>w w'. issued w \<subseteq> issued w') m Q"
    and step: "\<And>r. code_step up S V D r (r\<lparr>rn_world := after m (rn_world r)\<rparr>)"
  shows "by_steps (tracked up V issued) rn_world (delivers up S V D) m Q"
  unfolding by_steps_def
proof (intro allI impI)
  fix r assume r: "tracked up V issued r"
  let ?w = "after m (rn_world r)"
  from r have "stores_fit V (\<lambda>i. up i = Some i) (rn_world r)" by (simp add: tracked_def)
  from by_steps_after [OF fits this] r have "tracked up V issued (r\<lparr>rn_world := ?w\<rparr>)" "Q (result_of m (rn_world r))"
    by (auto simp: tracked_def)
  moreover have "delivers up S V D r (r\<lparr>rn_world := ?w\<rparr>)"
    using code_run_one [OF step, of r] by (simp add: delivers_def)
  ultimately have "Q (result_of m (rn_world r)) \<and> (\<exists>r'. delivers up S V D r r' \<and> tracked up V issued r' \<and> rn_world r' = ?w)"
    by (intro conjI exI [of _ "r\<lparr>rn_world := ?w\<rparr>"]) simp_all
  then show "wp m (\<lambda>x w'. Q x \<and> (\<exists>r'. delivers up S V D r r' \<and> tracked up V issued r' \<and> rn_world r' = w')) (rn_world r)"
    by (simp add: wp_def result_of_def after_def case_prod_unfold)
qed

lemma quiet_step:
  assumes "by_steps (stores_fit V (\<lambda>i. up i = Some i)) (\<lambda>w. w) (\<lambda>w w'. issued w \<subseteq> issued w') m Q"
    "\<And>w. strings_only (rv V w) (rv V (after m w))"
  shows "by_steps (tracked up V issued) rn_world (delivers up S V D) m Q"
  by (rule one_step [OF assms(1)]) (rule code_step.elsewhere [OF assms(2)])

lemma same_redis: "rv V (after (sql S st) w) = rv V w" "rv V (after (time_now S) w) = rv V w" "rv V (after (new_uuid S) w) = rv V w"
proof -
  have "after (sql S st) w = after (sql_do S st) w"
    by (simp add: sql_def after_def State_Monad.bind_def State_Monad.return_def case_prod_unfold)
  then show "rv V (after (sql S st) w) = rv V w" using ok by (simp add: svc_ok_def keeps_def)
  show "rv V (after (time_now S) w) = rv V w" "rv V (after (new_uuid S) w) = rv V w"
    using ok by (simp_all add: svc_ok_def keeps_def)
qed

lemma string_redis: "string_command c \<Longrightarrow> strings_only (rv V w) (rv V (after (redis S c) w))"
proof -
  assume c: "string_command c"
  have "strings_only d (call c d)" for d
    using c by (cases c) (auto simp: call_def strings_only_def intro: exI [of _ "rd_strings d"])
  then have "wp (redis S c) (\<lambda>_ w'. strings_only (rv V w) (rv V w')) w"
    by (intro wp_redis [OF ok]) (auto dest: redis_sem_call)
  from wp_result [OF this] show ?thesis .
qed

end
context delivering_server
begin

text \<open>A new identifier, and the scheduling of an occurrence that has it.\<close>

lemma schedule_new:
  assumes ev: "event_fits (\<lambda>i. up i = Some i) ev"
  shows "by_steps (tracked up V issued) rn_world (delivers up S V D)
      (State_Monad.bind (new_uuid S) (\<lambda>oid. scheduleWithRetry S pre (pending_occurrence oid (ev_id ev) t now) ev)) (\<lambda>_. True)"
  unfolding by_steps_def
proof (intro allI impI)
  fix r assume r: "tracked up V issued r"
  define w where "w = rn_world r"
  define oid where "oid = result_of (new_uuid S) w"
  define w1 where "w1 = after (new_uuid S) w"
  define oc where "oc = pending_occurrence oid (ev_id ev) t now"
  define w2 where "w2 = after (scheduleWithRetry S pre oc ev) w1"
  have fit: "stores_fit V (\<lambda>i. up i = Some i) w" and used: "rn_used r \<subseteq> issued w" using r by (simp_all add: tracked_def w_def)
  from by_steps_after [OF uuid_typed fit] have oid: "up oid = Some oid" and
    w1: "issued w \<subseteq> issued w1" "stores_fit V (\<lambda>i. up i = Some i) w1" by (simp_all add: oid_def w1_def)
  from by_steps_after [OF schedule_typed w1(2)] have
    w2: "issued w1 \<subseteq> issued w2" "stores_fit V (\<lambda>i. up i = Some i) w2" by (simp_all add: w2_def scheduleWithRetry_def)
  have new: "oid \<notin> issued w" "oid \<in> issued w1" using new_ids by (simp_all add: issues_new_def oid_def w1_def)
  let ?r1 = "r\<lparr>rn_world := w1\<rparr>" and ?r2 = "r\<lparr>rn_world := w2, rn_used := insert oid (rn_used r)\<rparr>"
  have "code_step up S V D r ?r1"
    by (rule code_step.elsewhere) (simp add: w1_def same_redis flip: w_def)
  moreover have "code_step up S V D ?r1 ?r2"
    using code_step.schedule [of oc ?r1 up ev S V D] marshals_pending [OF ev oid] new(1) used prefix
    by (auto simp: oc_def w2_def pending_occurrence_def)
  ultimately have "delivers up S V D r ?r2"
    by (simp add: delivers_def code_run.next_step [OF code_run_one])
  moreover have "tracked up V issued ?r2" using w1 w2 used new(2) by (auto simp: tracked_def)
  moreover have "after (State_Monad.bind (new_uuid S) (\<lambda>oid. scheduleWithRetry S pre (pending_occurrence oid (ev_id ev) t now) ev)) w = w2"
    by (simp add: w2_def w1_def oc_def oid_def after_def result_of_def State_Monad.bind_def case_prod_unfold)
  ultimately have "\<exists>r'. delivers up S V D r r' \<and> tracked up V issued r' \<and> rn_world r'
      = after (State_Monad.bind (new_uuid S) (\<lambda>oid. scheduleWithRetry S pre (pending_occurrence oid (ev_id ev) t now) ev)) w"
    by (intro exI [of _ ?r2]) simp
  then show "wp (State_Monad.bind (new_uuid S) (\<lambda>oid. scheduleWithRetry S pre (pending_occurrence oid (ev_id ev) t now) ev))
      (\<lambda>_ w'. True \<and> (\<exists>r'. delivers up S V D r r' \<and> tracked up V issued r' \<and> rn_world r' = w')) (rn_world r)"
    by (simp add: wp_def after_def case_prod_unfold w_def del: wp_bind)
qed

end

sublocale delivering_server \<subseteq> run: server_logic "tracked up V issued" rn_world "delivers up S V D" S up pre "\<lambda>i. up i = Some i" T
proof unfold_locales
  show "stmt_fits (\<lambda>i. up i = Some i) st \<Longrightarrow>
      by_steps (tracked up V issued) rn_world (delivers up S V D) (sql S st) (pred_sum (\<lambda>_. True) (reply_fits (\<lambda>i. up i = Some i)))" for st
    by (rule quiet_step [OF sql_typed]) (simp_all add: same_redis)
  show "by_steps (tracked up V issued) rn_world (delivers up S V D) (time_now S) (\<lambda>_. True)"
    "by_steps (tracked up V issued) rn_world (delivers up S V D) (new_uuid S) (\<lambda>i. up i = Some i)"
    by (rule quiet_step [OF other_typed(1)] quiet_step [OF uuid_typed], simp add: same_redis)+
  show "string_command c \<Longrightarrow> by_steps (tracked up V issued) rn_world (delivers up S V D) (redis S c) (\<lambda>_. True)" for c
    by (rule quiet_step [OF fit.string_steps string_redis])
  show "by_steps (tracked up V issued) rn_world (delivers up S V D) (RemoveEventOccurrencesFromRedis up S pre i) (\<lambda>_. True)" for i
    by (rule one_step [OF remove_typed]) (use code_step.remove_event [of up S V D] in \<open>simp add: prefix\<close>)
  have "apart V (ttl_get T k)" "apart V (ttl_exec T cs)" "apart V (ttl_now T)" for k cs
    using limiter by (simp_all add: limiter_apart_def)
  then show "by_steps (tracked up V issued) rn_world (delivers up S V D) (ttl_get T k) (\<lambda>_. True)"
    "by_steps (tracked up V issued) rn_world (delivers up S V D) (ttl_exec T cs) (\<lambda>_. True)"
    "by_steps (tracked up V issued) rn_world (delivers up S V D) (ttl_now T) (\<lambda>_. True)" for k cs
    by (auto intro!: quiet_step [OF srv.limiter_steps(1)] quiet_step [OF srv.limiter_steps(2)] quiet_step [OF srv.limiter_steps(3)]
        simp: apart_def)
qed (rule schedule_new)
section \<open>Every step of the server\<close>

text \<open>A process and a run that stand for each other.\<close>

definition linked :: "(string \<Rightarrow> uuid option) \<Rightarrow> 'w views \<Rightarrow> ('w \<Rightarrow> uuid set) \<Rightarrow> 'w process \<Rightarrow> 'w run \<Rightarrow> bool" where
  "linked up V issued p r \<longleftrightarrow> rn_world r = pr_world p \<and> rn_busy r = pr_busy p \<and> rn_turns r = pr_turns p \<and> tracked up V issued r
     \<and> (\<forall>ev \<in># pr_jobs p. event_fits (\<lambda>i. up i = Some i) ev)"

definition env_remembers :: "('w \<Rightarrow> uuid set) \<Rightarrow> ('w \<Rightarrow> 'w \<Rightarrow> bool) \<Rightarrow> bool" where
  "env_remembers issued env \<longleftrightarrow> (\<forall>w w'. env w w' \<longrightarrow> issued w \<subseteq> issued w')"

lemma lose_all_busy: "code_run up S V D r (r\<lparr>rn_busy := {#}\<rparr>)"
proof (induction "rn_busy r" arbitrary: r)
  case empty
  then have "r\<lparr>rn_busy := {#}\<rparr> = r" by simp
  then show ?case by (simp add: code_run.start)
next
  case (add v B)
  have "code_run up S V D (r\<lparr>rn_busy := B\<rparr>) (r\<lparr>rn_busy := {#}\<rparr>)" using add(1) [of "r\<lparr>rn_busy := B\<rparr>"] by simp
  moreover have "code_step up S V D r (r\<lparr>rn_busy := B\<rparr>)"
    using code_step.die [of up S V D r v] by (simp flip: add(2))
  ultimately show ?case by (blast intro: code_run_trans code_run_one)
qed

context delivering_server
begin

text \<open>A computation of the walk, run by the process.\<close>

lemma computed:
  assumes "by_steps (tracked up V issued) rn_world (delivers up S V D) m Q" "linked up V issued p r"
    "\<And>x. Q x \<Longrightarrow> \<forall>ev \<in># J x. event_fits (\<lambda>i. up i = Some i) ev"
  shows "\<exists>r'. code_run up S V D r r' \<and> linked up V issued
      (p\<lparr>pr_world := after m (pr_world p), pr_jobs := J (result_of m (pr_world p))\<rparr>) r'"
proof -
  have r: "rn_world r = pr_world p" "rn_busy r = pr_busy p" "rn_turns r = pr_turns p" "tracked up V issued r" using assms(2) by (simp_all add: linked_def)
  from assms(1) r(4) have "wp m (\<lambda>x w'. Q x \<and> (\<exists>s'. delivers up S V D r s' \<and> tracked up V issued s' \<and> rn_world s' = w')) (rn_world r)"
    by (simp add: by_steps_def)
  from wp_result [OF this] obtain r' where "Q (result_of m (pr_world p))" "delivers up S V D r r'" "tracked up V issued r'"
    "rn_world r' = after m (pr_world p)" by (auto simp: r(1))
  then show ?thesis using assms(3) r(2,3) by (intro exI [of _ r']) (auto simp: linked_def delivers_def)
qed

lemma computed_alone:
  assumes "by_steps (tracked up V issued) rn_world (delivers up S V D) m Q" "linked up V issued p r"
  shows "\<exists>r'. code_run up S V D r r' \<and> linked up V issued (p\<lparr>pr_world := after m (pr_world p)\<rparr>) r'"
  using computed [OF assms, of "\<lambda>_. pr_jobs p"] assms(2) by (simp add: linked_def)

text \<open>The turns of the loops that move items are steps of their own.\<close>

lemma loop_steps:
  "by_steps (tracked up V issued) rn_world (delivers up S V D) (GetDueSchedules S pre) (\<lambda>_. True)"
  "by_steps (tracked up V issued) rn_world (delivers up S V D) (poller_turn S D) (\<lambda>_. True)"
  using code_step.move [of up S V D] code_step.poll [of up S V D]
  by (auto intro!: one_step [OF loops_typed(1)] one_step [OF loops_typed(2)] simp: prefix)

lemma pop_linked:
  assumes "linked up V issued p r" "run_state (redis S (BRPOP (pre @ dispatchQueueKey))) (pr_world p) = (x, w')"
  shows "\<exists>r'. code_run up S V D r r' \<and> linked up V issued (p\<lparr>pr_world := w',
      pr_busy := pr_busy p + (case x of Inr (RArr [_, item]) \<Rightarrow> {#item#} | _ \<Rightarrow> {#})\<rparr>) r'"
proof -
  have r: "rn_world r = pr_world p" "rn_busy r = pr_busy p" "rn_turns r = pr_turns p" and t: "tracked up V issued r"
    and jobs: "\<forall>ev \<in># pr_jobs p. event_fits (\<lambda>i. up i = Some i) ev"
    using assms(1) by (simp_all add: linked_def)
  have "w' = after (redis S (BRPOP (pre @ dispatchQueueKey))) (pr_world p)" using assms(2) by (simp add: after_def)
  moreover have "stores_fit V (\<lambda>i. up i = Some i) (pr_world p)" using t by (simp add: tracked_def r)
  ultimately have w': "stores_fit V (\<lambda>i. up i = Some i) w'" "rn_used r \<subseteq> issued w'"
    using by_steps_after [OF plain_typed [of "BRPOP (pre @ dispatchQueueKey)"], of "pr_world p"] t by (auto simp: tracked_def r)
  have pop: "run_state (redis S (BRPOP (di_prefix D @ dispatchQueueKey))) (rn_world r) = (x, w')"
    by (simp add: prefix r assms(2))
  show ?thesis
  proof (cases "\<exists>k item. x = Inr (RArr [k, item])")
    case True
    then obtain k item where x: "x = Inr (RArr [k, item])" by blast
    from code_run_one [OF code_step.pop [OF pop [unfolded x]]] w' jobs show ?thesis
      by (intro exI [of _ "r\<lparr>rn_world := w', rn_busy := add_mset item (rn_busy r)\<rparr>"]) (simp add: x linked_def tracked_def r)
  next
    case False
    then have none: "(case x of Inr (RArr [_, item]) \<Rightarrow> {#item#} | _ \<Rightarrow> {#}) = {#}"
      by (auto split: sum.split rreply.split list.split)
    from code_run_one [OF code_step.pop_fails [OF pop]] False w' jobs show ?thesis
      by (intro exI [of _ "r\<lparr>rn_world := w'\<rparr>"]) (auto simp: none linked_def tracked_def r)
  qed
qed

lemma process_linked:
  assumes "linked up V issued p r" "item \<in># pr_busy p"
  shows "\<exists>r'. code_run up S V D r r' \<and> linked up V issued
      (p\<lparr>pr_world := after (process_item up S D item) (pr_world p), pr_busy := pr_busy p - {#item#},
        pr_turns := item # pr_turns p\<rparr>) r'"
proof -
  have r: "rn_world r = pr_world p" "rn_busy r = pr_busy p" "rn_turns r = pr_turns p" and t: "tracked up V issued r"
    and jobs: "\<forall>ev \<in># pr_jobs p. event_fits (\<lambda>i. up i = Some i) ev"
    using assms(1) by (simp_all add: linked_def)
  have "stores_fit V (\<lambda>i. up i = Some i) (pr_world p)" using t by (simp add: tracked_def r)
  from by_steps_after [OF fit.process_item_steps [of D item] this] t jobs code_run_one [OF code_step.process [of item r up S V D]] assms(2)
  show ?thesis
    by (intro exI [of _ "r\<lparr>rn_world := after (process_item up S D item) (rn_world r), rn_busy := rn_busy r - {#item#},
        rn_turns := item # rn_turns r\<rparr>"]) (auto simp: linked_def tracked_def r)
qed

end
context delivering_server
begin

lemma server_step_linked:
  assumes "server_step G env p p'" "linked up V issued p r" "env_apart V env" "env_remembers issued env"
    "sv_svc G = S" "sv_uuid G = up" "ex_prefix (sv_expander G) = pre" "sv_ttl G = T" "sv_dispatcher G = D"
  shows "\<exists>r'. code_run up S V D r r' \<and> linked up V issued p' r'"
  using assms(1)
proof (cases rule: server_step.cases)
  case (request q rs job w')
  have "\<forall>ev \<in># pr_jobs p + jobs_of (snd x). event_fits (\<lambda>i. up i = Some i) ev" if "job_fits (\<lambda>i. up i = Some i) x"
    for x :: "response list \<times> event option"
    using that assms(2) by (auto simp: linked_def job_fits_def jobs_of_def split: option.splits)
  from computed [OF run.serve_steps [OF assms(5-8), of q] assms(2), of "\<lambda>x. pr_jobs p + jobs_of (snd x)", OF this] request
  show ?thesis by (simp add: after_def result_of_def)
next
  case (goroutine ev)
  have "\<forall>e \<in># pr_jobs p - {#ev#}. event_fits (\<lambda>i. up i = Some i) e" using assms(2) by (auto simp: linked_def dest: in_diffD)
  with computed [OF run.background_steps [OF _ assms(7), of "Some ev"] assms(2), of "\<lambda>_. pr_jobs p - {#ev#}"] assms(2) goroutine
  show ?thesis by (simp add: linked_def assms(5))
next
  case mover
  with computed_alone [OF loop_steps(1) assms(2)] show ?thesis by (simp add: assms(5,7))
next
  case (worker_pop x w')
  with pop_linked [OF assms(2), of x w'] show ?thesis by (simp add: assms(5,9) prefix)
next
  case (worker_process item)
  with process_linked [OF assms(2)] show ?thesis by (simp add: assms(5,6,9))
next
  case poller
  with computed_alone [OF loop_steps(2) assms(2)] show ?thesis by (simp add: assms(5,9))
next
  case expander
  with computed_alone [OF run.ExpandEvents_steps [OF assms(7)] assms(2)] show ?thesis by (simp add: assms(5))
next
  case archiver
  with computed_alone [OF run.archive_cycle_steps assms(2)] show ?thesis by (simp add: assms(5))
next
  case restart
  then show ?thesis
    using lose_all_busy [of up S V D r] assms(2) by (intro exI [of _ "r\<lparr>rn_busy := {#}\<rparr>"]) (auto simp: linked_def tracked_def)
next
  case (outside w')
  with assms(2-4) have w': "strings_only (rv V (rn_world r)) (rv V w')" "dv V w' = dv V (rn_world r)" "issued (rn_world r) \<subseteq> issued w'"
    by (auto simp: env_apart_def env_remembers_def linked_def)
  have "rn_used r \<subseteq> issued (rn_world r)" using assms(2) unfolding linked_def tracked_def by blast
  then have "rn_used r \<subseteq> issued w'" using w'(3) by (rule subset_trans)
  with code_run_one [OF code_step.elsewhere [OF w'(1)]] assms(2) stores_fit_cong [OF w'(1,2)] outside(1) show ?thesis
    by (intro exI [of _ "r\<lparr>rn_world := w'\<rparr>"]) (auto simp: linked_def tracked_def)
qed

lemma server_run_linked:
  assumes "server_run G env p p'" "linked up V issued p r" "env_apart V env" "env_remembers issued env"
    "sv_svc G = S" "sv_uuid G = up" "ex_prefix (sv_expander G) = pre" "sv_ttl G = T" "sv_dispatcher G = D"
  shows "\<exists>r'. code_run up S V D r r' \<and> linked up V issued p' r'"
  using assms(1,2)
proof (induction rule: server_run.induct)
  case (start p)
  then show ?case by (blast intro: code_run.start)
next
  case (next_step p p' p'')
  then obtain r' where "code_run up S V D r r'" "linked up V issued p' r'" by blast
  with server_step_linked [OF next_step.hyps(2) _ assms(3-9)] show ?case by (blast intro: code_run_trans)
qed

end

section \<open>The server delivers every occurrence once\<close>

text \<open>What is assumed of the identifiers: canonical, new each time, and never taken back.\<close>

definition fresh_ids :: "'w server \<Rightarrow> ('w \<Rightarrow> uuid set) \<Rightarrow> ('w \<Rightarrow> 'w \<Rightarrow> bool) \<Rightarrow> bool" where
  "fresh_ids G issued env \<longleftrightarrow> issues (sv_svc G) (\<lambda>i. sv_uuid G i = Some i) issued \<and> issues_new (sv_svc G) issued
     \<and> limiter_remembers issued (sv_ttl G) \<and> env_remembers issued env"

text \<open>What the process holds and has processed and Redis keeps, as the pipeline sees it, with the occurrences that entered.\<close>

definition server_pipeline :: "'w server \<Rightarrow> 'w views \<Rightarrow> 'w process \<Rightarrow> uuid set \<Rightarrow> pipeline" where
  "server_pipeline G V p used = pipeline_of (sv_uuid G) (di_prefix (sv_dispatcher G)) V
     \<lparr>rn_world = pr_world p, rn_busy = pr_busy p, rn_turns = pr_turns p, rn_used = used\<rparr>"

text \<open>C1. The whole server refines the abstract pipeline: from stores without entries, under any requests and any interleaving of
  its goroutines, loops and workers, with any calls failing, and over restarts, what Redis and the workers hold and what the workers
  have processed has gone through steps of the pipeline. So each occurrence is in one place at most, and was processed at most
  \<open>maxRetries\<close> times (once, when that is less than one).\<close>

theorem server_refines_pipeline:
  assumes "svc_ok (sv_svc G) P V" "pg_ok P" "limiter_apart V (sv_ttl G)" "env_apart V env" "fresh_ids G issued env"
    "ex_prefix (sv_expander G) = di_prefix (sv_dispatcher G)" "is_int64 (di_maxRetries (sv_dispatcher G))"
    "stores_fit V (\<lambda>i. sv_uuid G i = Some i) (pr_world p)" "payloads (di_prefix (sv_dispatcher G)) (rv V (pr_world p)) = {}"
    "pr_jobs p = {#}" "pr_busy p = {#}" "pr_turns p = []" "server_run G env p p'"
  shows "\<exists>used. let q = server_pipeline G V p' used; limit = di_maxRetries (sv_dispatcher G) in
     pipe_steps limit empty_pipeline q
     \<and> (\<forall>oid. count (image_mset fst (waiting q + queued q + busy q + retrying q)) oid \<le> 1)
     \<and> (\<forall>oid. int (turns_of q oid) \<le> max 1 limit)"
proof -
  let ?D = "sv_dispatcher G" and ?up = "sv_uuid G" and ?S = "sv_svc G"
  have "delivering_server ?S P V ?up (di_prefix ?D) issued (sv_ttl G) ?D"
    using assms(1-3,5) by unfold_locales (simp_all add: fresh_ids_def)
  from delivering_server.server_run_linked [OF this assms(13) _ assms(4), of "fresh_run (pr_world p)"] assms(5,6,8,10-12)
  obtain r where r: "code_run ?up ?S V ?D (fresh_run (pr_world p)) r" "linked ?up V issued p' r"
    by (auto simp: fresh_ids_def linked_def tracked_def fresh_run_def)
  have "rdata_ok (rv V (pr_world p))" using assms(8) by (simp add: stores_fit_rows)
  note reach = fresh_run_reaches [OF assms(1,7) this assms(9) r(1)]
  have "server_pipeline G V p' (rn_used r) = pipeline_of ?up (di_prefix ?D) V r"
    using r(2) by (cases r) (simp add: server_pipeline_def linked_def pipeline_of_def)
  with reach have q: "pipe_steps (di_maxRetries ?D) empty_pipeline (server_pipeline G V p' (rn_used r))"
    "pipe_ok (di_maxRetries ?D) (server_pipeline G V p' (rn_used r))" by simp_all
  have "int (turns_of (server_pipeline G V p' (rn_used r)) oid) \<le> max 1 (di_maxRetries ?D)" for oid
  proof -
    have "turns_of (server_pipeline G V p' (rn_used r)) oid \<le> nat (max 1 (di_maxRetries ?D))"
      using q(2) by (simp only: pipe_ok_def turn_limit_def)
    then show ?thesis by linarith
  qed
  with q show ?thesis
    unfolding Let_def
    by (intro exI [of _ "rn_used r"]) (simp add: pipe_ok_def items_def)
qed
section \<open>A concrete run\<close>

text \<open>The identifiers in memory are numbered.\<close>

definition mem_issued :: "mem \<Rightarrow> uuid set" where
  "mem_issued w = mem_uuid ` {..<m_next w}"

lemma mem_uuid_inj: "mem_uuid i = mem_uuid j \<longleftrightarrow> i = j"
proof
  assume "mem_uuid i = mem_uuid j"
  then have "pad 12 i = pad 12 j" by (simp add: mem_uuid_def)
  then show "i = j" by (metis digits_val_pad)
qed simp

lemma mem_fresh_ids: "fresh_ids demo_server mem_issued mem_env"
proof -
  have "issues mem_svc (\<lambda>i. Some i = Some i) mem_issued"
    by (auto simp: issues_def remembers_def mem_svc_def mem_issued_def after_def split: prod.split option.split)
  moreover have "issues_new mem_svc mem_issued"
    by (auto simp: issues_new_def mem_svc_def mem_issued_def after_def result_of_def mem_uuid_inj)
  moreover have "limiter_remembers mem_issued mem_ttl" "env_remembers mem_issued mem_env"
    by (auto simp: limiter_remembers_def env_remembers_def remembers_def mem_ttl_def mem_env_def mem_issued_def after_def)
  ultimately show ?thesis by (simp add: fresh_ids_def demo_server_def)
qed

text \<open>The round of the expander at time 0 and, two minutes later, the move of what is due.\<close>

definition demo_start :: "mem process" where
  "demo_start = \<lparr>pr_world = demo_mem\<lparr>m_time := 0\<rparr>, pr_jobs = {#}, pr_busy = {#}, pr_turns = []\<rparr>"

definition demo_end :: "mem process" where
  "demo_end = (let w1 = after (ExpandEvents mem_svc (sv_expander demo_server)) (pr_world demo_start);
     w2 = w1\<lparr>m_time := m_time w1 + 120 * second\<rparr> in demo_start\<lparr>pr_world := after (GetDueSchedules mem_svc []) w2\<rparr>)"

lemma demo_process: "server_run demo_server mem_env demo_start demo_end"
proof -
  define w1 where "w1 = after (ExpandEvents mem_svc (sv_expander demo_server)) (pr_world demo_start)"
  define w2 where "w2 = w1\<lparr>m_time := m_time w1 + 120 * second\<rparr>"
  have "server_step demo_server mem_env demo_start (demo_start\<lparr>pr_world := w1\<rparr>)"
    using server_step.expander [of demo_server mem_env demo_start] by (simp add: w1_def demo_server_def)
  moreover have "server_step demo_server mem_env (demo_start\<lparr>pr_world := w1\<rparr>) (demo_start\<lparr>pr_world := w2\<rparr>)"
    using server_step.outside [of mem_env "demo_start\<lparr>pr_world := w1\<rparr>" w2 demo_server]
    by (simp add: mem_env_def w2_def second_def) (metis le_add_same_cancel1 zero_le_numeral)
  moreover have "server_step demo_server mem_env (demo_start\<lparr>pr_world := w2\<rparr>) demo_end"
    using server_step.mover [of demo_server mem_env "demo_start\<lparr>pr_world := w2\<rparr>"]
    by (simp add: demo_end_def Let_def w2_def w1_def demo_server_def)
  ultimately show ?thesis by (blast intro: server_run.intros)
qed

theorem server_refines_pipeline_witness:
  "\<exists>used. pipe_steps 3 empty_pipeline (server_pipeline demo_server mem_views demo_end used)"
proof -
  have svc: "svc_ok (sv_svc demo_server) mem_pg mem_views" "limiter_apart mem_views (sv_ttl demo_server)"
    "ex_prefix (sv_expander demo_server) = di_prefix (sv_dispatcher demo_server)"
    "is_int64 (di_maxRetries (sv_dispatcher demo_server))" "di_maxRetries (sv_dispatcher demo_server) = 3"
    by (simp_all add: demo_server_def mem_svc_ok mem_ttl_apart is_int64_def)
  have "stores_fit mem_views (\<lambda>i. sv_uuid demo_server i = Some i) (pr_world demo_start)"
    using demo_typed by (simp add: stores_fit_def stores_typed_def demo_start_def) (simp add: demo_server_def)
  moreover have "payloads (di_prefix (sv_dispatcher demo_server)) (rv mem_views (pr_world demo_start)) = {}"
    using demo_empty(1) by (simp add: demo_dispatcher_def) (simp add: demo_server_def demo_start_def)
  moreover have "pr_jobs demo_start = {#}" "pr_busy demo_start = {#}" "pr_turns demo_start = []" by (simp_all add: demo_start_def)
  ultimately show ?thesis
    using server_refines_pipeline [OF svc(1) mem_pg_ok svc(2) mem_env_apart mem_fresh_ids svc(3,4) _ _ _ _ _ demo_process]
    unfolding svc(5) Let_def by blast
qed
interpretation mem_run: delivering_server mem_svc mem_pg mem_views Some "[]" mem_issued mem_ttl "sv_dispatcher demo_server"
proof -
  have "fresh_ids demo_server mem_issued mem_env" by (rule mem_fresh_ids)
  then show "delivering_server mem_svc mem_pg mem_views Some [] mem_issued mem_ttl (sv_dispatcher demo_server)"
    by unfold_locales (simp_all add: fresh_ids_def demo_server_def mem_ttl_apart mem_svc_ok mem_pg_ok)
qed

end
