(* ===== verification/Threads.thy ===== *)
theory Threads
  imports Composition
begin

text \<open>
  The program one service call at a time. A thread is a computation of the program (a request, a goroutine of a handler, a turn
  of a loop) with the calls it has made and their answers. The computation itself is the one of the other theories, run on
  services that answer from that trace: the first call without an answer is the one the thread makes next. What its
  next call may be is derived from the walk of \<open>Steps\<close>, whose rules hold for these services, too. \<open>Interleaving\<close> lets
  any number of threads take turns call by call.
\<close>

section \<open>Calls and answers\<close>

datatype service_call =
    CallRedis rcmd
  | CallSql stmt
  | CallTime
  | CallUuid
  | CallHttp http_request
  | CallNotify string string
  | CallGet string
  | CallExec "(string \<times> string \<times> duration) list"
  | CallNow

datatype answer =
    GotRedis "string + rreply"
  | GotSql "string + dbreply"
  | GotTime instant
  | GotUuid uuid
  | GotHttp "string + int"
  | GotNotify "string option"
  | GotKey "string + string option"
  | GotExec "string option"

type_synonym trace = "(service_call \<times> answer) list"

text \<open>A call on the services of a server.\<close>

fun perform :: "'w server \<Rightarrow> service_call \<Rightarrow> ('w, answer) state" where
  "perform G (CallRedis c) = State_Monad.bind (redis_do (sv_svc G) c) (\<lambda>r. State_Monad.return (GotRedis r))"
| "perform G (CallSql st) = State_Monad.bind (sql_do (sv_svc G) st) (\<lambda>r. State_Monad.return (GotSql r))"
| "perform G CallTime = State_Monad.bind (time_now (sv_svc G)) (\<lambda>t. State_Monad.return (GotTime t))"
| "perform G CallUuid = State_Monad.bind (new_uuid (sv_svc G)) (\<lambda>i. State_Monad.return (GotUuid i))"
| "perform G (CallHttp q) = State_Monad.bind (http_do (sv_svc G) q) (\<lambda>r. State_Monad.return (GotHttp r))"
| "perform G (CallNotify n p) = State_Monad.bind (notify_client (sv_svc G) n p) (\<lambda>r. State_Monad.return (GotNotify r))"
| "perform G (CallGet k) = State_Monad.bind (ttl_get (sv_ttl G) k) (\<lambda>r. State_Monad.return (GotKey r))"
| "perform G (CallExec cs) = State_Monad.bind (ttl_exec (sv_ttl G) cs) (\<lambda>r. State_Monad.return (GotExec r))"
| "perform G CallNow = State_Monad.bind (ttl_now (sv_ttl G)) (\<lambda>t. State_Monad.return (GotTime t))"

section \<open>Services that answer from a trace\<close>

text \<open>
  The calls answered so far, the answers still to give, and the call at which the answers ended. From then on nothing changes,
  and the calls get arbitrary replies.
\<close>

record script =
  sc_done :: trace
  sc_todo :: trace
  sc_stop :: "service_call option"

definition ask :: "service_call \<Rightarrow> (script, answer option) state" where
  "ask c = State (\<lambda>s.
     if sc_stop s \<noteq> None then (None, s)
     else case sc_todo s of
       [] \<Rightarrow> (None, s\<lparr>sc_stop := Some c\<rparr>)
     | (c', a) # t \<Rightarrow>
         if c' = c then (Some a, s\<lparr>sc_done := sc_done s @ [(c, a)], sc_todo := t\<rparr>)
         else (None, s\<lparr>sc_stop := Some c\<rparr>))"

definition nil_uuid :: uuid where
  "nil_uuid = ''00000000-0000-0000-0000-000000000000''"

definition script_svc :: "script svc" where
  "script_svc =
     \<lparr>redis_do = (\<lambda>c. State_Monad.bind (ask (CallRedis c)) (\<lambda>a. State_Monad.return (case a of Some (GotRedis r) \<Rightarrow> r | _ \<Rightarrow> Inl []))),
      sql_do = (\<lambda>st. State_Monad.bind (ask (CallSql st)) (\<lambda>a. State_Monad.return (case a of Some (GotSql r) \<Rightarrow> r | _ \<Rightarrow> Inl []))),
      time_now = State_Monad.bind (ask CallTime) (\<lambda>a. State_Monad.return (case a of Some (GotTime t) \<Rightarrow> t | _ \<Rightarrow> 0)),
      new_uuid = State_Monad.bind (ask CallUuid) (\<lambda>a. State_Monad.return (case a of Some (GotUuid i) \<Rightarrow> i | _ \<Rightarrow> nil_uuid)),
      http_do = (\<lambda>q. State_Monad.bind (ask (CallHttp q)) (\<lambda>a. State_Monad.return (case a of Some (GotHttp r) \<Rightarrow> r | _ \<Rightarrow> Inl []))),
      notify_client = (\<lambda>n p. State_Monad.bind (ask (CallNotify n p))
        (\<lambda>a. State_Monad.return (case a of Some (GotNotify r) \<Rightarrow> r | _ \<Rightarrow> None)))\<rparr>"

definition script_ttl :: "script ttl_redis" where
  "script_ttl =
     \<lparr>ttl_get = (\<lambda>k. State_Monad.bind (ask (CallGet k)) (\<lambda>a. State_Monad.return (case a of Some (GotKey r) \<Rightarrow> r | _ \<Rightarrow> Inl []))),
      ttl_exec = (\<lambda>cs. State_Monad.bind (ask (CallExec cs)) (\<lambda>a. State_Monad.return (case a of Some (GotExec r) \<Rightarrow> r | _ \<Rightarrow> None))),
      ttl_now = State_Monad.bind (ask CallNow) (\<lambda>a. State_Monad.return (case a of Some (GotTime t) \<Rightarrow> t | _ \<Rightarrow> 0))\<rparr>"

text \<open>The same server on these services.\<close>

definition scripted :: "'w server \<Rightarrow> script server" where
  "scripted G =
     \<lparr>sv_svc = script_svc, sv_ttl = script_ttl, sv_limiter = sv_limiter G, sv_jwt = sv_jwt G, sv_tokens = sv_tokens G,
      sv_master = sv_master G, sv_expander = sv_expander G, sv_dispatcher = sv_dispatcher G, sv_uuid = sv_uuid G,
      sv_start = sv_start G, sv_seconds = sv_seconds G, sv_unrouted = sv_unrouted G, sv_zone = sv_zone G,
      sv_check_period = sv_check_period G, sv_retention = sv_retention G\<rparr>"

section \<open>Threads\<close>

text \<open>
  What runs: a request, the goroutine that a handler left, a turn of each of the loops. The result is the event that a
  request leaves to a goroutine.
\<close>

datatype task = Request api_request | Job event | MoverTurn | WorkerTurn | PollerTurn | ExpanderRound | ArchiverRound

definition task_code :: "'w server \<Rightarrow> task \<Rightarrow> ('w, event option) state" where
  "task_code G t =
     (case t of
        Request q \<Rightarrow> State_Monad.bind (serve G q) (\<lambda>(rs, job). State_Monad.return job)
      | Job ev \<Rightarrow> State_Monad.bind (background (sv_svc G) (sv_expander G) (Some ev)) (\<lambda>_. State_Monad.return None)
      | MoverTurn \<Rightarrow> State_Monad.bind (GetDueSchedules (sv_svc G) (ex_prefix (sv_expander G))) (\<lambda>_. State_Monad.return None)
      | WorkerTurn \<Rightarrow> State_Monad.bind (worker_turn (sv_uuid G) (sv_svc G) (sv_dispatcher G)) (\<lambda>_. State_Monad.return None)
      | PollerTurn \<Rightarrow> State_Monad.bind (poller_turn (sv_svc G) (sv_dispatcher G)) (\<lambda>_. State_Monad.return None)
      | ExpanderRound \<Rightarrow> State_Monad.bind (ExpandEvents (sv_svc G) (sv_expander G)) (\<lambda>_. State_Monad.return None)
      | ArchiverRound \<Rightarrow> State_Monad.bind (archive_cycle (sv_zone G) (sv_svc G) (sv_check_period G) (rd_events (sv_retention G)))
          (\<lambda>_. State_Monad.return None))"

type_synonym thread = "task \<times> trace"

definition fresh_script :: "trace \<Rightarrow> script" where
  "fresh_script h = \<lparr>sc_done = [], sc_todo = h, sc_stop = None\<rparr>"

definition replay :: "'w server \<Rightarrow> task \<Rightarrow> trace \<Rightarrow> event option \<times> script" where
  "replay G t h = run_state (task_code (scripted G) t) (fresh_script h)"

text \<open>The call that a thread makes after its trace, and its result when it makes none.\<close>

definition next_call :: "'w server \<Rightarrow> task \<Rightarrow> trace \<Rightarrow> service_call option" where
  "next_call G t h = (let s = snd (replay G t h) in if sc_todo s = [] then sc_stop s else None)"

definition finished :: "'w server \<Rightarrow> task \<Rightarrow> trace \<Rightarrow> event option option" where
  "finished G t h = (case replay G t h of (job, s) \<Rightarrow> if sc_todo s = [] \<and> sc_stop s = None then Some job else None)"

section \<open>What the calls may be\<close>

text \<open>The identifiers that a thread was given, and the occurrences whose payload it has stored.\<close>

fun given_id :: "service_call \<times> answer \<Rightarrow> uuid option" where
  "given_id (CallUuid, GotUuid i) = Some i"
| "given_id _ = None"

fun stored_id :: "(string \<Rightarrow> uuid option) \<Rightarrow> service_call \<times> answer \<Rightarrow> uuid option" where
  "stored_id up (CallRedis (HSET k f v), GotRedis (Inr r)) = Some (fst (entry_item up v))"
| "stored_id up _ = None"

definition given :: "trace \<Rightarrow> uuid list" where
  "given h = List.map_filter given_id h"

definition stored :: "(string \<Rightarrow> uuid option) \<Rightarrow> trace \<Rightarrow> uuid list" where
  "stored up h = List.map_filter (stored_id up) h"

text \<open>What a thread has popped and may still put into the retry queue, as an item.\<close>

fun is_retry :: "string \<Rightarrow> service_call \<times> answer \<Rightarrow> bool" where
  "is_retry pre (CallRedis (ZADD k s m), a) \<longleftrightarrow> k = pre @ retryQueueKey"
| "is_retry pre _ \<longleftrightarrow> False"

definition next_try :: "(string \<Rightarrow> uuid option) \<Rightarrow> int \<Rightarrow> string \<Rightarrow> item multiset" where
  "next_try up limit v = (case entry_item up v of (oid, a) \<Rightarrow> if a + 1 < limit then {#(oid, a + 1)#} else {#})"

fun popped :: "trace \<Rightarrow> string option" where
  "popped ((CallRedis (BRPOP q), GotRedis (Inr (RArr [k, v]))) # h) = Some v"
| "popped _ = None"

definition held :: "(string \<Rightarrow> uuid option) \<Rightarrow> string \<Rightarrow> int \<Rightarrow> trace \<Rightarrow> item multiset" where
  "held up pre limit h =
     (case popped h of None \<Rightarrow> {#} | Some v \<Rightarrow> if list_ex (is_retry pre) h then {#} else next_try up limit v)"

text \<open>
  The discipline of the calls after a trace: an entry that is stored is of an occurrence the thread was given and has not
  stored; the queue is popped first of all, by the workers; scripts are the two of the program; what is written to the tables
  fits. A worker may also put back what it holds, once.
\<close>

fun quiet_command :: "(string \<Rightarrow> uuid option) \<Rightarrow> string \<Rightarrow> trace \<Rightarrow> rcmd \<Rightarrow> bool" where
  "quiet_command up pre h (HSET k f v) \<longleftrightarrow> k = pre @ scheduleDataKey \<and> good up v
     \<and> (\<exists>oid. entry_item up v = (oid, 0) \<and> oid \<in> set (given h) \<and> oid \<notin> set (stored up h))"
| "quiet_command up pre h (ZADD k s m) \<longleftrightarrow> k = pre @ ScheduleKey"
| "quiet_command up pre h (BRPOP k) \<longleftrightarrow> h = [] \<and> k = pre @ dispatchQueueKey"
| "quiet_command up pre h (EVAL f) \<longleftrightarrow>
     (\<exists>now. f = scheduleLua (pre @ ScheduleKey) (pre @ scheduleDataKey) (pre @ dispatchQueueKey) now
        \<or> f = retryLua (pre @ retryQueueKey) (pre @ dispatchQueueKey) now)"
| "quiet_command up pre h (RPUSH k v) \<longleftrightarrow> False"
| "quiet_command up pre h (LPOP k) \<longleftrightarrow> False"
| "quiet_command up pre h _ \<longleftrightarrow> True"

fun quiet_call :: "(string \<Rightarrow> uuid option) \<Rightarrow> string \<Rightarrow> trace \<Rightarrow> service_call \<Rightarrow> bool" where
  "quiet_call up pre h (CallRedis c) \<longleftrightarrow> quiet_command up pre h c"
| "quiet_call up pre h (CallSql st) \<longleftrightarrow> stmt_fits (\<lambda>i. up i = Some i) st"
| "quiet_call up pre h _ \<longleftrightarrow> True"

definition may_call :: "(string \<Rightarrow> uuid option) \<Rightarrow> string \<Rightarrow> int \<Rightarrow> trace \<Rightarrow> service_call \<Rightarrow> bool" where
  "may_call up pre limit h c \<longleftrightarrow> quiet_call up pre h c
     \<or> (\<exists>t v. c = CallRedis (ZADD (pre @ retryQueueKey) t v) \<and> good up v \<and> held up pre limit h = {#entry_item up v#})"

text \<open>Answers of the right kind, with rows, identifiers and entries that fit.\<close>

fun answer_fits :: "(string \<Rightarrow> uuid option) \<Rightarrow> int \<Rightarrow> service_call \<times> answer \<Rightarrow> bool" where
  "answer_fits up limit (CallRedis c, GotRedis r) \<longleftrightarrow>
     (\<forall>q k v. c = BRPOP q \<longrightarrow> r = Inr (RArr [k, v]) \<longrightarrow> good up v \<and> snd (entry_item up v) < max 1 limit)"
| "answer_fits up limit (CallSql st, GotSql r) \<longleftrightarrow> pred_sum (\<lambda>_. True) (reply_fits (\<lambda>i. up i = Some i)) r"
| "answer_fits up limit (CallUuid, GotUuid i) \<longleftrightarrow> up i = Some i"
| "answer_fits up limit (CallTime, GotTime t) \<longleftrightarrow> True"
| "answer_fits up limit (CallHttp q, GotHttp r) \<longleftrightarrow> True"
| "answer_fits up limit (CallNotify n p, GotNotify r) \<longleftrightarrow> True"
| "answer_fits up limit (CallGet k, GotKey r) \<longleftrightarrow> True"
| "answer_fits up limit (CallExec cs, GotExec r) \<longleftrightarrow> True"
| "answer_fits up limit (CallNow, GotTime t) \<longleftrightarrow> True"
| "answer_fits up limit _ \<longleftrightarrow> False"

lemma map_filter_append: "List.map_filter f (xs @ ys) = List.map_filter f xs @ List.map_filter f ys"
  by (induction xs) (auto simp: map_filter_simps split: option.split)

lemma given_snoc: "given (h @ [x]) = given h @ (case given_id x of None \<Rightarrow> [] | Some i \<Rightarrow> [i])"
  by (auto simp: given_def map_filter_append map_filter_simps split: option.split)

lemma stored_snoc: "stored up (h @ [x]) = stored up h @ (case stored_id up x of None \<Rightarrow> [] | Some i \<Rightarrow> [i])"
  by (auto simp: stored_def map_filter_append map_filter_simps split: option.split)

lemma given_Cons [simp]: "given (x # h) = (case given_id x of None \<Rightarrow> [] | Some i \<Rightarrow> [i]) @ given h"
  by (simp add: given_def map_filter_simps split: option.split)

lemma given_append: "given (h @ h') = given h @ given h'"
  by (simp add: given_def map_filter_append)

section \<open>Scripts that keep the discipline\<close>

definition trace_ok :: "(trace \<Rightarrow> service_call \<Rightarrow> bool) \<Rightarrow> trace \<Rightarrow> bool" where
  "trace_ok A h \<longleftrightarrow> (\<forall>i < length h. A (take i h) (fst (h ! i)))"

lemma trace_ok_Nil [simp]: "trace_ok A []"
  by (simp add: trace_ok_def)

lemma trace_ok_snoc [simp]: "trace_ok A (h @ [x]) \<longleftrightarrow> trace_ok A h \<and> A h (fst x)"
  by (auto simp: trace_ok_def nth_append less_Suc_eq)

definition script_ok :: "(trace \<Rightarrow> service_call \<Rightarrow> bool) \<Rightarrow> trace \<Rightarrow> script \<Rightarrow> bool" where
  "script_ok A h s \<longleftrightarrow> sc_done s @ sc_todo s = h \<and> trace_ok A (sc_done s) \<and> pred_option (A (sc_done s)) (sc_stop s)"

text \<open>A call that may be made, and then: nothing more is answered, or the next answer of the trace is given.\<close>

lemma wp_ask:
  assumes "script_ok A h s" "sc_stop s = None \<Longrightarrow> A (sc_done s) c"
    and "\<And>s'. script_ok A h s' \<Longrightarrow> sc_stop s' \<noteq> None \<Longrightarrow> sc_done s' = sc_done s \<Longrightarrow> Q None s'"
    and "\<And>a s'. script_ok A h s' \<Longrightarrow> sc_stop s = None \<Longrightarrow> sc_stop s' = None \<Longrightarrow> sc_done s' = sc_done s @ [(c, a)] \<Longrightarrow> (c, a) \<in> set h
           \<Longrightarrow> Q (Some a) s'"
  shows "wp (ask c) Q s"
  using assms by (auto simp: wp_def ask_def script_ok_def split: list.split prod.split)

section \<open>The walk through the program, call by call\<close>

locale script_server =
  fixes up :: "string \<Rightarrow> uuid option" and pre :: string and limit :: int and h0 :: trace
  assumes nil: "up nil_uuid = Some nil_uuid" and fits: "list_all (answer_fits up limit) h0" and fresh: "distinct (given h0)"

context script_server
begin

abbreviation "sound \<equiv> script_ok (quiet_call up pre) h0"
abbreviation "later \<equiv> \<lambda>s s'. prefix (sc_done s) (sc_done s')"

lemma sound_wp: "by_steps sound (\<lambda>s. s) later m Q \<Longrightarrow> sound s \<Longrightarrow> wp m (\<lambda>x s'. Q x \<and> sound s' \<and> later s s') s"
  by (auto simp: by_steps_def wp_def split: prod.splits)

text \<open>What holds after any call that the discipline allows.\<close>

lemma ask_wp:
  assumes "sound s" "sc_stop s = None \<Longrightarrow> quiet_call up pre (sc_done s) c"
    and "\<And>s'. sound s' \<Longrightarrow> later s s' \<Longrightarrow> sc_stop s' \<noteq> None \<Longrightarrow> Q None s'"
    and "\<And>a s'. sound s' \<Longrightarrow> later s s' \<Longrightarrow> sc_stop s = None \<Longrightarrow> sc_stop s' = None \<Longrightarrow> sc_done s' = sc_done s @ [(c, a)]
           \<Longrightarrow> answer_fits up limit (c, a) \<Longrightarrow> Q (Some a) s'"
  shows "wp (ask c) Q s"
  using assms(1,2)
proof (rule wp_ask)
  fix s' assume "sound s'" "sc_stop s' \<noteq> None" "sc_done s' = sc_done s"
  with assms(3) show "Q None s'" by simp
next
  fix a s' assume s': "sound s'" "sc_stop s = None" "sc_stop s' = None" "sc_done s' = sc_done s @ [(c, a)]" "(c, a) \<in> set h0"
  then have "answer_fits up limit (c, a)" using fits by (auto simp: list_all_iff)
  with assms(4) s' show "Q (Some a) s'" by (simp add: prefix_def)
qed

lemma ask_steps:
  assumes "\<And>h. quiet_call up pre h c" "\<And>a. answer_fits up limit (c, a) \<Longrightarrow> P (f (Some a))" "P (f None)"
  shows "by_steps sound (\<lambda>s. s) later (State_Monad.bind (ask c) (\<lambda>a. State_Monad.return (f a))) P"
  unfolding by_steps_def wp_bind wp_return by (auto intro!: ask_wp assms)

end

sublocale script_server \<subseteq> step_logic sound "\<lambda>s. s" later
  by unfold_locales (auto intro: prefix_order.trans)

context script_server
begin

lemma ask_redis_steps:
  assumes "\<And>h. quiet_command up pre h c"
  shows "by_steps sound (\<lambda>s. s) later (redis script_svc c) (\<lambda>_. True)"
  unfolding redis_def script_svc_def svc.select_convs by (intro steps_then steps_return TrueI ask_steps) (simp_all add: assms)

lemma ask_sql_steps:
  assumes "stmt_fits (\<lambda>i. up i = Some i) st"
  shows "by_steps sound (\<lambda>s. s) later (sql script_svc st) (pred_sum (\<lambda>_. True) (reply_fits (\<lambda>i. up i = Some i)))"
proof -
  have "by_steps sound (\<lambda>s. s) later (sql_do script_svc st) (pred_sum (\<lambda>_. True) (reply_fits (\<lambda>i. up i = Some i)))"
    unfolding script_svc_def svc.select_convs using assms by (intro ask_steps) (auto split: answer.split)
  then show ?thesis
    unfolding sql_def by (rule steps_bind) (auto simp: pred_sum.simps split: sum.splits intro: steps_return)
qed

lemma other_ask_steps:
  "by_steps sound (\<lambda>s. s) later (time_now script_svc) (\<lambda>_. True)"
  "by_steps sound (\<lambda>s. s) later (new_uuid script_svc) (\<lambda>i. up i = Some i)"
  "by_steps sound (\<lambda>s. s) later (http_do script_svc q) (\<lambda>_. True)"
  "by_steps sound (\<lambda>s. s) later (notify_client script_svc n p) (\<lambda>_. True)"
  "by_steps sound (\<lambda>s. s) later (ttl_get script_ttl k) (\<lambda>_. True)"
  "by_steps sound (\<lambda>s. s) later (ttl_exec script_ttl cs) (\<lambda>_. True)"
  "by_steps sound (\<lambda>s. s) later (ttl_now script_ttl) (\<lambda>_. True)"
  unfolding script_svc_def script_ttl_def svc.select_convs ttl_redis.select_convs
  by (intro ask_steps; auto simp: nil split: answer.split)+

text \<open>A script that may store the payload of an occurrence: it was given the identifier and has not stored it.\<close>

definition may_store :: "uuid \<Rightarrow> script \<Rightarrow> bool" where
  "may_store oid s \<longleftrightarrow> sound s \<and> (sc_stop s = None \<longrightarrow> oid \<in> set (given (sc_done s)) \<and> oid \<notin> set (stored up (sc_done s)))"

lemma stored_given: "trace_ok (quiet_call up pre) h \<Longrightarrow> set (stored up h) \<subseteq> set (given h)"
proof (induction h rule: rev_induct)
  case (snoc x h)
  moreover have "oid \<in> set (given h)" if "stored_id up x = Some oid" for oid
    using that snoc.prems by (cases "(up, x)" rule: stored_id.cases) (auto simp: entry_item_def)
  ultimately show ?case by (cases "stored_id up x"; cases "given_id x") (auto simp: given_snoc stored_snoc)
qed (simp add: stored_def map_filter_simps)

lemma new_uuid_stores: "sound s \<Longrightarrow> wp (new_uuid script_svc) (\<lambda>oid s'. may_store oid s' \<and> later s s' \<and> up oid = Some oid) s"
  unfolding script_svc_def svc.select_convs wp_bind wp_return
proof (rule ask_wp, goal_cases)
  case (4 a s')
  then obtain i where a: "a = GotUuid i" "up i = Some i" by (cases a) auto
  have "distinct (given (sc_done s' @ sc_todo s'))" using 4(2) fresh by (simp add: script_ok_def)
  then have "i \<notin> set (given (sc_done s))" by (simp add: 4(6) a given_append given_snoc)
  moreover have "set (stored up (sc_done s)) \<subseteq> set (given (sc_done s))"
    using 4(1) by (intro stored_given) (simp add: script_ok_def)
  ultimately show ?case using 4 by (auto simp: may_store_def a given_snoc stored_snoc)
qed (auto simp: may_store_def nil)

lemma wp_script_redis:
  "wp (ask (CallRedis c)) (\<lambda>a s'. Q (map_sum Errorf id (case a of Some (GotRedis r) \<Rightarrow> r | _ \<Rightarrow> Inl [])) s') s
     \<Longrightarrow> wp (redis script_svc c) Q s"
  by (simp add: redis_def script_svc_def)

text \<open>A command other than storing a payload leaves the permission.\<close>

lemma may_store_wp:
  assumes "may_store oid s" "\<And>h. quiet_command up pre h c" "\<And>a. stored_id up (CallRedis c, a) = None"
    and "\<And>r s'. may_store oid s' \<Longrightarrow> later s s' \<Longrightarrow> Q r s'"
  shows "wp (redis script_svc c) Q s"
proof (rule wp_script_redis, rule ask_wp, goal_cases)
  case (3 s')
  then show ?case using assms(4) by (auto simp: may_store_def)
next
  case (4 a s')
  have "given_id (CallRedis c, a) = None" by simp
  with 4 assms(1,3) have "may_store oid s'" by (auto simp: may_store_def given_snoc stored_snoc)
  with 4(2) assms(4) show ?case by blast
qed (use assms in \<open>auto simp: may_store_def\<close>)

lemma ScheduleEvent_stores:
  assumes m: "marshals up (schedule_of oc ev)" and "oc_attempt_count oc = 0" and s: "may_store (oc_occurrence_id oc) s"
  shows "wp (ScheduleEvent script_svc pre oc ev) (\<lambda>r s'. sound s' \<and> later s s' \<and> (is_ok r \<or> may_store (oc_occurrence_id oc) s')) s"
proof -
  let ?Q = "\<lambda>(r :: unit result) s'. sound s' \<and> later s s' \<and> (is_ok r \<or> may_store (oc_occurrence_id oc) s')"
  let ?k = "schedule_key (ev_id ev) (oc_scheduled_at oc)"
  have sound: "may_store oid s' \<Longrightarrow> sound s'" for oid s' by (simp add: may_store_def)
  have store: "wp (redis script_svc (HSET (pre @ scheduleDataKey) ?k data)) (\<lambda>r s'.
      ((\<exists>e. r = Inl e) \<longrightarrow> sound s' \<and> later s s' \<and> may_store (oc_occurrence_id oc) s') \<and> ((\<exists>x. r = Inr x) \<longrightarrow> sound s' \<and> later s s')) s2"
    if data: "marshal_schedule (schedule_of oc ev) = Inr data" and s2: "may_store (oc_occurrence_id oc) s2" "later s s2" for data s2
  proof (rule wp_script_redis, rule ask_wp, goal_cases)
    case 2
    have "ok_schedule up (schedule_of oc ev)" using m data by (simp add: marshals_def)
    moreover obtain data' where "marshal_schedule (schedule_of oc ev) = Inr data'" "unmarshal_schedule up data' = Inr (schedule_of oc ev)"
      by (rule marshal_schedule_ok [OF calculation])
    ultimately have "good up data" "entry_item up data = (oc_occurrence_id oc, 0)"
      using data assms(2) by (auto simp: good_def entry_item_def schedule_of_def occurrence.defs)
    then show ?case using 2 s2(1) by (auto simp: may_store_def)
  next
    case (3 s')
    then show ?case using s2(2) by (auto simp: may_store_def intro: prefix_order.trans)
  next
    case (4 a s')
    then have "stored_id up (CallRedis (HSET (pre @ scheduleDataKey) ?k data), GotRedis (Inl e)) = None" for e by simp
    from 4 obtain r where a: "a = GotRedis r" by (cases a) auto
    have "later s s'" using s2(2) 4(2) by (rule prefix_order.trans)
    with 4 s2(1) show ?case by (cases r) (auto simp: may_store_def a given_snoc stored_snoc)
  qed (use s2 in \<open>simp add: may_store_def\<close>)
  show ?thesis
    unfolding ScheduleEvent_def Let_def wp_attempt
  proof (rule may_store_wp [OF s], goal_cases)
    case (3 r s1)
    then have "wp (attempt (redis script_svc (ZADD (pre @ ScheduleKey) (unix (oc_scheduled_at oc)) ?k)) (wrap_err ''failed to add schedule to sorted set'')
        (\<lambda>_. attempt (redis script_svc (HSET (pre @ scheduleDataKey) ?k data)) (wrap_err ''failed to add schedule to hash'')
        (\<lambda>_. State_Monad.return (Inr ())))) ?Q s1" if "marshal_schedule (schedule_of oc ev) = Inr data" for data
      unfolding wp_attempt wp_return using that
      by (intro may_store_wp [OF 3(1)]) (auto intro!: store intro: sound prefix_order.trans)
    with 3 sound show ?case by (auto split: sum.split)
  qed simp_all
qed

lemma schedule_attempts_sound:
  assumes "marshals up (schedule_of oc ev)" "oc_attempt_count oc = 0"
  shows "may_store (oc_occurrence_id oc) s \<Longrightarrow> wp (schedule_attempts n script_svc pre oc ev) (\<lambda>_ s'. sound s' \<and> later s s') s"
proof (induction n arbitrary: s)
  case (Suc n)
  show ?case
    unfolding schedule_attempts.simps wp_bind
  proof (rule wp_mono [OF ScheduleEvent_stores [OF assms Suc.prems]], goal_cases)
    case (1 r s1)
    have "wp (schedule_attempts n script_svc pre oc ev) (\<lambda>_ s'. sound s' \<and> later s s') s1" if "may_store (oc_occurrence_id oc) s1"
      using Suc.IH [OF that] by (rule wp_mono) (use 1 in \<open>auto intro: prefix_order.trans\<close>)
    with 1 show ?case by (auto split: sum.split)
  qed
qed (simp add: may_store_def)

lemma schedule_ask_steps:
  assumes "event_fits (\<lambda>i. up i = Some i) ev"
  shows "by_steps sound (\<lambda>s. s) later
      (State_Monad.bind (new_uuid script_svc) (\<lambda>oid. scheduleWithRetry script_svc pre (pending_occurrence oid (ev_id ev) t now) ev)) (\<lambda>_. True)"
  unfolding by_steps_def scheduleWithRetry_def wp_bind
proof (intro allI impI, erule wp_mono [OF new_uuid_stores], goal_cases)
  case (1 s oid s')
  let ?oc = "pending_occurrence oid (ev_id ev) t now"
  have oc: "oc_occurrence_id ?oc = oid" "oc_attempt_count ?oc = 0" by (simp_all add: pending_occurrence_def)
  have "wp (schedule_attempts maxRetries script_svc pre ?oc ev) (\<lambda>_ s''. sound s'' \<and> later s' s'') s'"
    using 1 by (intro schedule_attempts_sound marshals_pending [OF assms]) (simp_all add: oc)
  then show ?case by (rule wp_mono) (use 1 in \<open>auto intro: prefix_order.trans\<close>)
qed

lemma remove_ask_steps: "by_steps sound (\<lambda>s. s) later (RemoveEventOccurrencesFromRedis up script_svc pre i) (\<lambda>_. True)"
proof -
  have "by_steps sound (\<lambda>s. s) later (remove_if_of up script_svc pre i k) (\<lambda>_. True)" for k
    unfolding remove_if_of_def by (intro stepping ask_redis_steps) (auto intro!: stepping ask_redis_steps split: rreply.split)
  then show ?thesis unfolding RemoveEventOccurrencesFromRedis_def by (intro stepping ask_redis_steps) simp_all
qed

end

sublocale script_server \<subseteq> server_logic sound "\<lambda>s. s" later script_svc up pre "\<lambda>i. up i = Some i" script_ttl
proof unfold_locales
  show "string_command c \<Longrightarrow> by_steps sound (\<lambda>s. s) later (redis script_svc c) (\<lambda>_. True)" for c
    by (rule ask_redis_steps) (cases c; simp)
qed (rule ask_sql_steps other_ask_steps schedule_ask_steps remove_ask_steps; assumption?)+

sublocale script_server \<subseteq> dispatch_logic sound "\<lambda>s. s" later script_svc up pre "\<lambda>i. up i = Some i"
proof unfold_locales
  show "removal_command c \<Longrightarrow> by_steps sound (\<lambda>s. s) later (redis script_svc c) (\<lambda>_. True)" for c
    by (rule ask_redis_steps) (cases c; simp)
qed (rule other_ask_steps)+

section \<open>The discipline of each task\<close>

lemma script_ok_mono: "script_ok A h s \<Longrightarrow> (\<And>h' c. A h' c \<Longrightarrow> B h' c) \<Longrightarrow> script_ok B h s"
  by (auto simp: script_ok_def trace_ok_def pred_option_def split: option.splits)

lemma quiet_no_retry: "quiet_call up pre h (fst x) \<Longrightarrow> \<not> is_retry pre x"
  by (cases "(pre, x)" rule: is_retry.cases) (auto simp: retry_key_other)

context script_server
begin

lemma trace_no_retry: "trace_ok (quiet_call up pre) h \<Longrightarrow> \<not> list_ex (is_retry pre) h"
  by (induction h rule: rev_induct) (auto dest: quiet_no_retry)

lemma loop_turns_steps:
  "q = pre \<Longrightarrow> by_steps sound (\<lambda>s. s) later (GetDueSchedules script_svc q) (\<lambda>_. True)"
  "di_prefix D = pre \<Longrightarrow> by_steps sound (\<lambda>s. s) later (poller_turn script_svc D) (\<lambda>_. True)"
  unfolding GetDueSchedules_def poller_turn_def
  by (intro steps_then [OF time_steps] steps_attempt_then steps_ignore ask_redis_steps steps_return TrueI; auto)+

lemma quiet_task_steps:
  assumes "sv_uuid G = up" "ex_prefix (sv_expander G) = pre" "di_prefix (sv_dispatcher G) = pre"
    "t \<noteq> WorkerTurn" "\<And>ev. t = Job ev \<Longrightarrow> event_fits (\<lambda>i. up i = Some i) ev"
  shows "by_steps sound (\<lambda>s. s) later (task_code (scripted G) t) (pred_option (event_fits (\<lambda>i. up i = Some i)))"
proof -
  have s: "sv_svc (scripted G) = script_svc" "sv_ttl (scripted G) = script_ttl" "sv_uuid (scripted G) = up"
    "ex_prefix (sv_expander (scripted G)) = pre" "di_prefix (sv_dispatcher (scripted G)) = pre"
    "sv_expander (scripted G) = sv_expander G"
    by (simp_all add: scripted_def assms(1-3))
  have serve: "by_steps sound (\<lambda>s. s) later (serve (scripted G) q) (job_fits (\<lambda>i. up i = Some i))" for q
    by (rule serve_steps) (simp_all add: s assms(2))
  show ?thesis
    using assms(4,5)
    by (cases t) (auto simp: s task_code_def job_fits_def intro!: assms(2) steps_then steps_return steps_bind [OF serve] background_steps loop_turns_steps
        ExpandEvents_steps archive_cycle_steps)
qed

text \<open>A worker: its item can be put back once, with one more attempt.\<close>

lemma held_by_worker:
  assumes "sound s" "prefix [(CallRedis (BRPOP q), GotRedis (Inr (RArr [k, v])))] (sc_done s)"
  shows "held up pre limit (sc_done s) = next_try up limit v"
proof -
  have "\<not> list_ex (is_retry pre) (sc_done s)" using assms(1) by (intro trace_no_retry) (simp add: script_ok_def)
  with assms(2) show ?thesis by (auto simp: held_def prefix_def)
qed

lemma retry_later_may:
  assumes D: "di_prefix D = pre" "di_maxRetries D = limit" and lim: "is_int64 limit"
    and v: "unmarshal_schedule up v = Inr sched" "good up v" "snd (entry_item up v) < max 1 limit"
    and s: "sound s" "prefix [(CallRedis (BRPOP q), GotRedis (Inr (RArr [k, v])))] (sc_done s)"
  shows "wp (retry_later script_svc D sched) (\<lambda>_. script_ok (may_call up pre limit) h0) s"
proof -
  have mono: "script_ok (may_call up pre limit) h0 s'" if "sound s'" for s'
    using that by (rule script_ok_mono) (simp add: may_call_def)
  have e: "entry_item up v = (oc_occurrence_id sched, oc_attempt_count sched)" and sok: "ok_schedule up sched"
    using v(1,2) by (auto simp: entry_item_def good_def)
  have a: "is_int64 (oc_attempt_count sched)" "oc_attempt_count sched < max 1 limit"
    using sok v(3) by (simp_all add: ok_schedule_def e)
  then have w: "wrap64 (oc_attempt_count sched + 1) = oc_attempt_count sched + 1"
    using lim by (intro wrap64_id) (auto simp: is_int64_def max_def split: if_splits)
  have put: "wp (redis script_svc (ZADD (pre @ retryQueueKey) t data)) (\<lambda>_. script_ok (may_call up pre limit) h0) s'"
    if m: "marshal_schedule (sched\<lparr>oc_attempt_count := oc_attempt_count sched + 1\<rparr>) = Inr data" "oc_attempt_count sched + 1 < limit"
      and s': "sound s'" "later s s'" for t data s'
  proof -
    have "ok_schedule up (sched\<lparr>oc_attempt_count := oc_attempt_count sched + 1\<rparr>)"
      using sok w m(2) lim a by (auto simp: ok_schedule_def is_int64_def)
    then have "unmarshal_schedule up data = Inr (sched\<lparr>oc_attempt_count := oc_attempt_count sched + 1\<rparr>)"
      by (rule marshal_schedule_ok) (use m(1) in simp)
    then have data: "good up data" "entry_item up data = (oc_occurrence_id sched, oc_attempt_count sched + 1)"
      using \<open>ok_schedule up (sched\<lparr>oc_attempt_count := oc_attempt_count sched + 1\<rparr>)\<close> by (auto simp: good_def entry_item_def)
    have "held up pre limit (sc_done s') = next_try up limit v"
      using s(2) s'(2) by (intro held_by_worker [OF s'(1)]) (rule prefix_order.trans)
    then have "may_call up pre limit (sc_done s') (CallRedis (ZADD (pre @ retryQueueKey) t data))"
      using data m(2) by (simp add: may_call_def next_try_def e)
    then show ?thesis
      by (intro wp_script_redis wp_ask [OF mono [OF s'(1)]]) auto
  qed
  show ?thesis
    unfolding retry_later_def Let_def w D
  proof (cases "limit \<le> oc_attempt_count sched + 1"; simp only: if_True if_False wp_return)
    case True
    then show "script_ok (may_call up pre limit) h0 s" by (simp add: mono s(1))
  next
    case False
    have time: "wp (time_now script_svc) (\<lambda>_ s'. sound s' \<and> later s s') s"
      using sound_wp [OF time_steps s(1)] by simp
    show "wp (case marshal_schedule (sched\<lparr>oc_attempt_count := oc_attempt_count sched + 1\<rparr>) of Inl _ \<Rightarrow> State_Monad.return ()
      | Inr updatedData \<Rightarrow> do { now \<leftarrow> time_now script_svc;
          ignore (redis script_svc (ZADD (pre @ retryQueueKey) (unix (add_dur now (di_retryDelay D))) updatedData)) })
      (\<lambda>_. script_ok (may_call up pre limit) h0) s"
      using False by (auto simp: mono s(1) split: sum.split intro!: wp_mono [OF time] put)
  qed
qed

lemma worker_turn_may:
  assumes D: "di_prefix D = pre" "di_maxRetries D = limit" and lim: "is_int64 limit"
  shows "wp (worker_turn up script_svc D) (\<lambda>_. script_ok (may_call up pre limit) h0) (fresh_script h0)"
proof -
  have mono: "script_ok (may_call up pre limit) h0 s'" if "sound s'" for s'
    using that by (rule script_ok_mono) (simp add: may_call_def)
  have item: "wp (process_item up script_svc D v) (\<lambda>_. script_ok (may_call up pre limit) h0) s"
    if "sound s" "sc_done s = [(CallRedis (BRPOP q), GotRedis (Inr (RArr [k, v])))]" "good up v" "snd (entry_item up v) < max 1 limit"
    for v q k s
  proof -
    from that(3) obtain sched where sched: "unmarshal_schedule up v = Inr sched" by (auto simp: good_def)
    have "wp (DispatchAction script_svc D sched) (\<lambda>_ s'. sound s' \<and> later s s') s"
      using sound_wp [OF DispatchAction_steps that(1)] by simp
    then show ?thesis
      unfolding process_item_def sched sum.case wp_bind
      by (rule wp_mono) (use that in \<open>auto simp: mono split: sum.split intro!: retry_later_may [OF D lim sched that(3,4)]\<close>)
  qed
  have start: "sound (fresh_script h0)" by (simp add: script_ok_def fresh_script_def)
  show ?thesis
    unfolding worker_turn_def wp_bind D(1)
  proof (rule wp_script_redis, rule ask_wp [OF start], goal_cases)
    case (2 s')
    then show ?case by (simp add: mono)
  next
    case (3 a s')
    then obtain r where a: "a = GotRedis r" by (cases a) auto
    show ?case
    proof (cases "\<exists>k v. r = Inr (RArr [k, v])")
      case True
      then obtain k v where "r = Inr (RArr [k, v])" by blast
      with 3 a show ?thesis by (simp add: item fresh_script_def)
    next
      case False
      then have "(case map_sum Errorf id r of Inr (RArr [k, v]) \<Rightarrow> f v | _ \<Rightarrow> g) = g" for f :: "string \<Rightarrow> (script, unit) state" and g
        by (cases r) (auto split: rreply.split list.split)
      with 3(1) a show ?thesis by (simp add: mono)
    qed
  qed (simp add: fresh_script_def)
qed

lemma task_script:
  assumes G: "sv_uuid G = up" "ex_prefix (sv_expander G) = pre" "di_prefix (sv_dispatcher G) = pre"
    "di_maxRetries (sv_dispatcher G) = limit" "is_int64 limit"
    and job: "\<And>ev. t = Job ev \<Longrightarrow> event_fits (\<lambda>i. up i = Some i) ev"
  shows "wp (task_code (scripted G) t) (\<lambda>r s. script_ok (may_call up pre limit) h0 s \<and> pred_option (event_fits (\<lambda>i. up i = Some i)) r)
      (fresh_script h0)"
proof (cases "t = WorkerTurn")
  case True
  have "wp (worker_turn up script_svc (sv_dispatcher G)) (\<lambda>_ s. script_ok (may_call up pre limit) h0 s) (fresh_script h0)"
    using G(3-5) by (rule worker_turn_may)
  then show ?thesis using G(1) by (simp add: True task_code_def scripted_def)
next
  case False
  have start: "sound (fresh_script h0)" by (simp add: script_ok_def fresh_script_def)
  show ?thesis
    by (rule wp_mono [OF sound_wp [OF quiet_task_steps [OF G(1-3) False job] start]])
      (auto intro: script_ok_mono simp: may_call_def)
qed

end

text \<open>So the next call of a thread whose answers fit is one that the discipline allows, and what it leaves to a goroutine fits.\<close>

definition task_fits :: "(string \<Rightarrow> uuid option) \<Rightarrow> task \<Rightarrow> bool" where
  "task_fits up t \<longleftrightarrow> (case t of Job ev \<Rightarrow> event_fits (\<lambda>i. up i = Some i) ev | _ \<Rightarrow> True)"

definition server_fits :: "'w server \<Rightarrow> bool" where
  "server_fits G \<longleftrightarrow> ex_prefix (sv_expander G) = di_prefix (sv_dispatcher G) \<and> is_int64 (di_maxRetries (sv_dispatcher G))
     \<and> sv_uuid G nil_uuid = Some nil_uuid"

lemma thread_calls:
  fixes G :: "'w server"
  defines "up \<equiv> sv_uuid G" and "pre \<equiv> di_prefix (sv_dispatcher G)" and "limit \<equiv> di_maxRetries (sv_dispatcher G)"
  assumes "server_fits G" "task_fits up t" "list_all (answer_fits up limit) h" "distinct (given h)"
  shows "next_call G t h = Some c \<Longrightarrow> may_call up pre limit h c \<and> trace_ok (may_call up pre limit) h"
    "finished G t h = Some (Some ev) \<Longrightarrow> event_fits (\<lambda>i. up i = Some i) ev"
proof -
  have G: "sv_uuid G = up" "ex_prefix (sv_expander G) = pre" "di_prefix (sv_dispatcher G) = pre" "di_maxRetries (sv_dispatcher G) = limit"
    "is_int64 limit" "up nil_uuid = Some nil_uuid"
    using assms(4) by (simp_all add: server_fits_def assms(1-3))
  have S: "script_server up limit h" by unfold_locales (rule G(6) assms(6,7))+
  have job: "event_fits (\<lambda>i. up i = Some i) ev" if "t = Job ev" for ev using assms(5) by (simp add: task_fits_def that)
  have "wp (task_code (scripted G) t) (\<lambda>r s. script_ok (may_call up pre limit) h s \<and> pred_option (event_fits (\<lambda>i. up i = Some i)) r)
      (fresh_script h)"
    by (rule script_server.task_script [OF S G(1-5) job])
  then have r: "script_ok (may_call up pre limit) h (snd (replay G t h))" "pred_option (event_fits (\<lambda>i. up i = Some i)) (fst (replay G t h))"
    by (simp_all add: wp_def replay_def case_prod_unfold)
  show "next_call G t h = Some c \<Longrightarrow> may_call up pre limit h c \<and> trace_ok (may_call up pre limit) h"
    using r(1) by (auto simp: next_call_def Let_def script_ok_def split: if_splits)
  show "finished G t h = Some (Some ev) \<Longrightarrow> event_fits (\<lambda>i. up i = Some i) ev"
    using r(2) by (auto simp: finished_def case_prod_unfold split: if_splits)
qed

text \<open>A thread that has made no call yet.\<close>

interpretation demo_script: script_server Some "[]" 3 "[]"
  by unfold_locales (simp_all add: given_def map_filter_simps)

end
