(* ===== verification/Interleaving.thy ===== *)
theory Interleaving
  imports Threads
begin

text \<open>
  The server with its service calls interleaved: any number of threads, each making its next call at any time, ending, or dying.
  Requests, turns of the loops and workers start at any time, in one process or in several on the same stores. Unlike
  in \<open>Server.server_step\<close>, nothing but a single call (a command or a script of Redis, a statement of PostgreSQL) is atomic.
  The machine still refines the pipeline, provided a failed \<open>HSET\<close> has not happened: scheduling is
  repeated after a timeout, and \<open>lost_reply_enters_twice\<close> shows what happens when the entry had been stored and moved on.
\<close>

section \<open>The machine\<close>

text \<open>\<open>mc_log\<close> is history: the calls made so far with their answers. No step depends on it.\<close>

record 'w machine =
  mc_world :: 'w
  mc_threads :: "thread multiset"
  mc_log :: trace

text \<open>A goroutine that runs an event's expansion is started by a handler only.\<close>

definition starts :: "task \<Rightarrow> bool" where
  "starts t \<longleftrightarrow> (case t of Job _ \<Rightarrow> False | _ \<Rightarrow> True)"

inductive machine_step :: "'w server \<Rightarrow> ('w \<Rightarrow> 'w \<Rightarrow> bool) \<Rightarrow> 'w machine \<Rightarrow> 'w machine \<Rightarrow> bool" for G env where
  spawn: "starts t \<Longrightarrow> machine_step G env p (p\<lparr>mc_threads := add_mset (t, []) (mc_threads p)\<rparr>)"
| call: "(t, h) \<in># mc_threads p \<Longrightarrow> next_call G t h = Some c \<Longrightarrow> run_state (perform G c) (mc_world p) = (a, w') \<Longrightarrow>
    machine_step G env p (p\<lparr>mc_world := w', mc_threads := add_mset (t, h @ [(c, a)]) (mc_threads p - {#(t, h)#}),
      mc_log := mc_log p @ [(c, a)]\<rparr>)"
| return: "(t, h) \<in># mc_threads p \<Longrightarrow> finished G t h = Some job \<Longrightarrow>
    machine_step G env p (p\<lparr>mc_threads := (case job of None \<Rightarrow> {#} | Some ev \<Rightarrow> {#(Job ev, [])#}) + (mc_threads p - {#(t, h)#})\<rparr>)"
| die: "x \<in># mc_threads p \<Longrightarrow> machine_step G env p (p\<lparr>mc_threads := mc_threads p - {#x#}\<rparr>)"
| outside: "env (mc_world p) w' \<Longrightarrow> machine_step G env p (p\<lparr>mc_world := w'\<rparr>)"

inductive machine_run :: "'w server \<Rightarrow> ('w \<Rightarrow> 'w \<Rightarrow> bool) \<Rightarrow> 'w machine \<Rightarrow> 'w machine \<Rightarrow> bool" for G env where
  start: "machine_run G env p p"
| next_step: "machine_run G env p p' \<Longrightarrow> machine_step G env p' p'' \<Longrightarrow> machine_run G env p p''"

section \<open>The pipeline in the machine\<close>

text \<open>
  An item waits while its payload is stored, whether its key is in the sorted set already or not; what a worker may still put into
  the retry queue counts as there. A dispatch is counted when its item is popped.
\<close>

definition stored_payloads :: "string \<Rightarrow> rdata \<Rightarrow> string \<Rightarrow> string option" where
  "stored_payloads pre d = rd_hashes d (pre @ scheduleDataKey)"

definition stored_items :: "(string \<Rightarrow> uuid option) \<Rightarrow> string \<Rightarrow> rdata \<Rightarrow> item multiset" where
  "stored_items up pre d = image_mset (\<lambda>k. entry_item up (the (stored_payloads pre d k))) (mset_set (dom (stored_payloads pre d)))"

definition data_pipeline :: "(string \<Rightarrow> uuid option) \<Rightarrow> string \<Rightarrow> rdata \<Rightarrow> item multiset \<Rightarrow> uuid set \<Rightarrow> string list \<Rightarrow> pipeline" where
  "data_pipeline up pre d H used turned =
     \<lparr>waiting = stored_items up pre d, queued = image_mset (entry_item up) (mset (dispatch_queue pre d)), busy = {#},
      retrying = image_mset (entry_item up) (mset (retry_queue pre d)) + H, entered = used, turns = turned\<rparr>"

definition all_held :: "(string \<Rightarrow> uuid option) \<Rightarrow> string \<Rightarrow> int \<Rightarrow> thread multiset \<Rightarrow> item multiset" where
  "all_held up pre limit T = \<Sum>\<^sub># (image_mset (\<lambda>x. held up pre limit (snd x)) T)"

definition all_given :: "thread multiset \<Rightarrow> uuid multiset" where
  "all_given T = \<Sum>\<^sub># (image_mset (\<lambda>x. mset (given (snd x))) T)"

lemma all_simps [simp]:
  "all_held up pre limit {#} = {#}" "all_held up pre limit (add_mset x T) = held up pre limit (snd x) + all_held up pre limit T"
  "all_held up pre limit (T + T') = all_held up pre limit T + all_held up pre limit T'"
  "all_given {#} = {#}" "all_given (add_mset x T) = mset (given (snd x)) + all_given T" "all_given (T + T') = all_given T + all_given T'"
  by (simp_all add: all_held_def all_given_def)

definition data_ok :: "(string \<Rightarrow> uuid option) \<Rightarrow> string \<Rightarrow> rdata \<Rightarrow> bool" where
  "data_ok up pre d \<longleftrightarrow> finite (dom (stored_payloads pre d))
     \<and> (\<forall>v \<in> ran (stored_payloads pre d) \<union> set (dispatch_queue pre d) \<union> set (retry_queue pre d). good up v)"

section \<open>What a call does to the data\<close>

lemma lose_retrying: "M \<subseteq># retrying p \<Longrightarrow> pipe_steps limit p (p\<lparr>retrying := retrying p - M\<rparr>)"
  using pipe_steps.go [OF pipe_steps_one [OF pipe_step.come_back [of M p limit]] pipe_step.lose_queued [of _ _ M]] by simp

lemma stored_items_upd:
  assumes "finite (dom (stored_payloads pre d))" "stored_payloads pre d' = (stored_payloads pre d)(k := x)"
  shows "stored_items up pre d' = (case x of None \<Rightarrow> {#} | Some v \<Rightarrow> {#entry_item up v#})
     + (stored_items up pre d - (case stored_payloads pre d k of None \<Rightarrow> {#} | Some v \<Rightarrow> {#entry_item up v#}))"
proof -
  let ?f = "stored_payloads pre d" and ?A = "dom (stored_payloads pre d) - {k}"
  let ?M = "image_mset (\<lambda>j. entry_item up (the (?f j))) (mset_set ?A)"
  have fin: "finite ?A" using assms(1) by simp
  have old: "stored_items up pre d = (case ?f k of None \<Rightarrow> {#} | Some v \<Rightarrow> {#entry_item up v#}) + ?M"
  proof (cases "?f k")
    case None
    then have "?A = dom ?f" by auto
    then show ?thesis by (simp add: stored_items_def None)
  next
    case (Some v)
    then have "mset_set (dom ?f) = add_mset k (mset_set ?A)" using assms(1) by (intro mset_set.remove) auto
    then show ?thesis by (simp add: stored_items_def Some)
  qed
  have same: "image_mset (\<lambda>j. entry_item up (the ((?f(k := x)) j))) (mset_set ?A) = ?M"
    using fin by (intro image_mset_cong) auto
  have new: "stored_items up pre d' = (case x of None \<Rightarrow> {#} | Some v \<Rightarrow> {#entry_item up v#}) + ?M"
  proof (cases x)
    case None
    then have "dom (?f(k := x)) = ?A" by auto
    then show ?thesis using same by (simp add: stored_items_def assms(2) None)
  next
    case (Some v)
    then have "dom (?f(k := x)) = insert k ?A" by auto
    then show ?thesis using same fin by (simp add: stored_items_def assms(2) Some del: insert_Diff_single fun_upd_apply) simp
  qed
  show ?thesis by (simp add: old new)
qed

lemma stored_items_less:
  assumes "finite (dom (stored_payloads pre d))"
    "\<And>k. stored_payloads pre d' k = (if k \<in> K then None else stored_payloads pre d k)"
  shows "stored_items up pre d = stored_items up pre d'
     + image_mset (\<lambda>k. entry_item up (the (stored_payloads pre d k))) (mset_set (dom (stored_payloads pre d) \<inter> K))"
proof -
  let ?f = "\<lambda>k. entry_item up (the (stored_payloads pre d k))"
  have "dom (stored_payloads pre d) = dom (stored_payloads pre d') \<union> dom (stored_payloads pre d) \<inter> K"
    "dom (stored_payloads pre d') \<inter> (dom (stored_payloads pre d) \<inter> K) = {}"
    using assms(2) by (auto simp: dom_def)
  moreover have fin: "finite (dom (stored_payloads pre d'))" using assms by (auto simp: dom_def elim: rev_finite_subset)
  ultimately have "mset_set (dom (stored_payloads pre d)) = mset_set (dom (stored_payloads pre d')) + mset_set (dom (stored_payloads pre d) \<inter> K)"
    using assms(1) by (metis mset_set_Union finite_Int)
  moreover have "image_mset ?f (mset_set (dom (stored_payloads pre d'))) = stored_items up pre d'"
    unfolding stored_items_def by (rule image_mset_cong) (use assms(2) fin in \<open>auto split: if_splits\<close>)
  ultimately show ?thesis by (simp add: stored_items_def)
qed

text \<open>The mover's script: the stored payloads whose keys are due go to the queue.\<close>

lemma mover_pipeline:
  assumes "rdata_ok d" "data_ok up pre d"
    "d' = call (EVAL (scheduleLua (pre @ ScheduleKey) (pre @ scheduleDataKey) (pre @ dispatchQueueKey) now)) d"
  shows "pipe_steps limit (data_pipeline up pre d H used turned) (data_pipeline up pre d' H used turned) \<and> data_ok up pre d'"
proof -
  let ?ks = "due_keys pre now d" and ?f = "stored_payloads pre d"
  have d': "d' = move_entries pre now d" by (simp add: assms(3) move_entries_def call_def)
  note r = move_entries_result [OF assms(1), of pre now, folded d']
  have f': "stored_payloads pre d' k = (if k \<in> set ?ks then None else ?f k)" for k by (simp add: stored_payloads_def r(2))
  have q': "dispatch_queue pre d' = dispatch_queue pre d @ List.map_filter ?f ?ks" by (simp add: r(3) stored_payloads_def)
  have retry: "retry_queue pre d' = retry_queue pre d"
  proof -
    obtain n' e where mv: "lua_move (pre @ ScheduleKey) (pre @ scheduleDataKey) (pre @ dispatchQueueKey) ?ks 0 d = (n', e)" by fastforce
    then have "d' = e" by (simp add: d' move_entries_def scheduleLua_def due_keys_def)
    with lua_move_result [OF due_keys(1) [OF assms(1)] mv] show ?thesis by (simp add: retry_queue_def retry_key_other)
  qed
  have fin: "finite (dom ?f)" using assms(2) by (simp add: data_ok_def)
  have "filter (\<lambda>k. ?f k \<noteq> None) ?ks = filter (\<lambda>k. k \<in> dom ?f) ?ks" by (simp add: dom_def)
  then have mf: "List.map_filter ?f ?ks = map (\<lambda>k. the (?f k)) (filter (\<lambda>k. k \<in> dom ?f) ?ks)"
    by (simp add: map_filter_def comp_def)
  have "mset (filter (\<lambda>k. k \<in> dom ?f) ?ks) = mset_set (dom ?f \<inter> set ?ks)"
  proof -
    have "set (filter (\<lambda>k. k \<in> dom ?f) ?ks) = dom ?f \<inter> set ?ks" by auto
    moreover have "distinct (filter (\<lambda>k. k \<in> dom ?f) ?ks)" using due_keys(1) [OF assms(1)] by simp
    ultimately show ?thesis by (metis mset_set_set)
  qed
  then have moved: "image_mset (entry_item up) (mset (List.map_filter ?f ?ks)) = image_mset (\<lambda>k. entry_item up (the (?f k))) (mset_set (dom ?f \<inter> set ?ks))"
    (is "_ = ?M") by (simp add: mf multiset.map_comp comp_def)
  have "stored_items up pre d = stored_items up pre d' + ?M" by (rule stored_items_less [OF fin f'])
  then have "pipe_step limit (data_pipeline up pre d H used turned) (data_pipeline up pre d' H used turned)"
    using pipe_step.fall_due [of ?M "data_pipeline up pre d H used turned" limit] by (simp add: data_pipeline_def q' retry moved)
  moreover have "set (List.map_filter ?f ?ks) \<subseteq> ran ?f" by (auto simp: mf ran_def)
  then have "data_ok up pre d'"
    using assms(2) fin by (auto simp: data_ok_def q' retry f' ran_def dom_def elim: rev_finite_subset split: if_splits)
  ultimately show ?thesis by blast
qed

text \<open>The poller's script: due members of the retry set go to the queue.\<close>

lemma poller_pipeline:
  assumes "rdata_ok d" "data_ok up pre d" "d' = call (EVAL (retryLua (pre @ retryQueueKey) (pre @ dispatchQueueKey) now)) d"
  shows "pipe_steps limit (data_pipeline up pre d H used turned) (data_pipeline up pre d' H used turned) \<and> data_ok up pre d'"
proof -
  let ?z = "rd_zsets d (pre @ retryQueueKey)"
  let ?due = "zrange_by_score None now ?z"
  have d': "d' = lua_retry (pre @ retryQueueKey) (pre @ dispatchQueueKey) ?due d" by (simp add: assms(3) call_def retryLua_def Let_def)
  have split: "mset (retry_queue pre d) = mset ?due + mset (retry_queue pre d')"
    using retry_range_split [of ?z now] assms(1) by (simp add: d' lua_retry_result retry_queue_def rdata_ok_def)
  have e: "stored_payloads pre d' = stored_payloads pre d" "dispatch_queue pre d' = dispatch_queue pre d @ ?due"
    by (simp_all add: d' lua_retry_result stored_payloads_def dispatch_queue_def)
  have "pipe_step limit (data_pipeline up pre d H used turned) (data_pipeline up pre d' H used turned)"
    using pipe_step.come_back [of "image_mset (entry_item up) (mset ?due)" "data_pipeline up pre d H used turned" limit]
    by (simp add: data_pipeline_def stored_items_def e split)
  moreover have "set (retry_queue pre d) = set ?due \<union> set (retry_queue pre d')"
    using arg_cong [OF split, of set_mset] by simp
  then have "data_ok up pre d'" using assms(2) by (auto simp: data_ok_def e)
  ultimately show ?thesis by blast
qed

text \<open>What a call on Redis does, by the law of the services: its effect with its reply, or an error with or without the effect.\<close>

definition served :: "rcmd \<Rightarrow> rdata \<Rightarrow> string + rreply \<Rightarrow> rdata \<Rightarrow> bool" where
  "served c d r d' \<longleftrightarrow> (case r of Inr x \<Rightarrow> redis_sem c d = (x, d') | Inl _ \<Rightarrow> d' = d \<or> d' = call c d)"

lemma served_cases: "served c d r d' \<Longrightarrow> d' = d \<or> d' = call c d"
  by (auto simp: served_def call_def split: sum.splits)

definition turn_of :: "(string \<Rightarrow> uuid option) \<Rightarrow> service_call \<times> answer \<Rightarrow> string list" where
  "turn_of up x = (case popped [x] of None \<Rightarrow> [] | Some v \<Rightarrow> [fst (entry_item up v)])"

lemma turn_of_other: "(\<And>k. c \<noteq> CallRedis (BRPOP k)) \<Longrightarrow> turn_of up (c, a) = []"
  by (cases "[(c, a)]" rule: popped.cases) (auto simp: turn_of_def)

lemma held_snoc:
  assumes "\<And>k. c \<noteq> CallRedis (BRPOP k)" "\<not> is_retry pre (c, a)"
  shows "held up pre limit (h @ [(c, a)]) = held up pre limit h"
proof (cases h)
  case Nil
  have "popped [(c, a)] = None" using assms(1) by (cases "[(c, a)]" rule: popped.cases) auto
  then show ?thesis by (simp add: held_def Nil)
next
  case (Cons x h')
  have "popped (h @ [(c, a)]) = popped h" by (cases h rule: popped.cases) (auto simp: Cons)
  moreover have "list_ex (is_retry pre) (h @ [(c, a)]) = list_ex (is_retry pre) h" using assms(2) by (auto simp: list_ex_iff)
  ultimately show ?thesis by (simp add: held_def split: option.split)
qed

lemma data_pipeline_cong:
  "stored_payloads pre d' = stored_payloads pre d \<Longrightarrow> dispatch_queue pre d' = dispatch_queue pre d \<Longrightarrow> retry_queue pre d' = retry_queue pre d
     \<Longrightarrow> data_pipeline up pre d' H used turned = data_pipeline up pre d H used turned \<and> data_ok up pre d' = data_ok up pre d"
  by (simp add: data_pipeline_def stored_items_def data_ok_def)

text \<open>A payload is stored: the one it replaces is lost, its own item enters.\<close>

lemma store_pipeline:
  assumes "data_ok up pre d" "good up v" "entry_item up v = (oid, 0)" "oid \<notin> used"
    "d' = call (HSET (pre @ scheduleDataKey) k v) d"
  shows "pipe_steps limit (data_pipeline up pre d H used turned) (data_pipeline up pre d' H (insert oid used) turned) \<and> data_ok up pre d'"
proof -
  let ?old = "case stored_payloads pre d k of None \<Rightarrow> {#} | Some v \<Rightarrow> {#entry_item up v#}"
  let ?p = "data_pipeline up pre d H used turned"
  have e: "stored_payloads pre d' = (stored_payloads pre d)(k \<mapsto> v)" "dispatch_queue pre d' = dispatch_queue pre d"
    "retry_queue pre d' = retry_queue pre d"
    by (simp_all add: assms(5) stored_payloads_def dispatch_queue_def retry_queue_def)
  have "stored_items up pre d' = add_mset (oid, 0) (stored_items up pre d - ?old)"
    using stored_items_upd [OF _ e(1)] assms(1,3) by (simp add: data_ok_def)
  then have "pipe_step limit (?p\<lparr>waiting := waiting ?p - ?old\<rparr>) (data_pipeline up pre d' H (insert oid used) turned)"
    using pipe_step.enter [of oid "?p\<lparr>waiting := waiting ?p - ?old\<rparr>" limit] assms(4) by (simp add: data_pipeline_def e)
  with pipe_step.lose_waiting have "pipe_steps limit ?p (data_pipeline up pre d' H (insert oid used) turned)"
    by (blast intro: pipe_steps.go)
  moreover have "data_ok up pre d'" using assms(1,2) by (auto simp: data_ok_def e ran_def split: if_splits)
  ultimately show ?thesis by blast
qed

lemma drop_pipeline:
  assumes "data_ok up pre d" "d' = call (HDEL q k) d"
  shows "pipe_steps limit (data_pipeline up pre d H used turned) (data_pipeline up pre d' H used turned) \<and> data_ok up pre d'"
proof (cases "q = pre @ scheduleDataKey")
  case True
  have e: "stored_payloads pre d' = (stored_payloads pre d)(k := None)" "dispatch_queue pre d' = dispatch_queue pre d"
    "retry_queue pre d' = retry_queue pre d"
    by (simp_all add: assms(2) True stored_payloads_def dispatch_queue_def retry_queue_def)
  let ?old = "case stored_payloads pre d k of None \<Rightarrow> {#} | Some v \<Rightarrow> {#entry_item up v#}"
  have "stored_items up pre d' = stored_items up pre d - ?old"
    using stored_items_upd [OF _ e(1)] assms(1) by (simp add: data_ok_def)
  then have "pipe_step limit (data_pipeline up pre d H used turned) (data_pipeline up pre d' H used turned)"
    using pipe_step.lose_waiting [of limit "data_pipeline up pre d H used turned" ?old] by (simp add: data_pipeline_def e)
  moreover have "data_ok up pre d'" using assms(1) by (auto simp: data_ok_def e ran_def split: if_splits)
  ultimately show ?thesis by blast
next
  case False
  have "data_pipeline up pre d' H used turned = data_pipeline up pre d H used turned \<and> data_ok up pre d' = data_ok up pre d"
    by (rule data_pipeline_cong) (use False in \<open>auto simp: assms(2) stored_payloads_def dispatch_queue_def retry_queue_def\<close>)
  with assms(1) show ?thesis by simp
qed

lemma unlist_pipeline:
  assumes "rdata_ok d" "data_ok up pre d" "d' = call (ZREM q k) d"
  shows "pipe_steps limit (data_pipeline up pre d H used turned) (data_pipeline up pre d' H used turned) \<and> data_ok up pre d'"
proof -
  have e: "stored_payloads pre d' = stored_payloads pre d" "dispatch_queue pre d' = dispatch_queue pre d"
    by (simp_all add: assms(3) stored_payloads_def dispatch_queue_def)
  have less: "mset (retry_queue pre d') \<subseteq># mset (retry_queue pre d)"
    by (simp add: assms(3) retry_queue_def zmembers_zrem multiset_filter_subset)
  then obtain M where M: "mset (retry_queue pre d) = mset (retry_queue pre d') + M" by (auto simp: subset_mset.le_iff_add)
  let ?p = "data_pipeline up pre d H used turned" and ?M = "image_mset (entry_item up) M"
  have split: "retrying ?p = ?M + retrying (data_pipeline up pre d' H used turned)" by (simp add: data_pipeline_def M)
  then have "?p\<lparr>retrying := retrying ?p - ?M\<rparr> = data_pipeline up pre d' H used turned"
    unfolding split by (simp add: data_pipeline_def stored_items_def e)
  with lose_retrying [of ?M ?p limit] split have "pipe_steps limit ?p (data_pipeline up pre d' H used turned)" by simp
  moreover have "set (retry_queue pre d') \<subseteq> set (retry_queue pre d)" using set_mset_mono [OF less] by simp
  then have "data_ok up pre d'" using assms(2) by (auto simp: data_ok_def e)
  ultimately show ?thesis by blast
qed

text \<open>A worker's pop: an item is taken and has its turn; what may become of it later is held.\<close>

lemma taken_pipeline:
  assumes "data_ok up pre d" "redis_sem (BRPOP (pre @ dispatchQueueKey)) d = (RArr [k, v], d')"
  shows "pipe_steps limit (data_pipeline up pre d H used turned)
      (data_pipeline up pre d' (next_try up limit v + H) used (fst (entry_item up v) # turned))" "data_ok up pre d'" "v \<in> set (dispatch_queue pre d)"
proof -
  have "dispatch_queue pre d \<noteq> []" "v = last (dispatch_queue pre d)" and d': "d' = upd_list (pre @ dispatchQueueKey) butlast d"
    using assms(2) by (cases "rd_lists d (pre @ dispatchQueueKey)"; clarsimp simp: dispatch_queue_def)+
  then obtain q where q: "dispatch_queue pre d = q @ [v]" by (metis append_butlast_last_id)
  have e: "stored_payloads pre d' = stored_payloads pre d" "dispatch_queue pre d' = q" "retry_queue pre d' = retry_queue pre d"
    using q by (simp_all add: d' stored_payloads_def dispatch_queue_def retry_queue_def)
  obtain oid a where item: "entry_item up v = (oid, a)" by fastforce
  let ?p = "data_pipeline up pre d H used turned"
  let ?p1 = "?p\<lparr>queued := queued ?p - {#(oid, a)#}, busy := add_mset (oid, a) (busy ?p)\<rparr>"
  have take: "pipe_step limit ?p ?p1" by (rule pipe_step.take_item) (simp add: data_pipeline_def q item)
  have "pipe_step limit ?p1 (data_pipeline up pre d' (next_try up limit v + H) used (oid # turned))"
  proof (cases "a + 1 < limit")
    case True
    then show ?thesis
      using pipe_step.again [of oid a ?p1 limit] by (simp add: data_pipeline_def stored_items_def e q item next_try_def)
  next
    case False
    then show ?thesis
      using pipe_step.finish [of oid a ?p1 limit] by (simp add: data_pipeline_def stored_items_def e q item next_try_def)
  qed
  with take show "pipe_steps limit ?p (data_pipeline up pre d' (next_try up limit v + H) used (fst (entry_item up v) # turned))"
    by (auto simp: item intro: pipe_steps.go)
  show "data_ok up pre d'" "v \<in> set (dispatch_queue pre d)" using assms(1) by (simp_all add: data_ok_def e q)
qed

lemma lost_pop_pipeline:
  assumes "data_ok up pre d" "d' = call (BRPOP (pre @ dispatchQueueKey)) d"
  shows "pipe_steps limit (data_pipeline up pre d H used turned) (data_pipeline up pre d' H used turned)" "data_ok up pre d'"
proof -
  have e: "stored_payloads pre d' = stored_payloads pre d" "retry_queue pre d' = retry_queue pre d"
    "dispatch_queue pre d' = butlast (dispatch_queue pre d)"
    by (auto simp: assms(2) call_def stored_payloads_def dispatch_queue_def retry_queue_def split: list.split)
  have "mset (butlast q) = mset q - {#last q#}" if "q \<noteq> []" for q :: "string list"
    using that by (cases q rule: rev_cases) simp_all
  then have "\<exists>M. image_mset (entry_item up) (mset (butlast (dispatch_queue pre d))) = image_mset (entry_item up) (mset (dispatch_queue pre d)) - M"
    by (cases "dispatch_queue pre d = []") (auto intro!: exI [of _ "{#entry_item up (last (dispatch_queue pre d))#}"] simp: image_mset_Diff)
  then obtain M where "image_mset (entry_item up) (mset (dispatch_queue pre d')) = image_mset (entry_item up) (mset (dispatch_queue pre d)) - M"
    by (auto simp: e)
  then show "pipe_steps limit (data_pipeline up pre d H used turned) (data_pipeline up pre d' H used turned)"
    using pipe_step.lose_queued [of limit "data_pipeline up pre d H used turned" M] by (auto simp: data_pipeline_def stored_items_def e)
  show "data_ok up pre d'" using assms(1) by (auto simp: data_ok_def e dest: in_set_butlastD)
qed

text \<open>A worker puts back what it holds.\<close>

lemma retry_pipeline:
  assumes "rdata_ok d" "data_ok up pre d" "good up v" "d' = d \<or> d' = call (ZADD (pre @ retryQueueKey) t v) d"
  shows "pipe_steps limit (data_pipeline up pre d (add_mset (entry_item up v) H) used turned) (data_pipeline up pre d' H used turned)"
    "data_ok up pre d'"
proof -
  have e: "stored_payloads pre d' = stored_payloads pre d" "dispatch_queue pre d' = dispatch_queue pre d"
    using assms(4) by (auto simp: stored_payloads_def dispatch_queue_def)
  have r: "mset (retry_queue pre d') = mset (retry_queue pre d) \<or> mset (retry_queue pre d') = add_mset v (mset (retry_queue pre d))"
    "set (retry_queue pre d') \<subseteq> insert v (set (retry_queue pre d))"
    using assms(1,4) by (auto simp: retry_queue_def mset_zmembers_zadd rdata_ok_def split: if_splits)
  let ?p = "data_pipeline up pre d (add_mset (entry_item up v) H) used turned"
  have "pipe_steps limit ?p (?p\<lparr>retrying := retrying ?p - {#entry_item up v#}\<rparr>)"
    by (rule lose_retrying) (simp add: data_pipeline_def)
  then show "pipe_steps limit ?p (data_pipeline up pre d' H used turned)"
    using r(1) by (auto simp: data_pipeline_def stored_items_def e)
  show "data_ok up pre d'" using assms(2,3) r(2) by (auto simp: data_ok_def e)
qed

text \<open>Any call that the discipline allows, with any outcome that the services may have.\<close>

definition performed :: "service_call \<Rightarrow> rdata \<Rightarrow> answer \<Rightarrow> rdata \<Rightarrow> bool" where
  "performed c d a d' \<longleftrightarrow> (case c of
     CallRedis cmd \<Rightarrow> \<exists>r. a = GotRedis r \<and> served cmd d r d' \<and> (\<forall>k f v. cmd = HSET k f v \<longrightarrow> \<not> is_ok r \<longrightarrow> d' = d)
   | _ \<Rightarrow> strings_only d d')"

lemma quiet_data:
  assumes "quiet_command up pre h c" "rdata_ok d" "data_ok up pre d" "performed (CallRedis c) d a d'" "used \<inter> set (given h) \<subseteq> set (stored up h)"
  shows "pipe_steps limit (data_pipeline up pre d (held up pre limit h + H) used turned)
      (data_pipeline up pre d' (held up pre limit (h @ [(CallRedis c, a)]) + H) (used \<union> set_option (stored_id up (CallRedis c, a)))
        (turn_of up (CallRedis c, a) @ turned))
     \<and> data_ok up pre d'"
proof -
  from assms(4) obtain r where a: "a = GotRedis r" and srv: "served c d r d'"
    and clean: "\<And>k f v. c = HSET k f v \<Longrightarrow> \<not> is_ok r \<Longrightarrow> d' = d"
    by (auto simp: performed_def)
  note eff = served_cases [OF srv]
  have same: ?thesis if "data_pipeline up pre d' (held up pre limit h + H) used turned = data_pipeline up pre d (held up pre limit h + H) used turned
      \<and> data_ok up pre d' = data_ok up pre d" "held up pre limit (h @ [(CallRedis c, a)]) = held up pre limit h" "stored_id up (CallRedis c, a) = None"
      "turn_of up (CallRedis c, a) = []"
    using that assms(3) by simp
  have go: ?thesis if "pipe_steps limit (data_pipeline up pre d (held up pre limit h + H) used turned) (data_pipeline up pre d' (held up pre limit h + H) used turned)
      \<and> data_ok up pre d'" "held up pre limit (h @ [(CallRedis c, a)]) = held up pre limit h" "stored_id up (CallRedis c, a) = None"
      "turn_of up (CallRedis c, a) = []"
    using that by simp
  note stay = pipe_steps.stay [of limit "data_pipeline up pre d (held up pre limit h + H) used turned"]
  show ?thesis
  proof (cases c)
    case (HSET k f v)
    with assms(1) obtain oid where v: "k = pre @ scheduleDataKey" "good up v" "entry_item up v = (oid, 0)" "oid \<notin> used"
      using assms(5) by auto
    have h: "held up pre limit (h @ [(CallRedis c, a)]) = held up pre limit h" by (rule held_snoc) (simp_all add: HSET)
    show ?thesis
    proof (cases r)
      case (Inl e)
      then show ?thesis using clean [OF HSET] h assms(3) stay by (simp add: HSET a turn_of_other)
    next
      case (Inr x)
      then have "d' = call (HSET (pre @ scheduleDataKey) f v) d" using srv by (simp add: served_def HSET v(1))
      from store_pipeline [OF assms(3) v(2-4) this] show ?thesis by (simp add: h) (simp add: HSET a Inr v turn_of_other)
    qed
  next
    case (HDEL k f)
    have "pipe_steps limit (data_pipeline up pre d (held up pre limit h + H) used turned) (data_pipeline up pre d' (held up pre limit h + H) used turned)
        \<and> data_ok up pre d'"
      using eff drop_pipeline [OF assms(3)] assms(3) stay by (auto simp: HDEL)
    then show ?thesis by (rule go) (simp_all add: HDEL held_snoc turn_of_other)
  next
    case (ZREM k m)
    have "pipe_steps limit (data_pipeline up pre d (held up pre limit h + H) used turned) (data_pipeline up pre d' (held up pre limit h + H) used turned)
        \<and> data_ok up pre d'"
      using eff unlist_pipeline [OF assms(2,3)] assms(3) stay by (auto simp: ZREM)
    then show ?thesis by (rule go) (simp_all add: ZREM held_snoc turn_of_other)
  next
    case (ZADD k t m)
    with assms(1) have k: "k = pre @ ScheduleKey" by simp
    show ?thesis
      by (rule same, rule data_pipeline_cong)
        (use eff in \<open>auto simp: ZADD k turn_of_other stored_payloads_def dispatch_queue_def retry_queue_def retry_key_other intro!: held_snoc\<close>)
  next
    case (BRPOP k)
    with assms(1) have k: "k = pre @ dispatchQueueKey" "h = []" by simp_all
    have none: "held up pre limit [] = {#}" by (simp add: held_def)
    show ?thesis
    proof (cases "\<exists>q v. r = Inr (RArr [q, v])")
      case True
      then obtain q v where r: "r = Inr (RArr [q, v])" by blast
      then have q: "q = pre @ dispatchQueueKey" using srv by (auto simp: served_def BRPOP k split: list.splits)
      have "redis_sem (BRPOP (pre @ dispatchQueueKey)) d = (RArr [pre @ dispatchQueueKey, v], d')"
        using srv r by (simp add: served_def BRPOP k q)
      from taken_pipeline [OF assms(3) this] show ?thesis
        by (simp add: k none) (simp add: held_def turn_of_def BRPOP a r k)
    next
      case False
      then have "held up pre limit [(CallRedis c, a)] = {#}" "turn_of up (CallRedis c, a) = []"
        by (cases "[(CallRedis c, a)]" rule: popped.cases; auto simp: held_def turn_of_def a)+
      with lost_pop_pipeline [OF assms(3)] eff assms(3) stay show ?thesis
        by (auto simp: k none) (auto simp: BRPOP k none)
    qed
  next
    case (EVAL f)
    with assms(1) obtain now where "f = scheduleLua (pre @ ScheduleKey) (pre @ scheduleDataKey) (pre @ dispatchQueueKey) now
        \<or> f = retryLua (pre @ retryQueueKey) (pre @ dispatchQueueKey) now" by auto
    with eff have "d' = d \<or> d' = call (EVAL (scheduleLua (pre @ ScheduleKey) (pre @ scheduleDataKey) (pre @ dispatchQueueKey) now)) d
        \<or> d' = call (EVAL (retryLua (pre @ retryQueueKey) (pre @ dispatchQueueKey) now)) d" by (auto simp: EVAL)
    then show ?thesis
      by (intro go) (use assms(3) stay mover_pipeline [OF assms(2,3)] poller_pipeline [OF assms(2,3)] in \<open>auto simp: EVAL turn_of_other intro!: held_snoc\<close>)
  next
    case (SETKEY k v t)
    show ?thesis
      by (rule same, rule data_pipeline_cong)
        (use eff in \<open>auto simp: SETKEY turn_of_other call_def stored_payloads_def dispatch_queue_def retry_queue_def intro!: held_snoc\<close>)
  qed (rule same; use assms(1) eff in \<open>auto simp: held_snoc turn_of_other\<close>)+
qed

lemma call_data:
  assumes "may_call up pre limit h c" "rdata_ok d" "data_ok up pre d" "performed c d a d'" "used \<inter> set (given h) \<subseteq> set (stored up h)"
  shows "pipe_steps limit (data_pipeline up pre d (held up pre limit h + H) used turned)
      (data_pipeline up pre d' (held up pre limit (h @ [(c, a)]) + H) (used \<union> set_option (stored_id up (c, a)))
        (turn_of up (c, a) @ turned))
     \<and> data_ok up pre d'"
  using assms(1) unfolding may_call_def
proof
  assume q: "quiet_call up pre h c"
  show ?thesis
  proof (cases "\<exists>cmd. c = CallRedis cmd")
    case True
    with q quiet_data [OF _ assms(2) assms(3) _ assms(5)] assms(4) show ?thesis by fastforce
  next
    case False
    then have s: "strings_only d d'" using assms(4) by (auto simp: performed_def split: service_call.splits)
    have "stored_id up (c, a) = None" "\<not> is_retry pre (c, a)" using False by (cases c; auto)+
    then have "held up pre limit (h @ [(c, a)]) = held up pre limit h" "stored_id up (c, a) = None" "turn_of up (c, a) = []"
      using False held_snoc [of c pre a up limit h] turn_of_other [of c up a] by auto
    moreover have "data_pipeline up pre d' H used turned = data_pipeline up pre d H used turned \<and> data_ok up pre d' = data_ok up pre d" for H
      by (rule data_pipeline_cong) (use s in \<open>auto simp: strings_only_def stored_payloads_def dispatch_queue_def retry_queue_def\<close>)
    ultimately show ?thesis using assms(3) by simp
  qed
next
  assume "\<exists>t v. c = CallRedis (ZADD (pre @ retryQueueKey) t v) \<and> good up v \<and> held up pre limit h = {#entry_item up v#}"
  then obtain t v where c: "c = CallRedis (ZADD (pre @ retryQueueKey) t v)" and v: "good up v" "held up pre limit h = {#entry_item up v#}" by blast
  from assms(4) have d': "d' = d \<or> d' = call (ZADD (pre @ retryQueueKey) t v) d" by (auto simp: performed_def c dest: served_cases)
  have "held up pre limit (h @ [(c, a)]) = {#}" by (simp add: held_def c split: option.split)
  with retry_pipeline(1) [OF assms(2,3) v(1) d', of limit H used turned] retry_pipeline(2) [OF assms(2,3) v(1) d'] show ?thesis by (simp add: c v(2) turn_of_other)
qed

section \<open>The invariant of the machine\<close>

text \<open>A failed \<open>HSET\<close> has not happened.\<close>

definition hset_exact :: "'w svc \<Rightarrow> 'w views \<Rightarrow> bool" where
  "hset_exact S V \<longleftrightarrow> (\<forall>w k f v. \<not> is_ok (result_of (redis_do S (HSET k f v)) w) \<longrightarrow> rv V (after (redis_do S (HSET k f v)) w) = rv V w)"

definition thread_ok :: "(string \<Rightarrow> uuid option) \<Rightarrow> int \<Rightarrow> uuid set \<Rightarrow> thread \<Rightarrow> bool" where
  "thread_ok up limit used x \<longleftrightarrow> task_fits up (fst x) \<and> list_all (answer_fits up limit) (snd x)
     \<and> used \<inter> set (given (snd x)) \<subseteq> set (stored up (snd x))"

lemma run_map: "(case run_state m w of (x, w') \<Rightarrow> (f x, w')) = (f (result_of m w), after m w)"
  by (simp add: result_of_def after_def split: prod.split)

text \<open>
  The stores fit; no two calls of any threads were given the same identifier; what has entered was stored by the thread that
  was given its identifier; the pipeline is as it should be.
\<close>

definition threads_ok :: "(string \<Rightarrow> uuid option) \<Rightarrow> int \<Rightarrow> uuid set \<Rightarrow> uuid set \<Rightarrow> thread multiset \<Rightarrow> bool" where
  "threads_ok up limit iss used T \<longleftrightarrow> used \<subseteq> iss \<and> set_mset (all_given T) \<subseteq> iss \<and> (\<forall>i. count (all_given T) i \<le> 1)
     \<and> (\<forall>x \<in># T. thread_ok up limit used x)"

definition world_ok :: "(string \<Rightarrow> uuid option) \<Rightarrow> string \<Rightarrow> 'w views \<Rightarrow> 'w \<Rightarrow> bool" where
  "world_ok up pre V w \<longleftrightarrow> stores_fit V (\<lambda>i. up i = Some i) w \<and> data_ok up pre (rv V w)"

context delivering_server
begin

lemma performs:
  assumes "sv_svc G = S" "sv_ttl G = T" "hset_exact S V" "run_state (perform G c) w = (a, w')"
    "stores_fit V (\<lambda>i. up i = Some i) w" "may_call up pre limit h c"
  shows "stores_fit V (\<lambda>i. up i = Some i) w'" "issued w \<subseteq> issued w'" "performed c (rv V w) a (rv V w')"
    "(\<And>k. c \<noteq> CallRedis (BRPOP k)) \<Longrightarrow> answer_fits up limit (c, a)"
    "given_id (c, a) = Some i \<Longrightarrow> i \<notin> issued w \<and> i \<in> issued w'"
proof -
  have "stores_fit V (\<lambda>i. up i = Some i) w' \<and> issued w \<subseteq> issued w' \<and> performed c (rv V w) a (rv V w')
     \<and> ((\<forall>k. c \<noteq> CallRedis (BRPOP k)) \<longrightarrow> answer_fits up limit (c, a)) \<and> (given_id (c, a) = Some i \<longrightarrow> i \<notin> issued w \<and> i \<in> issued w')"
  proof (cases c)
    case (CallRedis r)
    have steps: "by_steps (stores_fit V (\<lambda>i. up i = Some i)) (\<lambda>w. w) (\<lambda>w w'. issued w \<subseteq> issued w') (redis S r) (\<lambda>_. True)"
    proof (rule redis_steps)
      show "rdata_ok (call r d)" if "rdata_ok d" for d
        using assms(6) that scripts_typed [OF that] call_typed [OF _ that, of r] by (cases r) (auto simp: CallRedis may_call_def)
    qed
    have run: "a = GotRedis (result_of (redis_do S r) w)" "w' = after (redis_do S r) w" "w' = after (redis S r) w"
      using assms(1,4) by (auto simp: CallRedis redis_def run_map after_def [of "State_Monad.bind _ _"])
    have "serves (rv V) (redis_effect r) (redis_do S r) w" using ok by (simp add: svc_ok_def)
    then have "served r (rv V w) (result_of (redis_do S r) w) (rv V w')"
      by (auto simp: run(2) serves_def redis_effect_def served_def result_of_def after_def call_def split: prod.splits sum.splits)
    moreover have "rv V w' = rv V w" if "r = HSET k f v" "\<not> is_ok (result_of (redis_do S r) w)" for k f v
      using assms(3) that by (simp add: hset_exact_def run(2))
    ultimately show ?thesis
      using by_steps_after [OF steps assms(5)] by (auto simp: CallRedis performed_def run(1) run(3) [symmetric])
  next
    case (CallSql st)
    have "stmt_fits (\<lambda>i. up i = Some i) st" using assms(6) by (simp add: CallSql may_call_def)
    note steps = by_steps_after [OF sql_typed [OF this] assms(5)]
    have run: "a = GotSql (result_of (sql_do S st) w)" "w' = after (sql S st) w" "result_of (sql S st) w = map_sum Errorf id (result_of (sql_do S st) w)"
      using assms(1,4) by (auto simp: CallSql sql_def run_map after_def [of "State_Monad.bind _ _"] result_of_def [of "State_Monad.bind _ _"])
    then show ?thesis using steps same_redis(1)
      by (cases "result_of (sql_do S st) w") (auto simp: CallSql performed_def)
  next
    case CallUuid
    have run: "a = GotUuid (result_of (new_uuid S) w)" "w' = after (new_uuid S) w"
      using assms(1,4) by (auto simp: CallUuid run_map)
    with by_steps_after [OF uuid_typed assms(5)] new_ids same_redis(3) show ?thesis
      by (auto simp: CallUuid performed_def issues_new_def)
  next
    case CallTime
    have run: "a = GotTime (result_of (time_now S) w)" "w' = after (time_now S) w"
      using assms(1,4) by (auto simp: CallTime run_map)
    with by_steps_after [OF other_typed(1) assms(5)] same_redis(2) show ?thesis by (simp add: CallTime performed_def)
  next
    case (CallHttp q)
    have run: "a = GotHttp (result_of (http_do S q) w)" "w' = after (http_do S q) w"
      using assms(1,4) by (auto simp: CallHttp run_map)
    have "rv V w' = rv V w" using ok by (simp add: svc_ok_def keeps_def run(2))
    with run by_steps_after [OF other_typed(2) assms(5)] show ?thesis by (simp add: CallHttp performed_def)
  next
    case (CallNotify n q)
    have run: "a = GotNotify (result_of (notify_client S n q) w)" "w' = after (notify_client S n q) w"
      using assms(1,4) by (auto simp: CallNotify run_map)
    have "rv V w' = rv V w" using ok by (simp add: svc_ok_def keeps_def run(2))
    with run by_steps_after [OF other_typed(3) assms(5)] show ?thesis by (simp add: CallNotify performed_def)
  next
    case (CallGet k)
    have run: "a = GotKey (result_of (ttl_get T k) w)" "w' = after (ttl_get T k) w"
      using assms(2,4) by (auto simp: CallGet run_map)
    have "strings_only (rv V w) (rv V w')" using limiter by (simp add: limiter_apart_def apart_def run(2))
    with run by_steps_after [OF srv.limiter_steps(1) assms(5)] show ?thesis by (simp add: CallGet performed_def)
  next
    case (CallExec cs)
    have run: "a = GotExec (result_of (ttl_exec T cs) w)" "w' = after (ttl_exec T cs) w"
      using assms(2,4) by (auto simp: CallExec run_map)
    have "strings_only (rv V w) (rv V w')" using limiter by (simp add: limiter_apart_def apart_def run(2))
    with run by_steps_after [OF srv.limiter_steps(2) assms(5)] show ?thesis by (simp add: CallExec performed_def)
  next
    case CallNow
    have run: "a = GotTime (result_of (ttl_now T) w)" "w' = after (ttl_now T) w"
      using assms(2,4) by (auto simp: CallNow run_map)
    have "strings_only (rv V w) (rv V w')" using limiter by (simp add: limiter_apart_def apart_def run(2))
    with run by_steps_after [OF srv.limiter_steps(3) assms(5)] show ?thesis by (simp add: CallNow performed_def)
  qed
  then show "stores_fit V (\<lambda>i. up i = Some i) w'" "issued w \<subseteq> issued w'" "performed c (rv V w) a (rv V w')"
    "(\<And>k. c \<noteq> CallRedis (BRPOP k)) \<Longrightarrow> answer_fits up limit (c, a)" "given_id (c, a) = Some i \<Longrightarrow> i \<notin> issued w \<and> i \<in> issued w'"
    by auto
qed

end

text \<open>What is popped is as the pipeline has it: readable, with an attempt left.\<close>

lemma popped_fits:
  assumes "data_ok up pre d" "pipe_ok limit (data_pipeline up pre d H used turned)" "served (BRPOP (pre @ dispatchQueueKey)) d r d'"
  shows "answer_fits up limit (CallRedis (BRPOP (pre @ dispatchQueueKey)), GotRedis r)"
proof -
  have "good up v \<and> snd (entry_item up v) < max 1 limit" if r: "r = Inr (RArr [k, v])" for k v
  proof -
    have "redis_sem (BRPOP (pre @ dispatchQueueKey)) d = (RArr [pre @ dispatchQueueKey, v], d')"
      using assms(3) r by (auto simp: served_def split: list.splits)
    then have v: "v \<in> set (dispatch_queue pre d)" by (rule taken_pipeline(3) [OF assms(1)])
    then have "entry_item up v \<in># items (data_pipeline up pre d H used turned)" by (auto simp: items_def data_pipeline_def)
    with assms(2) have "snd (entry_item up v) < int (turn_limit limit)" by (auto simp: pipe_ok_def)
    then have "snd (entry_item up v) < max 1 limit" by (simp add: turn_limit_def split: if_splits)
    with v assms(1) show ?thesis by (simp add: data_ok_def)
  qed
  then show ?thesis by simp
qed

lemma distinct_given: "(\<And>i. count (mset (given h) + M) i \<le> 1) \<Longrightarrow> distinct (given h)"
  unfolding distinct_count_atmost_1
proof
  fix i assume "\<And>i. count (mset (given h) + M) i \<le> 1"
  from this [of i] show "count (mset (given h)) i = (if i \<in> set (given h) then 1 else 0)"
    using count_greater_zero_iff [of "mset (given h)" i] by (auto simp: not_in_iff [symmetric] simp del: count_greater_zero_iff)
qed

text \<open>The threads after a call.\<close>

lemma threads_after_call:
  assumes T: "threads_ok up limit iss used (add_mset (t, h) R)" and iss: "iss \<subseteq> iss'" and a: "answer_fits up limit (c, a)"
    and new: "\<And>i. given_id (c, a) = Some i \<Longrightarrow> i \<notin> iss \<and> i \<in> iss'"
    and own: "\<And>i. stored_id up (c, a) = Some i \<Longrightarrow> i \<in> set (given h)"
  shows "threads_ok up limit iss' (used \<union> set_option (stored_id up (c, a))) (add_mset (t, h @ [(c, a)]) R)"
proof -
  let ?used = "used \<union> set_option (stored_id up (c, a))"
  have T1: "used \<subseteq> iss" "set (given h) \<union> set_mset (all_given R) \<subseteq> iss" "\<And>i. count (mset (given h) + all_given R) i \<le> 1"
    "thread_ok up limit used (t, h)" "\<And>x. x \<in># R \<Longrightarrow> thread_ok up limit used x"
    using T by (auto simp: threads_ok_def)
  have disj: "i \<notin># all_given R" if "i \<in> set (given h)" for i
  proof -
    have "0 < count (mset (given h)) i" using that by simp
    with T1(3) [of i] have "count (all_given R) i = 0" unfolding count_union by linarith
    then show ?thesis by (simp add: not_in_iff)
  qed
  have other: "thread_ok up limit ?used x" if x: "x \<in># R" for x
  proof -
    have "set (given (snd x)) \<subseteq> set_mset (all_given R)" using x by (auto simp: all_given_def)
    then have "stored_id up (c, a) = Some i \<Longrightarrow> i \<notin> set (given (snd x))" for i using own disj by blast
    with T1(5) [OF x] show ?thesis by (auto simp: thread_ok_def)
  qed
  have me: "thread_ok up limit ?used (t, h @ [(c, a)])"
    using T1(1,4) a new by (cases "given_id (c, a)"; cases "stored_id up (c, a)") (auto simp: thread_ok_def given_snoc stored_snoc)
  have "count (mset (given (h @ [(c, a)])) + all_given R) i \<le> 1" for i
  proof (cases "given_id (c, a)")
    case None
    then show ?thesis using T1(3) by (simp add: given_snoc)
  next
    case (Some j)
    have "j \<notin> set (given h) \<union> set_mset (all_given R)" using new [OF Some] T1(2) by blast
    then show ?thesis using T1(3) [of i] by (cases "i = j") (auto simp: given_snoc Some count_eq_zero_iff)
  qed
  moreover have "set (given (h @ [(c, a)])) \<union> set_mset (all_given R) \<subseteq> iss'"
    using T1(2) iss new by (auto simp: given_snoc split: option.splits)
  moreover have "?used \<subseteq> iss'" using T1(1,2) iss own by (auto dest!: own)
  ultimately show ?thesis using other me by (auto simp: threads_ok_def)
qed

context delivering_server
begin

lemma call_simulated:
  assumes G: "sv_svc G = S" "sv_ttl G = T" "sv_uuid G = up" "sv_dispatcher G = D" "server_fits G" "hset_exact S V"
    and lim: "limit = di_maxRetries D"
    and T: "threads_ok up limit (issued w) used (add_mset (t, h) R)" and W: "world_ok up pre V w"
    and p: "pipe_ok limit (data_pipeline up pre (rv V w) (held up pre limit h + all_held up pre limit R) used turned)"
    and c: "next_call G t h = Some c" "run_state (perform G c) w = (a, w')"
  defines "used' \<equiv> used \<union> set_option (stored_id up (c, a))"
  shows "pipe_steps limit (data_pipeline up pre (rv V w) (held up pre limit h + all_held up pre limit R) used turned)
      (data_pipeline up pre (rv V w') (held up pre limit (h @ [(c, a)]) + all_held up pre limit R) used' (turn_of up (c, a) @ turned))
    \<and> threads_ok up limit (issued w') used' (add_mset (t, h @ [(c, a)]) R) \<and> world_ok up pre V w'"
proof -
  have th: "thread_ok up limit used (t, h)" and dist: "distinct (given h)"
  proof -
    show "thread_ok up limit used (t, h)" using T by (simp add: threads_ok_def)
    show "distinct (given h)" by (rule distinct_given [of h "all_given R"]) (use T in \<open>simp add: threads_ok_def\<close>)
  qed
  then have may: "may_call up pre limit h c"
    using thread_calls(1) [OF G(5) _ _ dist c(1)] by (simp add: thread_ok_def G(3,4) lim prefix)
  have fit: "stores_fit V (\<lambda>i. up i = Some i) w" and d: "data_ok up pre (rv V w)" using W by (simp_all add: world_ok_def)
  note eff = performs [OF G(1,2,6) c(2) fit may]
  have ok: "rdata_ok (rv V w)" using fit by (simp add: stores_fit_rows)
  have used: "used \<inter> set (given h) \<subseteq> set (stored up h)" using th by (simp add: thread_ok_def)
  note sim = call_data [OF may ok d eff(3) used, of "all_held up pre limit R" turned, folded used'_def]
  have "answer_fits up limit (c, a)"
  proof (cases "\<exists>k. c = CallRedis (BRPOP k)")
    case True
    with may have k: "c = CallRedis (BRPOP (pre @ dispatchQueueKey))" by (auto simp: may_call_def)
    with eff(3) obtain r where "a = GotRedis r" "served (BRPOP (pre @ dispatchQueueKey)) (rv V w) r (rv V w')"
      by (auto simp: performed_def)
    with popped_fits [OF d p] k show ?thesis by simp
  qed (use eff(4) in blast)
  moreover have "i \<in> set (given h)" if "stored_id up (c, a) = Some i" for i
    using that may by (cases "(up, (c, a))" rule: stored_id.cases) (auto simp: may_call_def)
  ultimately have "threads_ok up limit (issued w') used' (add_mset (t, h @ [(c, a)]) R)"
    unfolding used'_def using T eff(2,5) by (intro threads_after_call) auto
  with sim eff(1) show ?thesis by (auto simp: world_ok_def)
qed

end

section \<open>Every step of the machine\<close>

text \<open>The dispatches so far, the latest first: the occurrences whose items were popped.\<close>

definition log_turns :: "(string \<Rightarrow> uuid option) \<Rightarrow> trace \<Rightarrow> string list" where
  "log_turns up L = concat (map (turn_of up) (rev L))"

definition machine_pipeline :: "'w server \<Rightarrow> 'w views \<Rightarrow> 'w machine \<Rightarrow> pipeline" where
  "machine_pipeline G V p =
     (let up = sv_uuid G; pre = di_prefix (sv_dispatcher G) in
      data_pipeline up pre (rv V (mc_world p)) (all_held up pre (di_maxRetries (sv_dispatcher G)) (mc_threads p))
        (set (stored up (mc_log p))) (log_turns up (mc_log p)))"

definition machine_ok :: "'w server \<Rightarrow> 'w views \<Rightarrow> ('w \<Rightarrow> uuid set) \<Rightarrow> 'w machine \<Rightarrow> bool" where
  "machine_ok G V issued p \<longleftrightarrow>
     threads_ok (sv_uuid G) (di_maxRetries (sv_dispatcher G)) (issued (mc_world p)) (set (stored (sv_uuid G) (mc_log p))) (mc_threads p)
   \<and> world_ok (sv_uuid G) (di_prefix (sv_dispatcher G)) V (mc_world p)
   \<and> pipe_steps (di_maxRetries (sv_dispatcher G)) empty_pipeline (machine_pipeline G V p)"

lemma held_Nil [simp]: "held up pre limit [] = {#}"
  by (simp add: held_def)

lemma given_Nil [simp]: "given [] = []"
  by (simp add: given_def map_filter_simps)

lemma pipe_steps_pipe_ok: "pipe_steps limit empty_pipeline p \<Longrightarrow> pipe_ok limit p"
  by (rule pipe_steps_ok [OF _ pipe_ok_empty])

text \<open>A thread that is no more; a thread that begins.\<close>

lemma thread_ends:
  assumes "machine_ok G V issued p" "mc_threads p = add_mset x R"
  shows "machine_ok G V issued (p\<lparr>mc_threads := R\<rparr>)"
proof -
  let ?up = "sv_uuid G" and ?pre = "di_prefix (sv_dispatcher G)" and ?limit = "di_maxRetries (sv_dispatcher G)"
  have "threads_ok ?up ?limit (issued (mc_world p)) (set (stored ?up (mc_log p))) (mc_threads p)"
    using assms(1) by (simp add: machine_ok_def)
  moreover from this have "count (all_given R) i \<le> 1" for i
    unfolding threads_ok_def assms(2) all_simps count_union by (meson add_leD2)
  ultimately have "threads_ok ?up ?limit (issued (mc_world p)) (set (stored ?up (mc_log p))) R"
    by (simp add: threads_ok_def assms(2))
  moreover have "pipe_steps ?limit (machine_pipeline G V p) (machine_pipeline G V (p\<lparr>mc_threads := R\<rparr>))"
    using lose_retrying [of "held ?up ?pre ?limit (snd x)" "machine_pipeline G V p" ?limit]
    by (simp add: machine_pipeline_def Let_def data_pipeline_def assms(2))
  ultimately show ?thesis using assms(1) by (auto simp: machine_ok_def intro: pipe_steps_trans)
qed

lemma thread_begins:
  assumes "machine_ok G V issued p" "task_fits (sv_uuid G) t"
  shows "machine_ok G V issued (p\<lparr>mc_threads := add_mset (t, []) (mc_threads p)\<rparr>)"
  using assms by (auto simp: machine_ok_def threads_ok_def thread_ok_def machine_pipeline_def Let_def)

context delivering_server
begin

lemma machine_step_ok:
  assumes step: "machine_step G env p p'" and ok: "machine_ok G V issued p" and env: "env_apart V env" "env_remembers issued env"
    and G: "sv_svc G = S" "sv_ttl G = T" "sv_uuid G = up" "sv_dispatcher G = D" "server_fits G" "hset_exact S V"
  shows "machine_ok G V issued p'"
  using step
proof (cases rule: machine_step.cases)
  case (spawn t)
  then have "task_fits (sv_uuid G) t" by (cases t) (auto simp: starts_def task_fits_def)
  with thread_begins [OF ok] show ?thesis by (simp add: spawn(1))
next
  case (call t h c a w')
  then obtain R where R: "mc_threads p = add_mset (t, h) R" by (auto dest: multi_member_split)
  have inv: "threads_ok up (di_maxRetries D) (issued (mc_world p)) (set (stored up (mc_log p))) (add_mset (t, h) R)"
    "world_ok up pre V (mc_world p)" "pipe_steps (di_maxRetries D) empty_pipeline (data_pipeline up pre (rv V (mc_world p))
      (held up pre (di_maxRetries D) h + all_held up pre (di_maxRetries D) R) (set (stored up (mc_log p))) (log_turns up (mc_log p)))"
    using ok by (simp_all add: machine_ok_def machine_pipeline_def Let_def G(3,4) prefix R)
  note sim = call_simulated [OF G refl inv(1,2) pipe_steps_pipe_ok [OF inv(3)] call(3,4)]
  have "set (stored up (mc_log p)) \<union> set_option (stored_id up (c, a)) = set (stored up (mc_log p @ [(c, a)]))"
    by (auto simp: stored_snoc split: option.splits)
  moreover have "turn_of up (c, a) @ log_turns up (mc_log p) = log_turns up (mc_log p @ [(c, a)])" by (simp add: log_turns_def)
  ultimately show ?thesis
    using sim inv(3) by (auto simp: call(1) machine_ok_def machine_pipeline_def Let_def G(3,4) prefix R intro: pipe_steps_trans)
next
  case (return t h job)
  then obtain R where R: "mc_threads p = add_mset (t, h) R" by (auto dest: multi_member_split)
  note ends = thread_ends [OF ok R]
  show ?thesis
  proof (cases job)
    case None
    with ends show ?thesis by (simp add: return(1) R)
  next
    case (Some ev)
    have th: "thread_ok up (di_maxRetries D) (set (stored up (mc_log p))) (t, h)"
      "\<And>i. count (mset (given h) + all_given R) i \<le> 1"
      using ok by (simp_all add: machine_ok_def threads_ok_def R G(3,4))
    have "distinct (given h)" by (rule distinct_given) (use th(2) in simp)
    with thread_calls(2) [OF G(5), of t h ev] th(1) return(3) Some have "task_fits (sv_uuid G) (Job ev)"
      by (simp add: thread_ok_def task_fits_def G(3,4))
    from thread_begins [OF ends this] show ?thesis by (simp add: return(1) R Some)
  qed
next
  case (die x)
  then obtain R where "mc_threads p = add_mset x R" by (auto dest: multi_member_split)
  with thread_ends [OF ok this] show ?thesis by (simp add: die(1))
next
  case (outside w')
  have w: "strings_only (rv V (mc_world p)) (rv V w')" "dv V w' = dv V (mc_world p)" "issued (mc_world p) \<subseteq> issued w'"
    using env outside(2) by (auto simp: env_apart_def env_remembers_def)
  have same: "data_pipeline up pre (rv V w') H used turned = data_pipeline up pre (rv V (mc_world p)) H used turned
      \<and> data_ok up pre (rv V w') = data_ok up pre (rv V (mc_world p))" for H used turned
    by (rule data_pipeline_cong) (use w(1) in \<open>auto simp: strings_only_def stored_payloads_def dispatch_queue_def retry_queue_def\<close>)
  show ?thesis
    using ok w(3) same stores_fit_cong [OF w(1,2)]
    by (auto simp: outside(1) machine_ok_def threads_ok_def world_ok_def machine_pipeline_def Let_def G(3,4) prefix)
qed

end

section \<open>The server delivers every occurrence once, call by call\<close>

text \<open>C2. With its service calls interleaved in any way, the server still refines the pipeline, as long as a failed
  \<open>HSET\<close> has not happened: from stores without entries, under any requests, with any number of workers, loops and processes, any
  other calls failing and any threads dying at any call, each occurrence is in one place at most, and its item has been popped
  at most \<open>maxRetries\<close> times (once, when that is less than one).\<close>

theorem interleaved_calls_refine_pipeline:
  assumes "svc_ok (sv_svc G) P V" "pg_ok P" "limiter_apart V (sv_ttl G)" "env_apart V env" "fresh_ids G issued env"
    "server_fits G" "hset_exact (sv_svc G) V" "stores_fit V (\<lambda>i. sv_uuid G i = Some i) (mc_world p)"
    "stored_payloads (di_prefix (sv_dispatcher G)) (rv V (mc_world p)) = Map.empty"
    "dispatch_queue (di_prefix (sv_dispatcher G)) (rv V (mc_world p)) = []" "retry_queue (di_prefix (sv_dispatcher G)) (rv V (mc_world p)) = []"
    "mc_threads p = {#}" "mc_log p = []" "machine_run G env p p'"
  shows "let q = machine_pipeline G V p'; limit = di_maxRetries (sv_dispatcher G) in
     pipe_steps limit empty_pipeline q
     \<and> (\<forall>oid. count (image_mset fst (waiting q + queued q + retrying q)) oid \<le> 1)
     \<and> (\<forall>oid. int (length (filter ((=) oid) (log_turns (sv_uuid G) (mc_log p')))) \<le> max 1 limit)"
proof -
  let ?D = "sv_dispatcher G" and ?up = "sv_uuid G" and ?S = "sv_svc G"
  have srv: "delivering_server ?S P V ?up (di_prefix ?D) issued (sv_ttl G) ?D"
    using assms(1-3,5) by unfold_locales (simp_all add: fresh_ids_def)
  have env: "env_remembers issued env" using assms(5) by (simp add: fresh_ids_def)
  have "machine_ok G V issued p"
    using assms(8-13)
    by (simp add: machine_ok_def threads_ok_def world_ok_def data_ok_def machine_pipeline_def Let_def data_pipeline_def stored_items_def
        empty_pipeline_def log_turns_def stored_def map_filter_simps)
  with assms(14) have ok: "machine_ok G V issued p'"
    by (induction rule: machine_run.induct)
      (auto intro: delivering_server.machine_step_ok [OF srv _ _ assms(4) env refl refl refl refl assms(6,7)])
  define q where "q = machine_pipeline G V p'"
  have steps: "pipe_steps (di_maxRetries ?D) empty_pipeline q" using ok by (simp add: machine_ok_def q_def)
  have q: "busy q = {#}" "turns q = log_turns ?up (mc_log p')" by (simp_all add: q_def machine_pipeline_def Let_def data_pipeline_def)
  from pipe_steps_pipe_ok [OF steps] have one: "count (image_mset fst (waiting q + queued q + retrying q)) oid \<le> 1"
    and few: "turns_of q oid \<le> turn_limit (di_maxRetries ?D)" for oid
    by (simp_all add: pipe_ok_def items_def q(1))
  have "int (length (filter ((=) oid) (log_turns ?up (mc_log p')))) \<le> max 1 (di_maxRetries ?D)" for oid
    using few [of oid] by (simp add: turns_of_def turn_limit_def q(2))
  with steps one show ?thesis unfolding Let_def q_def [symmetric] by blast
qed

end
