(* ===== verification/Replay.thy ===== *)
theory Replay
  imports Threads
begin

text \<open>
  A thread does what its computation does. \<open>mirrors\<close> relates a computation on the services of a server to the same computation on
  services that answer from a trace: the calls that the first makes, in its order and with its answers, are a trace on which the second
  comes to the same result, and on every beginning of that trace the second stops at the next call. The
  relation is closed under the ways in which the program composes computations, so it holds of the whole program.
\<close>

section \<open>Computations and their traces\<close>

fun calls :: "'w server \<Rightarrow> trace \<Rightarrow> 'w \<Rightarrow> 'w \<Rightarrow> bool" where
  "calls G [] w w' \<longleftrightarrow> w' = w"
| "calls G ((c, a) # h) w w' \<longleftrightarrow> (\<exists>w1. run_state (perform G c) w = (a, w1) \<and> calls G h w1 w')"

lemma calls_append: "calls G (h @ h') w w'' \<longleftrightarrow> (\<exists>w'. calls G h w w' \<and> calls G h' w' w'')"
  by (induction G h w w'' rule: calls.induct) auto

definition script_at :: "trace \<Rightarrow> trace \<Rightarrow> service_call option \<Rightarrow> script" where
  "script_at d h x = \<lparr>sc_done = d, sc_todo = h, sc_stop = x\<rparr>"

lemma script_at_simps [simp]:
  "sc_done (script_at d h x) = d" "sc_todo (script_at d h x) = h" "sc_stop (script_at d h x) = x"
  by (simp_all add: script_at_def)

text \<open>A computation on the trace services does nothing once its answers have ended.\<close>

definition idle :: "(script, 'a) state \<Rightarrow> bool" where
  "idle m \<longleftrightarrow> (\<forall>s. sc_stop s \<noteq> None \<longrightarrow> snd (run_state m s) = s)"

definition follows :: "trace \<Rightarrow> 'a \<Rightarrow> (script, 'a) state \<Rightarrow> bool" where
  "follows h x m \<longleftrightarrow> (\<forall>d rest. run_state m (script_at d (h @ rest) None) = (x, script_at (d @ h) rest None))
     \<and> (\<forall>d h1 c a h2. h = h1 @ (c, a) # h2 \<longrightarrow> snd (run_state m (script_at d h1 None)) = script_at (d @ h1) [] (Some c))"

definition mirrors :: "'w server \<Rightarrow> ('w, 'a) state \<Rightarrow> (script, 'a) state \<Rightarrow> bool" where
  "mirrors G m m' \<longleftrightarrow> idle m' \<and> (\<forall>w. \<exists>h. calls G h w (after m w) \<and> follows h (result_of m w) m')"

named_theorems mirroring \<open>computations and the same computations on a trace\<close>

lemma mirrors_return [mirroring]: "mirrors G (State_Monad.return x) (State_Monad.return x)"
  by (auto simp: mirrors_def idle_def follows_def after_def result_of_def intro!: exI [of _ "[]"])

lemma mirrors_bind:
  assumes m: "mirrors G m m'" and f: "\<And>x. mirrors G (f x) (f' x)"
  shows "mirrors G (State_Monad.bind m f) (State_Monad.bind m' f')"
  unfolding mirrors_def
proof (intro conjI allI)
  show "idle (State_Monad.bind m' f')"
    using m f by (auto simp: mirrors_def idle_def State_Monad.bind_def split: prod.split)
next
  fix w
  obtain h where h: "calls G h w (after m w)" "follows h (result_of m w) m'" using m by (auto simp: mirrors_def)
  obtain k where k: "calls G k (after m w) (after (f (result_of m w)) (after m w))"
    "follows k (result_of (f (result_of m w)) (after m w)) (f' (result_of m w))" using f by (auto simp: mirrors_def)
  have r: "after (State_Monad.bind m f) w = after (f (result_of m w)) (after m w)"
    "result_of (State_Monad.bind m f) w = result_of (f (result_of m w)) (after m w)"
    by (simp_all add: after_def result_of_def State_Monad.bind_def split: prod.split)
  have "follows (h @ k) (result_of (f (result_of m w)) (after m w)) (State_Monad.bind m' f')"
    unfolding follows_def
  proof (intro conjI allI impI)
    fix d rest
    show "run_state (State_Monad.bind m' f') (script_at d ((h @ k) @ rest) None)
        = (result_of (f (result_of m w)) (after m w), script_at (d @ h @ k) rest None)"
      using h(2) k(2) by (simp add: follows_def State_Monad.bind_def)
  next
    fix d h1 c a h2 assume e: "h @ k = h1 @ (c, a) # h2"
    then consider u where "h = h1 @ (c, a) # u" | u where "h1 = h @ u" "k = u @ (c, a) # h2"
      by (auto simp: append_eq_append_conv2 append_eq_Cons_conv)
    then show "snd (run_state (State_Monad.bind m' f') (script_at d h1 None)) = script_at (d @ h1) [] (Some c)"
    proof cases
      case (1 u)
      then have "snd (run_state m' (script_at d h1 None)) = script_at (d @ h1) [] (Some c)" using h(2) by (auto simp: follows_def)
      moreover have "idle (f' x)" for x using f by (simp add: mirrors_def)
      ultimately show ?thesis by (auto simp: State_Monad.bind_def idle_def split: prod.split)
    next
      case (2 u)
      with h(2) k(2) show ?thesis by (auto simp: follows_def State_Monad.bind_def)
    qed
  qed
  with h(1) k(1) show "\<exists>h. calls G h w (after (State_Monad.bind m f) w) \<and> follows h (result_of (State_Monad.bind m f) w) (State_Monad.bind m' f')"
    by (intro exI [of _ "h @ k"]) (auto simp: calls_append r)
qed

lemma mirrors_then [mirroring]:
  "mirrors G m m' \<Longrightarrow> (\<And>x. mirrors G (f x) (f' x)) \<Longrightarrow> mirrors G (State_Monad.bind m f) (State_Monad.bind m' f')"
  by (rule mirrors_bind)

lemma mirrors_ignore [mirroring]: "mirrors G m m' \<Longrightarrow> mirrors G (ignore m) (ignore m')"
  unfolding ignore_def by (intro mirroring)

lemma mirrors_cases [mirroring]:
  "(\<And>e. mirrors G (f e) (f' e)) \<Longrightarrow> (\<And>a. mirrors G (g a) (g' a)) \<Longrightarrow> mirrors G (case_sum f g x) (case_sum f' g' x)"
  "mirrors G n n' \<Longrightarrow> (\<And>a. mirrors G (k a) (k' a)) \<Longrightarrow> mirrors G (case_option n k y) (case_option n' k' y)"
  "(\<And>a b. mirrors G (l a b) (l' a b)) \<Longrightarrow> mirrors G (case_prod l p) (case_prod l' p)"
  "mirrors G m1 m1' \<Longrightarrow> mirrors G m2 m2' \<Longrightarrow> mirrors G (if c then m1 else m2) (if c then m1' else m2')"
  "mirrors G m1 m1' \<Longrightarrow> mirrors G m2 m2' \<Longrightarrow> mirrors G (case_bool m1 m2 c) (case_bool m1' m2' c)"
  "mirrors G n1 n1' \<Longrightarrow> (\<And>x xs. mirrors G (c1 x xs) (c1' x xs)) \<Longrightarrow> mirrors G (case_list n1 c1 ys) (case_list n1' c1' ys)"
  by (auto split: sum.split option.split prod.split bool.split list.split)

lemma mirrors_attempt [mirroring]: "mirrors G m m' \<Longrightarrow> (\<And>x. mirrors G (k x) (k' x)) \<Longrightarrow> mirrors G (attempt m f k) (attempt m' f k')"
  unfolding attempt_def by (intro mirroring)

lemma mirrors_for_each [mirroring]: "(\<And>x. mirrors G (f x) (f' x)) \<Longrightarrow> mirrors G (for_each f xs) (for_each f' xs)"
  by (induction xs) (auto intro!: mirroring)

section \<open>Single calls\<close>

lemma mirrors_ask:
  assumes "perform G c = State_Monad.bind m (\<lambda>r. State_Monad.return (K r))" "\<And>r. g (Some (K r)) = r"
  shows "mirrors G m (State_Monad.bind (ask c) (\<lambda>a. State_Monad.return (g a)))"
  unfolding mirrors_def
proof (intro conjI allI)
  show "idle (State_Monad.bind (ask c) (\<lambda>a. State_Monad.return (g a)))"
    by (auto simp: idle_def ask_def)
next
  fix w
  have "calls G [(c, K (result_of m w))] w (after m w)"
    by (simp add: assms(1) result_of_def after_def split: prod.split)
  moreover have "follows [(c, K (result_of m w))] (result_of m w) (State_Monad.bind (ask c) (\<lambda>a. State_Monad.return (g a)))"
    by (auto simp: follows_def ask_def script_at_def assms(2) Cons_eq_append_conv)
  ultimately show "\<exists>h. calls G h w (after m w) \<and> follows h (result_of m w) (State_Monad.bind (ask c) (\<lambda>a. State_Monad.return (g a)))"
    by blast
qed

lemma mirrors_services [mirroring]:
  "mirrors G (redis_do (sv_svc G) c) (redis_do script_svc c)" "mirrors G (sql_do (sv_svc G) st) (sql_do script_svc st)"
  "mirrors G (time_now (sv_svc G)) (time_now script_svc)" "mirrors G (new_uuid (sv_svc G)) (new_uuid script_svc)"
  "mirrors G (http_do (sv_svc G) q) (http_do script_svc q)" "mirrors G (notify_client (sv_svc G) n p) (notify_client script_svc n p)"
  "mirrors G (ttl_get (sv_ttl G) k) (ttl_get script_ttl k)" "mirrors G (ttl_exec (sv_ttl G) cs) (ttl_exec script_ttl cs)"
  "mirrors G (ttl_now (sv_ttl G)) (ttl_now script_ttl)"
  unfolding script_svc_def script_ttl_def svc.select_convs ttl_redis.select_convs
  by (rule mirrors_ask, rule perform.simps, simp)+

lemma mirrors_calls [mirroring]:
  "mirrors G (redis (sv_svc G) c) (redis script_svc c)" "mirrors G (sql (sv_svc G) st) (sql script_svc st)"
  unfolding redis_def sql_def by (intro mirroring)+

section \<open>The program\<close>

lemma mirrors_repositories [mirroring]:
  "mirrors G (Create (sv_svc G) ev) (Create script_svc ev)" "mirrors G (Update (sv_svc G) ev) (Update script_svc ev)"
  "mirrors G (GetByID (sv_svc G) i) (GetByID script_svc i)" "mirrors G (list_events (sv_svc G) st ctx) (list_events script_svc st ctx)"
  "mirrors G (occ_GetByID (sv_svc G) n) (occ_GetByID script_svc n)" "mirrors G (occ_ListByTags (sv_svc G) f) (occ_ListByTags script_svc f)"
  "mirrors G (occ_ListByEventID (sv_svc G) i) (occ_ListByEventID script_svc i)"
  "mirrors G (ExistsAtTime (sv_svc G) i t) (ExistsAtTime script_svc i t)"
  "mirrors G (CountCompletedByEventID (sv_svc G) i) (CountCompletedByEventID script_svc i)"
  "mirrors G (occ_Create (sv_svc G) oc) (occ_Create script_svc oc)"
  unfolding Create_def Update_def GetByID_def list_events_def occ_GetByID_def occ_ListByTags_def occ_ListByEventID_def ExistsAtTime_def
    CountCompletedByEventID_def occ_Create_def Let_def
  by (intro mirroring; auto intro!: mirroring split: dbreply.split)+

lemma mirrors_removals [mirroring]:
  "mirrors G (RemoveEventOccurrencesFromRedis up (sv_svc G) pre i) (RemoveEventOccurrencesFromRedis up script_svc pre i)"
  "mirrors G (Delete up (sv_svc G) pre i) (Delete up script_svc pre i)"
  unfolding RemoveEventOccurrencesFromRedis_def remove_if_of_def Delete_def
  by (intro mirroring; auto intro!: mirroring split: rreply.split dbreply.split)+

lemma mirrors_attempts [mirroring]: "mirrors G (schedule_attempts n (sv_svc G) pre oc ev) (schedule_attempts n script_svc pre oc ev)"
  by (induction n) (auto simp: ScheduleEvent_def Let_def intro!: mirroring)

lemma mirrors_expandEvent [mirroring]: "mirrors G (expandEvent (sv_svc G) X ev) (expandEvent script_svc X ev)"
  unfolding expandEvent_def expandRecurringEvent_def expandNonRecurringEvent_def expand_recurring_at_def expand_non_recurring_at_def
    run_option_def schedule_time_def scheduleWithRetry_def Let_def
  by (intro mirroring) (auto intro!: mirroring split: option.split sum.split)

lemma mirrors_rounds [mirroring]:
  "mirrors G (expand_each (sv_svc G) X evs) (expand_each script_svc X evs)"
  "mirrors G (ExpandEvents (sv_svc G) X) (ExpandEvents script_svc X)"
  "mirrors G (archive_cycle off (sv_svc G) period ret) (archive_cycle off script_svc period ret)"
  "mirrors G (background (sv_svc G) X job) (background script_svc X job)"
  "mirrors G (GetDueSchedules (sv_svc G) pre) (GetDueSchedules script_svc pre)"
  "mirrors G (poller_turn (sv_svc G) D) (poller_turn script_svc D)"
proof -
  show each: "mirrors G (expand_each (sv_svc G) X evs) (expand_each script_svc X evs)" for evs
    by (induction evs) (auto intro!: mirroring)
  show "mirrors G (ExpandEvents (sv_svc G) X) (ExpandEvents script_svc X)"
    unfolding ExpandEvents_def ListActive_def by (intro mirroring each)
qed (unfold archive_cycle_def acquireArchiveLock_def releaseArchiveLock_def shouldArchiveRedis_def updateLastArchivalTimeRedis_def
    background_def GetDueSchedules_def poller_turn_def, (intro mirroring; auto intro!: mirroring split: rreply.split dbreply.split)+)

lemma mirrors_dispatch [mirroring]:
  "mirrors G (Execute (dispatch_manager (sv_svc G) hmac re) ev) (Execute (dispatch_manager script_svc hmac re) ev)"
  by (auto simp: Execute_def dispatch_manager_def Register_def NewActionsManager_def WebhookExecutor_def WebsocketExecutor_def
      APICallExecutor_def send_request_def intro!: mirroring split: option.split sum.split)

lemma mirrors_worker [mirroring]:
  "mirrors G (process_item up (sv_svc G) D item) (process_item up script_svc D item)"
  "mirrors G (worker_turn up (sv_svc G) D) (worker_turn up script_svc D)"
proof -
  show item: "mirrors G (process_item up (sv_svc G) D item) (process_item up script_svc D item)" for item
    unfolding process_item_def DispatchAction_def logErrOccurrence_def auto_inactivate_def inactivate_def recurring_finished_def
      until_passed_def retry_later_def Let_def
    by (intro mirroring)
  show "mirrors G (worker_turn up (sv_svc G) D) (worker_turn up script_svc D)"
    unfolding worker_turn_def by (intro mirroring) (auto intro!: mirroring item split: rreply.split list.split)
qed

lemma mirrors_handlers [mirroring]:
  "mirrors G (CreateEvent (sv_svc G) X body) (CreateEvent script_svc X body)"
  "mirrors G (UpdateEvent up (sv_svc G) X i body) (UpdateEvent up script_svc X i body)"
  "mirrors G (DeleteEvent up (sv_svc G) X i) (DeleteEvent up script_svc X i)"
  "mirrors G (EventHandlers.GetEvent up (sv_svc G) i) (EventHandlers.GetEvent up script_svc i)"
  "mirrors G (ListEventsByTags (sv_svc G) tags) (ListEventsByTags script_svc tags)"
  "mirrors G (GetOccurrence (sv_svc G) i) (GetOccurrence script_svc i)"
  "mirrors G (ListOccurrencesByTags (sv_svc G) ts page limit) (ListOccurrencesByTags script_svc ts page limit)"
  "mirrors G (ListOccurrencesByEvent up (sv_svc G) i) (ListOccurrencesByEvent up script_svc i)"
  "mirrors G (CreateToken (sv_svc G) J tok h body) (CreateToken script_svc J tok h body)"
  "mirrors G (RequestIDMiddleware (sv_svc G) rid) (RequestIDMiddleware script_svc rid)"
  "mirrors G (RateLimit (sv_ttl G) L c) (RateLimit script_ttl L c)"
  unfolding CreateEvent_def UpdateEvent_def update_found_def start_time_replies_def DeleteEvent_def EventHandlers.GetEvent_def
    ListEventsByTags_def ListAll_def ListByTags_def GetOccurrence_def ListOccurrencesByTags_def ListOccurrencesByEvent_def
    CreateToken_def CreateJWTToken_def RequestIDMiddleware_def RateLimit_code Let_def
  by (intro mirroring)+

lemma mirrors_requests [mirroring]:
  "mirrors G (endpoint_handler G q e) (endpoint_handler (scripted G) q e)" "mirrors G (serve G q) (serve (scripted G) q)"
proof -
  have s: "sv_svc (scripted G) = script_svc" "sv_ttl (scripted G) = script_ttl" "sv_uuid (scripted G) = sv_uuid G"
    "sv_expander (scripted G) = sv_expander G" "sv_master (scripted G) = sv_master G" "sv_jwt (scripted G) = sv_jwt G"
    "sv_tokens (scripted G) = sv_tokens G" "sv_limiter (scripted G) = sv_limiter G" "sv_unrouted (scripted G) = sv_unrouted G"
    "sv_start (scripted G) = sv_start G" "sv_seconds (scripted G) = sv_seconds G"
    by (simp_all add: scripted_def)
  show handler: "mirrors G (endpoint_handler G q e) (endpoint_handler (scripted G) q e)" for e
    unfolding endpoint_handler_def just_def StatusHandler_def Let_def s
    by (cases e) (auto intro!: mirroring split: gate.split)
  have "mirrors G (SetupRoutes G q e) (SetupRoutes (scripted G) q e)" for e
    unfolding SetupRoutes_def s by (auto intro!: mirroring handler split: gate.split)
  then show "mirrors G (serve G q) (serve (scripted G) q)"
    unfolding serve_def s by (intro mirroring)
qed

lemma mirrors_task: "mirrors G (task_code G t) (task_code (scripted G) t)"
proof -
  have "sv_svc (scripted G) = script_svc" "sv_uuid (scripted G) = sv_uuid G" "sv_expander (scripted G) = sv_expander G"
    "sv_dispatcher (scripted G) = sv_dispatcher G" "sv_zone (scripted G) = sv_zone G" "sv_check_period (scripted G) = sv_check_period G"
    "sv_retention (scripted G) = sv_retention G"
    by (simp_all add: scripted_def)
  then show ?thesis by (cases t) (auto simp: task_code_def intro!: mirroring)
qed

text \<open>
  So a thread that runs alone makes the calls of its computation, with the computation's effect and result: it is not stuck
  before the end, and it ends.
\<close>

lemma thread_alone:
  "\<exists>h. calls G h w (after (task_code G t) w) \<and> finished G t h = Some (result_of (task_code G t) w)
     \<and> (\<forall>h1 c a h2. h = h1 @ (c, a) # h2 \<longrightarrow> next_call G t h1 = Some c)"
proof -
  obtain h where h: "calls G h w (after (task_code G t) w)" "follows h (result_of (task_code G t) w) (task_code (scripted G) t)"
    using mirrors_task [of G t] by (auto simp: mirrors_def)
  have s: "fresh_script k = script_at [] k None" for k by (simp add: fresh_script_def script_at_def)
  have "run_state (task_code (scripted G) t) (fresh_script (h @ [])) = (result_of (task_code G t) w, script_at h [] None)"
    using h(2) unfolding follows_def s by (metis append_Nil)
  then have "finished G t h = Some (result_of (task_code G t) w)" by (simp add: finished_def replay_def)
  moreover have "next_call G t h1 = Some c" if "h = h1 @ (c, a) # h2" for h1 c a h2
  proof -
    have "snd (run_state (task_code (scripted G) t) (fresh_script h1)) = script_at h1 [] (Some c)"
      using h(2) that unfolding follows_def s by (metis append_Nil)
    then show ?thesis by (simp add: next_call_def replay_def)
  qed
  ultimately show ?thesis using h(1) by blast
qed

end
