(* ===== verification/Granularity.thy ===== *)
theory Granularity
  imports Interleaving Replay
begin

text \<open>
  The two views of the server. \<open>Server.server_step\<close> takes a whole request, goroutine or turn of a loop as one step; the machine of
  \<open>Interleaving\<close> takes single calls. Every run of the first is one of the second, in which the threads happen not to
  come between each other's calls: what is proved of the machine holds of those runs, too. A demonstration run goes through the machine.
\<close>

section \<open>A thread that runs undisturbed\<close>

lemma machine_run_trans: "machine_run G env m' m'' \<Longrightarrow> machine_run G env m m' \<Longrightarrow> machine_run G env m m''"
  by (induction rule: machine_run.induct) (auto intro: machine_run.next_step)

lemma machine_run_one: "machine_step G env m m' \<Longrightarrow> machine_run G env m m'"
  by (rule machine_run.next_step [OF machine_run.start])

lemma thread_runs:
  assumes "\<And>h1 c a h2. h = h1 @ (c, a) # h2 \<Longrightarrow> next_call G t (k @ h1) = Some c" "calls G h w w'"
  shows "machine_run G env \<lparr>mc_world = w, mc_threads = add_mset (t, k) R, mc_log = L\<rparr>
    \<lparr>mc_world = w', mc_threads = add_mset (t, k @ h) R, mc_log = L @ h\<rparr>"
  using assms
proof (induction h arbitrary: k w L)
  case Nil
  then show ?case by (simp add: machine_run.start)
next
  case (Cons x h)
  obtain c a where x: "x = (c, a)" by fastforce
  with Cons.prems(2) obtain w1 where w1: "run_state (perform G c) w = (a, w1)" "calls G h w1 w'" by auto
  have "next_call G t k = Some c" using Cons.prems(1) [of "[]" c a h] x by simp
  with machine_step.call [of t k "\<lparr>mc_world = w, mc_threads = add_mset (t, k) R, mc_log = L\<rparr>" G c a w1 env] w1(1)
  have "machine_step G env \<lparr>mc_world = w, mc_threads = add_mset (t, k) R, mc_log = L\<rparr>
      \<lparr>mc_world = w1, mc_threads = add_mset (t, k @ [(c, a)]) R, mc_log = L @ [(c, a)]\<rparr>" by simp
  moreover have "machine_run G env \<lparr>mc_world = w1, mc_threads = add_mset (t, k @ [(c, a)]) R, mc_log = L @ [(c, a)]\<rparr>
      \<lparr>mc_world = w', mc_threads = add_mset (t, (k @ [(c, a)]) @ h) R, mc_log = (L @ [(c, a)]) @ h\<rparr>"
    using w1(2) Cons.prems(1) [of "(c, a) # _"] x by (intro Cons.IH) auto
  ultimately show ?case by (simp add: x) (blast intro: machine_run_trans machine_run_one)
qed

text \<open>A whole task, from its start to its end.\<close>

definition jobs_left :: "event option \<Rightarrow> thread multiset" where
  "jobs_left job = (case job of None \<Rightarrow> {#} | Some ev \<Rightarrow> {#(Job ev, [])#})"

lemma thread_returns:
  assumes "finished G t h = Some job"
  shows "machine_run G env \<lparr>mc_world = w, mc_threads = add_mset (t, h) R, mc_log = L\<rparr> \<lparr>mc_world = w, mc_threads = jobs_left job + R, mc_log = L\<rparr>"
  using machine_run_one [OF machine_step.return [OF _ assms, of "\<lparr>mc_world = w, mc_threads = add_mset (t, h) R, mc_log = L\<rparr>" env]]
  by (simp add: jobs_left_def)

lemma task_runs:
  "\<exists>L'. machine_run G env \<lparr>mc_world = w, mc_threads = add_mset (t, []) R, mc_log = L\<rparr>
    \<lparr>mc_world = after (task_code G t) w, mc_threads = jobs_left (result_of (task_code G t) w) + R, mc_log = L'\<rparr>"
proof -
  obtain h where h: "calls G h w (after (task_code G t) w)" "finished G t h = Some (result_of (task_code G t) w)"
    "\<And>h1 c a h2. h = h1 @ (c, a) # h2 \<Longrightarrow> next_call G t h1 = Some c"
    using thread_alone [of G w t] by blast
  from thread_runs [of h G t "[]", OF _ h(1)] h(3)
  have "machine_run G env \<lparr>mc_world = w, mc_threads = add_mset (t, []) R, mc_log = L\<rparr>
    \<lparr>mc_world = after (task_code G t) w, mc_threads = add_mset (t, h) R, mc_log = L @ h\<rparr>" by simp
  with thread_returns [OF h(2)] show ?thesis by (blast intro: machine_run_trans)
qed

lemma task_started:
  assumes "starts t"
  shows "\<exists>L'. machine_run G env \<lparr>mc_world = w, mc_threads = R, mc_log = L\<rparr>
    \<lparr>mc_world = after (task_code G t) w, mc_threads = jobs_left (result_of (task_code G t) w) + R, mc_log = L'\<rparr>"
proof -
  have "machine_run G env \<lparr>mc_world = w, mc_threads = R, mc_log = L\<rparr> \<lparr>mc_world = w, mc_threads = add_mset (t, []) R, mc_log = L\<rparr>"
    using machine_run_one [OF machine_step.spawn [OF assms, of G env "\<lparr>mc_world = w, mc_threads = R, mc_log = L\<rparr>"]] by simp
  with task_runs [of G env w t R L] show ?thesis by (blast intro: machine_run_trans)
qed

section \<open>The two halves of a worker's turn\<close>

definition popped_thread :: "'w server \<Rightarrow> string \<times> string \<Rightarrow> thread" where
  "popped_thread G x = (WorkerTurn, [(CallRedis (BRPOP (di_prefix (sv_dispatcher G) @ dispatchQueueKey)), GotRedis (Inr (RArr [fst x, snd x])))])"

lemma worker_script:
  fixes G :: "'w server"
  defines "c \<equiv> CallRedis (BRPOP (di_prefix (sv_dispatcher G) @ dispatchQueueKey))"
  shows "replay G WorkerTurn [] = (None, script_at [] [] (Some c))"
    "run_state (task_code (scripted G) WorkerTurn) (fresh_script ((c, GotRedis r) # h)) =
       (case r of
          Inr (RArr [_, v]) \<Rightarrow> (None, snd (run_state (process_item (sv_uuid G) script_svc (sv_dispatcher G) v) (script_at [(c, GotRedis r)] h None)))
        | _ \<Rightarrow> (None, script_at [(c, GotRedis r)] h None))"
  by (auto simp: c_def replay_def task_code_def scripted_def worker_turn_def redis_def script_svc_def ask_def fresh_script_def script_at_def
      State_Monad.bind_def State_Monad.return_def split: sum.split rreply.split list.split prod.split)

lemma worker_pops:
  assumes "run_state (redis (sv_svc G) (BRPOP (di_prefix (sv_dispatcher G) @ dispatchQueueKey))) w = (r, w')"
  shows "\<exists>L'. machine_run G env \<lparr>mc_world = w, mc_threads = R, mc_log = L\<rparr> \<lparr>mc_world = w',
    mc_threads = (case r of Inr (RArr [k, v]) \<Rightarrow> {#popped_thread G (k, v)#} | _ \<Rightarrow> {#}) + R, mc_log = L'\<rparr>"
proof -
  let ?c = "CallRedis (BRPOP (di_prefix (sv_dispatcher G) @ dispatchQueueKey))"
  let ?m1 = "\<lparr>mc_world = w, mc_threads = add_mset (WorkerTurn, []) R, mc_log = L\<rparr>"
  obtain x where x: "run_state (perform G ?c) w = (GotRedis x, w')" "r = map_sum Errorf id x"
    using assms by (auto simp: redis_def State_Monad.bind_def State_Monad.return_def split: prod.splits)
  let ?m2 = "\<lparr>mc_world = w', mc_threads = add_mset (WorkerTurn, [(?c, GotRedis x)]) R, mc_log = L @ [(?c, GotRedis x)]\<rparr>"
  have "machine_step G env \<lparr>mc_world = w, mc_threads = R, mc_log = L\<rparr> ?m1"
    using machine_step.spawn [of WorkerTurn G env "\<lparr>mc_world = w, mc_threads = R, mc_log = L\<rparr>"] by (simp add: starts_def)
  moreover have "next_call G WorkerTurn [] = Some ?c" by (simp add: next_call_def worker_script(1))
  with machine_step.call [of WorkerTurn "[]" ?m1 G ?c "GotRedis x" w' env] x(1) have "machine_step G env ?m1 ?m2" by simp
  ultimately have run: "machine_run G env \<lparr>mc_world = w, mc_threads = R, mc_log = L\<rparr> ?m2"
    by (blast intro: machine_run.intros)
  show ?thesis
  proof (cases "\<exists>k v. x = Inr (RArr [k, v])")
    case True
    with run x(2) show ?thesis by (intro exI [of _ "L @ [(?c, GotRedis x)]"]) (auto simp: popped_thread_def)
  next
    case False
    then have "finished G WorkerTurn [(?c, GotRedis x)] = Some None"
      by (auto simp: finished_def replay_def worker_script(2) split: sum.split rreply.split list.split)
    from thread_returns [OF this, of env w' R] run have "machine_run G env \<lparr>mc_world = w, mc_threads = R, mc_log = L\<rparr>
        \<lparr>mc_world = w', mc_threads = R, mc_log = L @ [(?c, GotRedis x)]\<rparr>" by (auto simp: jobs_left_def intro: machine_run_trans)
    moreover have "(case r of Inr (RArr [k, v]) \<Rightarrow> {#popped_thread G (k, v)#} | _ \<Rightarrow> {#}) = {#}"
      using False x(2) by (cases x) (auto split: rreply.split list.split)
    ultimately show ?thesis by auto
  qed
qed

lemma worker_processes:
  "\<exists>L'. machine_run G env \<lparr>mc_world = w, mc_threads = add_mset (popped_thread G (k, v)) R, mc_log = L\<rparr>
    \<lparr>mc_world = after (process_item (sv_uuid G) (sv_svc G) (sv_dispatcher G) v) w, mc_threads = R, mc_log = L'\<rparr>"
proof -
  let ?m = "process_item (sv_uuid G) (sv_svc G) (sv_dispatcher G) v"
  let ?x = "(CallRedis (BRPOP (di_prefix (sv_dispatcher G) @ dispatchQueueKey)), GotRedis (Inr (RArr [k, v])))"
  obtain h where h: "calls G h w (after ?m w)" "follows h (result_of ?m w) (process_item (sv_uuid G) script_svc (sv_dispatcher G) v)"
    using mirrors_worker(1) [of G "sv_uuid G" "sv_dispatcher G" v] by (auto simp: mirrors_def)
  have replayed: "replay G WorkerTurn (?x # h1) = (None, snd (run_state (process_item (sv_uuid G) script_svc (sv_dispatcher G) v) (script_at [?x] h1 None)))"
    for h1 by (simp add: replay_def worker_script(2))
  have "next_call G WorkerTurn ([?x] @ h1) = Some c" if "h = h1 @ (c, a) # h2" for h1 c a h2
    using h(2) that by (simp add: next_call_def replayed follows_def)
  from thread_runs [of h G WorkerTurn "[?x]", OF this h(1)]
  have run: "machine_run G env \<lparr>mc_world = w, mc_threads = add_mset (popped_thread G (k, v)) R, mc_log = L\<rparr>
    \<lparr>mc_world = after ?m w, mc_threads = add_mset (WorkerTurn, [?x] @ h) R, mc_log = L @ h\<rparr>" by (simp add: popped_thread_def)
  have "run_state (process_item (sv_uuid G) script_svc (sv_dispatcher G) v) (script_at [?x] (h @ []) None) = (result_of ?m w, script_at ([?x] @ h) [] None)"
    using h(2) unfolding follows_def by blast
  then have "finished G WorkerTurn ([?x] @ h) = Some None" by (simp add: finished_def replayed)
  from thread_returns [OF this, of env "after ?m w" R "L @ h"] run show ?thesis by (auto simp: jobs_left_def intro: machine_run_trans)
qed

section \<open>Every run of the server is a run of the machine\<close>

text \<open>The machine's threads, when none is between two calls: the goroutines that handlers left, and the workers that hold an item.\<close>

definition stands_for :: "'w server \<Rightarrow> 'w machine \<Rightarrow> 'w process \<Rightarrow> bool" where
  "stands_for G m p \<longleftrightarrow> mc_world m = pr_world p
     \<and> (\<exists>B. mc_threads m = image_mset (\<lambda>ev. (Job ev, [])) (pr_jobs p) + image_mset (popped_thread G) B \<and> image_mset snd B = pr_busy p)"

lemma stands_for_start: "pr_jobs p = {#} \<Longrightarrow> pr_busy p = {#} \<Longrightarrow> stands_for G \<lparr>mc_world = pr_world p, mc_threads = {#}, mc_log = []\<rparr> p"
  by (auto simp: stands_for_def)

lemma threads_die: "machine_run G env \<lparr>mc_world = w, mc_threads = T, mc_log = L\<rparr> \<lparr>mc_world = w, mc_threads = {#}, mc_log = L\<rparr>"
proof (induction T)
  case (add x T)
  have "machine_step G env \<lparr>mc_world = w, mc_threads = add_mset x T, mc_log = L\<rparr> \<lparr>mc_world = w, mc_threads = T, mc_log = L\<rparr>"
    using machine_step.die [of x "\<lparr>mc_world = w, mc_threads = add_mset x T, mc_log = L\<rparr>" G env] by simp
  with add show ?case by (blast intro: machine_run_trans machine_run_one)
qed (rule machine_run.start)

lemma server_step_interleaves:
  assumes step: "server_step G env p p'" and m: "stands_for G m p"
  shows "\<exists>m'. machine_run G env m m' \<and> stands_for G m' p'"
proof -
  obtain w T L where m_eq: "m = \<lparr>mc_world = w, mc_threads = T, mc_log = L\<rparr>" by (cases m)
  obtain B where w: "w = pr_world p" and T: "T = image_mset (\<lambda>ev. (Job ev, [])) (pr_jobs p) + image_mset (popped_thread G) B"
    and B: "image_mset snd B = pr_busy p" using m by (auto simp: stands_for_def m_eq)
  have reach: ?thesis if "machine_run G env m \<lparr>mc_world = w', mc_threads = T', mc_log = L'\<rparr>" "pr_world p' = w'"
      "T' = image_mset (\<lambda>ev. (Job ev, [])) (pr_jobs p') + image_mset (popped_thread G) B'" "image_mset snd B' = pr_busy p'" for w' T' L' B'
  proof (intro exI conjI)
    show "machine_run G env m \<lparr>mc_world = w', mc_threads = T', mc_log = L'\<rparr>" by (rule that(1))
    show "stands_for G \<lparr>mc_world = w', mc_threads = T', mc_log = L'\<rparr> p'" using that(2-4) by (auto simp: stands_for_def)
  qed
  have whole: ?thesis if t: "starts t" "pr_world p' = after (task_code G t) w" "pr_busy p' = pr_busy p"
      "pr_jobs p' = pr_jobs p + jobs_of (result_of (task_code G t) w)" for t
  proof -
    have "jobs_left job = image_mset (\<lambda>ev. (Job ev, [])) (jobs_of job)" for job
      by (simp add: jobs_left_def jobs_of_def split: option.split)
    then have "jobs_left (result_of (task_code G t) w) + T = image_mset (\<lambda>ev. (Job ev, [])) (pr_jobs p') + image_mset (popped_thread G) B"
      by (simp add: T t(4))
    moreover obtain L' where "machine_run G env m \<lparr>mc_world = after (task_code G t) w, mc_threads = jobs_left (result_of (task_code G t) w) + T, mc_log = L'\<rparr>"
      using task_started [OF t(1), of G env w T L] by (auto simp: m_eq)
    ultimately show ?thesis using t(2,3) B by (intro reach) simp_all
  qed
  from step show ?thesis
  proof (cases rule: server_step.cases)
    case (request q rs job w')
    then have "run_state (task_code G (Request q)) w = (job, w')"
      by (simp add: task_code_def State_Monad.bind_def State_Monad.return_def w)
    then show ?thesis using request by (intro whole [of "Request q"]) (simp_all add: starts_def after_def result_of_def)
  next
    case (goroutine ev)
    then obtain J where J: "pr_jobs p = add_mset ev J" by (auto dest: multi_member_split)
    have "result_of (task_code G (Job ev)) w = None" "after (task_code G (Job ev)) w = pr_world p'"
      using goroutine by (auto simp: task_code_def result_of_def after_def State_Monad.bind_def State_Monad.return_def w split: prod.split)
    moreover obtain L' where "machine_run G env m \<lparr>mc_world = after (task_code G (Job ev)) w, mc_threads = jobs_left (result_of (task_code G (Job ev)) w)
        + (image_mset (\<lambda>ev. (Job ev, [])) J + image_mset (popped_thread G) B), mc_log = L'\<rparr>"
      using task_runs [of G env w "Job ev" "image_mset (\<lambda>ev. (Job ev, [])) J + image_mset (popped_thread G) B" L] by (auto simp: m_eq T J)
    ultimately show ?thesis using B goroutine by (intro reach) (simp_all add: J jobs_left_def)
  next
    case mover
    then show ?thesis
      by (intro whole [of MoverTurn]) (auto simp: starts_def task_code_def w jobs_of_def result_of_def after_def State_Monad.bind_def State_Monad.return_def split: prod.split)
  next
    case (worker_pop r w')
    from worker_pops [of G w r w' env T L] worker_pop w obtain L' where run: "machine_run G env m \<lparr>mc_world = w',
        mc_threads = (case r of Inr (RArr [k, v]) \<Rightarrow> {#popped_thread G (k, v)#} | _ \<Rightarrow> {#}) + T, mc_log = L'\<rparr>" by (auto simp: m_eq)
    show ?thesis
    proof (cases "\<exists>k v. r = Inr (RArr [k, v])")
      case True
      then obtain k v where r: "r = Inr (RArr [k, v])" by blast
      show ?thesis
        by (rule reach [OF run, of "add_mset (k, v) B"]) (simp_all add: worker_pop T r B)
    next
      case False
      then have none: "(case r of Inr (RArr [k, v]) \<Rightarrow> f k v | _ \<Rightarrow> {#}) = {#}" for f :: "string \<Rightarrow> string \<Rightarrow> 'x multiset"
        by (auto split: sum.split rreply.split list.split)
      show ?thesis
        by (rule reach [OF run, of B]) (simp_all add: worker_pop T none B)
    qed
  next
    case (worker_process v)
    then obtain x where x: "x \<in># B" "v = snd x" unfolding B [symmetric] by auto
    then obtain k B' where B': "B = add_mset (k, v) B'" by (cases x) (auto dest: multi_member_split)
    from worker_processes [of G env w k v "image_mset (\<lambda>ev. (Job ev, [])) (pr_jobs p) + image_mset (popped_thread G) B'" L]
    obtain L' where run: "machine_run G env m \<lparr>mc_world = after (process_item (sv_uuid G) (sv_svc G) (sv_dispatcher G) v) w,
        mc_threads = image_mset (\<lambda>ev. (Job ev, [])) (pr_jobs p) + image_mset (popped_thread G) B', mc_log = L'\<rparr>"
      by (auto simp: m_eq T B')
    have busy: "pr_busy p = add_mset v (image_mset snd B')" using B by (simp add: B')
    show ?thesis
      by (rule reach [OF run, of B']) (simp_all add: worker_process(1) w busy)
  next
    case poller
    then show ?thesis
      by (intro whole [of PollerTurn]) (auto simp: starts_def task_code_def w jobs_of_def result_of_def after_def State_Monad.bind_def State_Monad.return_def split: prod.split)
  next
    case expander
    then show ?thesis
      by (intro whole [of ExpanderRound]) (auto simp: starts_def task_code_def w jobs_of_def result_of_def after_def State_Monad.bind_def State_Monad.return_def split: prod.split)
  next
    case archiver
    then show ?thesis
      by (intro whole [of ArchiverRound]) (auto simp: starts_def task_code_def w jobs_of_def result_of_def after_def State_Monad.bind_def State_Monad.return_def split: prod.split)
  next
    case restart
    have "machine_run G env m \<lparr>mc_world = w, mc_threads = {#}, mc_log = L\<rparr>" by (simp add: m_eq threads_die)
    from reach [OF this, of "{#}"] restart w show ?thesis by simp
  next
    case (outside w')
    with machine_step.outside [of env m w' G] m show ?thesis
      by (intro exI [of _ "m\<lparr>mc_world := w'\<rparr>"]) (auto simp: stands_for_def m_eq intro: machine_run_one)
  qed
qed

lemma server_run_interleaves:
  assumes "server_run G env p p'" "stands_for G m p"
  shows "\<exists>m'. machine_run G env m m' \<and> stands_for G m' p'"
  using assms
proof (induction rule: server_run.induct)
  case (start p)
  then show ?case by (blast intro: machine_run.start)
next
  case (next_step p p' p'')
  then show ?case by (meson server_step_interleaves machine_run_trans)
qed

section \<open>A concrete run\<close>

lemma demo_hset: "hset_exact mem_svc mem_views"
  by (simp add: hset_exact_def mem_answers)

theorem interleaved_calls_refine_pipeline_witness:
  "\<exists>m. mc_world m = pr_world demo_end \<and> pipe_steps 3 empty_pipeline (machine_pipeline demo_server mem_views m)"
proof -
  let ?m = "\<lparr>mc_world = pr_world demo_start, mc_threads = {#}, mc_log = []\<rparr>"
  have "pr_jobs demo_start = {#}" "pr_busy demo_start = {#}" by (simp_all add: demo_start_def)
  from server_run_interleaves [OF demo_process stands_for_start [OF this]]
  obtain m where m: "machine_run demo_server mem_env ?m m" "stands_for demo_server m demo_end" by blast
  have svc: "svc_ok (sv_svc demo_server) mem_pg mem_views" "limiter_apart mem_views (sv_ttl demo_server)"
    "server_fits demo_server" "hset_exact (sv_svc demo_server) mem_views" "di_maxRetries (sv_dispatcher demo_server) = 3"
    by (simp_all add: demo_server_def mem_svc_ok mem_ttl_apart server_fits_def is_int64_def demo_hset)
  have "stores_fit mem_views (\<lambda>i. sv_uuid demo_server i = Some i) (mc_world ?m)"
    using demo_typed by (simp add: stores_fit_def stores_typed_def demo_start_def) (simp add: demo_server_def)
  moreover have "stored_payloads (di_prefix (sv_dispatcher demo_server)) (rv mem_views (mc_world ?m)) = Map.empty"
    "dispatch_queue (di_prefix (sv_dispatcher demo_server)) (rv mem_views (mc_world ?m)) = []"
    "retry_queue (di_prefix (sv_dispatcher demo_server)) (rv mem_views (mc_world ?m)) = []"
    by (simp_all add: demo_start_def demo_mem_def stored_payloads_def dispatch_queue_def retry_queue_def no_rdata_def zmembers_def)
  ultimately show ?thesis
    using interleaved_calls_refine_pipeline [OF svc(1) mem_pg_ok svc(2) mem_env_apart mem_fresh_ids svc(3,4) _ _ _ _ _ _ m(1)] m(2)
    unfolding svc(5) Let_def by (auto simp: stands_for_def)
qed

end
