(* ===== verification/Duplicates.thy ===== *)
theory Duplicates
  imports Expansion
begin

text \<open>
  Where an occurrence enters the pipeline twice. \<open>ScheduleEvent\<close> takes the hash of payloads as its memory of what is
  scheduled, and the script of \<open>GetDueSchedules\<close> clears that memory when it moves an entry to the queue. So between the move
  and the recording of the occurrence by a worker nothing stands in the way of a second entry for the same time: neither of
  the attempts of \<open>scheduleWithRetry\<close>, nor of a later round of the expander.
\<close>

section \<open>What the move forgets\<close>

lemma move_no_orphans:
  assumes "rdata_ok d" "no_orphans pre d"
  shows "no_orphans pre (move_entries pre now d)"
  unfolding no_orphans_def
proof (intro allI impI)
  fix k assume "rd_hashes (move_entries pre now d) (pre @ scheduleDataKey) k \<noteq> None"
  then have k: "k \<notin> set (due_keys pre now d)" "rd_hashes d (pre @ scheduleDataKey) k \<noteq> None"
    by (simp_all add: move_entries_result(2) [OF assms(1)] split: if_splits)
  with assms(2) obtain s v where sv: "pending_entries pre d k = Some (s, v)"
    unfolding no_orphans_def by (metis not_None_eq surj_pair)
  then have "score_of k (rd_zsets d (pre @ ScheduleKey)) = Some s"
    by (simp add: pending_entries_def split: option.splits)
  with k(1) have "\<not> (0 \<le> s \<and> s \<le> now)" by (simp add: due_keys(2) [OF assms(1)])
  with sv show "pending_entries pre (move_entries pre now d) k \<noteq> None"
    by (auto simp: redis_store.move_pending [OF assms(1)])
qed

text \<open>The payload \<open>v\<close> of a time is in the queue, the time is pending once more, and the next move from its second on queues it
  a second time, next to \<open>v\<close>.\<close>

definition queued_again :: "string \<Rightarrow> uuid \<Rightarrow> instant \<Rightarrow> string \<Rightarrow> string \<Rightarrow> rdata \<Rightarrow> bool" where
  "queued_again pre i t v v' d \<longleftrightarrow>
     v \<in> set (dispatch_queue pre d) \<and> pending_entries pre d (schedule_key i t) = Some (unix t, v')
   \<and> (\<forall>m \<ge> unix t. {#v, v'#} \<subseteq># mset (dispatch_queue pre (move_entries pre m d)))"

lemma queued_againI:
  assumes "rdata_ok d" "v \<in> set (dispatch_queue pre d)" "pending_entries pre d (schedule_key i t) = Some (unix t, v')" "0 \<le> unix t"
  shows "queued_again pre i t v v' d"
  unfolding queued_again_def
proof (intro conjI allI impI assms(2,3))
  fix m assume "unix t \<le> m"
  obtain ks where ks: "distinct ks" "set ks = {k. \<exists>s v. pending_entries pre d k = Some (s, v) \<and> 0 \<le> s \<and> s \<le> m}"
    "dispatch_queue pre (move_entries pre m d) = dispatch_queue pre d @ map (\<lambda>k. snd (the (pending_entries pre d k))) ks"
    by (rule redis_store.move_readyE [OF assms(1)])
  have "schedule_key i t \<in> set ks" using assms(3,4) \<open>unix t \<le> m\<close> by (simp add: ks(2))
  then have "v' \<in> set (map (\<lambda>k. snd (the (pending_entries pre d k))) ks)" using assms(3) by force
  with assms(2) have "{#v#} + {#v'#} \<subseteq># mset (dispatch_queue pre d) + mset (map (\<lambda>k. snd (the (pending_entries pre d k))) ks)"
    by (intro subset_mset.add_mono) auto
  then show "{#v, v'#} \<subseteq># mset (dispatch_queue pre (move_entries pre m d))" by (simp add: ks(3) add_mset_commute)
qed

section \<open>A lost reply\<close>

text \<open>C15. An attempt of \<open>ScheduleEvent\<close> writes the entry but loses the reply of the last command to a timeout. So
  \<open>scheduleWithRetry\<close> goes on to its next attempt. When the script moved the entry in between, this attempt finds the key free and
  reports success, with the result that one and the same payload, under one occurrence identifier, is in the dispatch queue and
  in the schedule, and the next move queues it twice.\<close>

theorem lost_reply_enters_twice:
  assumes "svc_ok S P V" "rdata_ok (rv V w)" "\<not> scheduled_key pre oc ev (rv V w)"
    "result_of (ScheduleEvent S pre oc ev) w = Inl e" "isRedisTimeoutOrConnError (error_text e)"
    "w1 = after (ScheduleEvent S pre oc ev) w" "scheduled_key pre oc ev (rv V w1)"
    "rv V w2 = move_entries pre now (rv V w1)" "0 \<le> unix (oc_scheduled_at oc)" "unix (oc_scheduled_at oc) \<le> now"
    "is_ok (result_of (ScheduleEvent S pre oc ev) w2)"
  shows "(\<forall>n. after (schedule_attempts (Suc n) S pre oc ev) w = after (schedule_attempts n S pre oc ev) w1)
    \<and> (\<exists>v. marshal_schedule (schedule_of oc ev) = Inr v
         \<and> queued_again pre (ev_id ev) (oc_scheduled_at oc) v v (rv V (after (ScheduleEvent S pre oc ev) w2)))"
proof (rule conjI)
  show "\<forall>n. after (schedule_attempts (Suc n) S pre oc ev) w = after (schedule_attempts n S pre oc ev) w1"
    using assms(4-6) by (cases "run_state (ScheduleEvent S pre oc ev) w") (simp add: after_def result_of_def State_Monad.bind_def)
next
  let ?k = "schedule_key (ev_id ev) (oc_scheduled_at oc)" and ?t = "oc_scheduled_at oc"
  from wp_result [OF ScheduleEvent_wp [OF assms(1), of pre oc ev w]] assms(3,4,7)
  obtain v where v: "marshal_schedule (schedule_of oc ev) = Inr v" "rv V w1 = schedule_entry pre oc ev v (rv V w)"
    unfolding assms(6) by (auto simp: scheduled_key_def partial_entry_def)
  then have w1: "rdata_ok (rv V w1)" "pending_entries pre (rv V w1) ?k = Some (unix ?t, v)"
    by (simp_all add: schedule_entry_def redis_store.insert_inv redis_store.insert_pending assms(2))
  from redis_store.due_moves [OF w1 assms(9,10)] have queued: "v \<in> set (dispatch_queue pre (rv V w2))" unfolding assms(8) by simp
  have w2: "rdata_ok (rv V w2)" unfolding assms(8) by (rule redis_store.move_inv [OF w1(1)])
  have "?k \<in> set (due_keys pre now (rv V w1))"
    using w1(2) assms(9,10) by (auto simp: due_keys(2) [OF w1(1)] pending_entries_def split: option.splits)
  then have "\<not> scheduled_key pre oc ev (rv V w2)"
    unfolding assms(8) by (simp add: scheduled_key_def move_entries_result(2) [OF w1(1)])
  with wp_result [OF ScheduleEvent_wp [OF assms(1), of pre oc ev w2]] assms(11) v(1)
  have w3: "rv V (after (ScheduleEvent S pre oc ev) w2) = schedule_entry pre oc ev v (rv V w2)" by (auto elim!: is_okE)
  have "queued_again pre (ev_id ev) ?t v v (schedule_entry pre oc ev v (rv V w2))"
    using queued assms(9) unfolding schedule_entry_def
    by (intro queued_againI) (simp_all add: redis_store.insert_inv redis_store.insert_pending redis_store.insert_ready w2)
  with v(1) w3 show "\<exists>v. marshal_schedule (schedule_of oc ev) = Inr v
      \<and> queued_again pre (ev_id ev) ?t v v (rv V (after (ScheduleEvent S pre oc ev) w2))" by simp
qed

text \<open>A network that loses the reply of \<open>HSET\<close> while the peer of \<open>m_http\<close> is down.\<close>

definition lossy_svc :: "mem svc" where
  "lossy_svc = mem_svc\<lparr>redis_do := \<lambda>c. State (\<lambda>w. case redis_sem c (m_redis w) of (x, d) \<Rightarrow>
     (case (c, m_http w) of (HSET k f v, Inl e) \<Rightarrow> Inl ''read tcp: i/o timeout'' | _ \<Rightarrow> Inr x, w\<lparr>m_redis := d\<rparr>))\<rparr>"

lemma lossy_svc_ok: "svc_ok lossy_svc mem_pg mem_views"
  using mem_svc_ok
  by (auto simp: svc_ok_def lossy_svc_def svc_defs redis_effect_def split: prod.splits rcmd.splits sum.splits) 

theorem lost_reply_enters_twice_witness:
  "let lost = (mem_at (60 * second))\<lparr>m_http := Inl ''network down''\<rparr>;
       w1 = after (ScheduleEvent lossy_svc [] demo_occurrence demo_event) lost;
       w2 = (mem_at (61 * second))\<lparr>m_redis := move_entries [] 61 (m_redis w1)\<rparr>
   in \<exists>v. queued_again [] (mem_uuid 0) (60 * second) v v (m_redis (after (ScheduleEvent lossy_svc [] demo_occurrence demo_event) w2))"
proof -
  define lost where "lost = (mem_at (60 * second))\<lparr>m_http := Inl ''network down''\<rparr>"
  define w1 where "w1 = after (ScheduleEvent lossy_svc [] demo_occurrence demo_event) lost"
  define w2 where "w2 = (mem_at (61 * second))\<lparr>m_redis := move_entries [] 61 (m_redis w1)\<rparr>"
  obtain data where data: "marshal_schedule (schedule_of demo_occurrence demo_event) = Inr data"
    using wp_result [OF ScheduleEvent_wp [OF mem_svc_ok, of "[]" demo_occurrence demo_event "mem_at 0"]] demo_schedules
    by (auto simp: is_ok_def scheduled_key_def no_rdata_def split: sum.splits)
  have t: "unix (oc_scheduled_at demo_occurrence) = 60" by (simp add: demo_occurrence_def unix_def second_def)
  have first: "result_of (ScheduleEvent lossy_svc [] demo_occurrence demo_event) lost
        = Inl (wrap_err ''failed to add schedule to hash'' (Errorf ''read tcp: i/o timeout''))
      \<and> m_redis w1 = schedule_entry [] demo_occurrence demo_event data no_rdata"
    by (simp add: w1_def lost_def ScheduleEvent_def Let_def attempt_def redis_def lossy_svc_def mem_svc_def result_of_def after_def
        State_Monad.bind_def State_Monad.return_def data schedule_entry_def add_entry_def call_def)
       (simp add: no_rdata_def)
  have again: "is_ok (result_of (ScheduleEvent lossy_svc [] demo_occurrence demo_event) w2)"
    by (simp add: w2_def ScheduleEvent_def Let_def attempt_def redis_def lossy_svc_def mem_svc_def result_of_def
        State_Monad.bind_def State_Monad.return_def data mem_at_def)
  have "isRedisTimeoutOrConnError (error_text (wrap_err ''failed to add schedule to hash'' (Errorf ''read tcp: i/o timeout'')))"
    by code_simp
  moreover have "rdata_ok (rv mem_views lost)" "\<not> scheduled_key [] demo_occurrence demo_event (rv mem_views lost)"
    by (simp_all add: lost_def scheduled_key_def) (simp add: no_rdata_def)
  moreover have "scheduled_key [] demo_occurrence demo_event (rv mem_views w1)"
    using first by (simp add: scheduled_key_def schedule_entry_def add_entry_def)
  moreover have "rv mem_views w2 = move_entries [] 61 (rv mem_views w1)" by (simp add: w2_def)
  ultimately have "\<exists>v. queued_again [] (ev_id demo_event) (oc_scheduled_at demo_occurrence) v v
      (rv mem_views (after (ScheduleEvent lossy_svc [] demo_occurrence demo_event) w2))"
    using lost_reply_enters_twice [OF lossy_svc_ok _ _ first [THEN conjunct1] _ w1_def _ _ _ _ again, of 61] t by auto
  then show ?thesis
    unfolding Let_def lost_def [symmetric] w1_def [symmetric] w2_def [symmetric]
    by (simp add: demo_event_def demo_occurrence_def)
qed

section \<open>A round of the expander in between\<close>

text \<open>C3. The check for existing occurrences does not prevent duplicates: the expander looks for a payload in the hash and, for a
  recurring event, for a row of the occurrences, but an entry that waits in the dispatch queue has neither. So when the entry for a
  time of an event has been moved to the queue and no worker has recorded the occurrence yet, scheduling that time again, and for a
  one-time event every round of the expander within the grace period, adds a second entry under a new occurrence identifier, and the
  next move queues the time twice.\<close>

theorem queued_time_scheduled_again:
  assumes "svc_ok S P V" "reliable S" "rdata_ok (rv V w0)" "no_orphans (ex_prefix X) (rv V w0)"
    "pending_entries (ex_prefix X) (rv V w0) (schedule_key (ev_id ev) t) = Some (s, v)" "0 \<le> s" "s \<le> m" "0 \<le> unix t"
    "rv V w = move_entries (ex_prefix X) m (rv V w0)" "now = result_of (time_now S) w" "year_ok t" "year_ok now"
    "sql_answers S (ExistsOccurrence (ev_id ev) t)" "\<not> occurrence_at P (dv V w) (ev_id ev) t"
  shows "(\<exists>v'. new_payload ev now t v' \<and> queued_again (ex_prefix X) (ev_id ev) t v v' (rv V (after (schedule_time S (ex_prefix X) now ev t) w)))
    \<and> (t = ev_start_time ev \<and> window_opens X now \<le> t \<and> t \<le> window_closes X now \<longrightarrow>
         (\<exists>v'. new_payload ev now t v' \<and> queued_again (ex_prefix X) (ev_id ev) t v v' (rv V (after (expandNonRecurringEvent S X ev) w))))"
proof -
  let ?k = "schedule_key (ev_id ev) t"
  have w: "rdata_ok (rv V w)" "no_orphans (ex_prefix X) (rv V w)" "pending_entries (ex_prefix X) (rv V w) ?k = None"
    "v \<in> set (dispatch_queue (ex_prefix X) (rv V w))"
    using redis_store.due_moves [OF assms(3,5-7)] move_no_orphans [OF assms(3,4), of m]
    by (simp_all add: assms(9) redis_store.move_inv assms(3))
  have again: "\<exists>v'. new_payload ev now t v' \<and> queued_again (ex_prefix X) (ev_id ev) t v v' d"
    if d: "adds_entries (ex_prefix X) ev now {t} (rv V w) d" "pending_entries (ex_prefix X) d ?k \<noteq> None" for d
  proof -
    from d w(3) obtain v' where "new_payload ev now t v'" "pending_entries (ex_prefix X) d ?k = Some (unix t, v')"
      unfolding adds_entries_def by (metis singletonD)
    moreover have "rdata_ok d" "dispatch_queue (ex_prefix X) d = dispatch_queue (ex_prefix X) (rv V w)"
      using d(1) by (simp_all add: adds_entries_def dispatch_queue_def)
    ultimately show ?thesis using w(4) assms(8) by (auto intro!: queued_againI)
  qed
  show ?thesis
  proof (intro conjI impI)
    show "\<exists>v'. new_payload ev now t v' \<and> queued_again (ex_prefix X) (ev_id ev) t v v' (rv V (after (schedule_time S (ex_prefix X) now ev t) w))"
      using wp_result [OF schedule_time_wp [OF assms(1) w(1), of "ex_prefix X" now ev t]]
        wp_result [OF schedule_time_reliable [OF assms(1,2,13,11,12) w(1,2)]] assms(14)
      by (intro again) auto
  next
    assume t: "t = ev_start_time ev \<and> window_opens X now \<le> t \<and> t \<le> window_closes X now"
    then show "\<exists>v'. new_payload ev now t v' \<and> queued_again (ex_prefix X) (ev_id ev) t v v' (rv V (after (expandNonRecurringEvent S X ev) w))"
      using wp_result [OF expandNonRecurring_wp [OF assms(1) w(1) assms(10), of X ev]]
        one_time_reliable [OF assms(1,2) w(1,2) assms(10,12), of ev] assms(11)
      by (intro again) (auto simp: window_opens_def window_closes_def)
  qed
qed

theorem queued_time_scheduled_again_witness:
  "let w0 = after (expandNonRecurringEvent mem_svc demo_expander demo_event) demo_mem;
       w = demo_mem\<lparr>m_redis := move_entries [] 120 (m_redis w0), m_next := 2\<rparr>
   in \<exists>v v'. queued_again [] (mem_uuid 0) (60 * second) v v' (m_redis (after (expandNonRecurringEvent mem_svc demo_expander demo_event) w))"
proof -
  define w0 where "w0 = after (expandNonRecurringEvent mem_svc demo_expander demo_event) demo_mem"
  define w where "w = demo_mem\<lparr>m_redis := move_entries [] 120 (m_redis w0), m_next := 2\<rparr>"
  have now: "result_of (time_now mem_svc) demo_mem = 120 * second" "result_of (time_now mem_svc) w = 120 * second"
    by (simp_all add: mem_svc_def result_of_def demo_mem_def w_def)
  have start: "no_orphans [] (m_redis demo_mem)" by (simp add: no_orphans_def demo_mem_def no_rdata_def)
  have y: "year_ok (60 * second)" using year_ok_between [OF demo_years(1,2)] by (simp add: second_def)
  have win: "- 180 * second \<le> 60 * second" "60 * second \<le> 86520 * second" "unix (60 * second) = 60" by (simp_all add: second_def unix_def)
  have adds: "adds_entries [] demo_event (120 * second) {60 * second} (m_redis demo_mem) (m_redis w0)"
    using wp_result [OF expandNonRecurring_wp [OF mem_svc_ok _ now(1) [symmetric], of demo_expander demo_event]] win
    by (auto simp: demo_fields demo_window [unfolded window_opens_def window_closes_def] w0_def)
  have pend: "pending_entries [] (m_redis w0) (schedule_key (mem_uuid 0) (60 * second)) \<noteq> None"
    using one_time_reliable [OF mem_svc_ok mem_reliable, of demo_mem demo_expander "120 * second" demo_event] start now y win demo_years
    by (simp add: demo_fields demo_window w0_def)
  moreover have "pending_entries [] (m_redis demo_mem) k = None" for k by (simp add: pending_entries_def demo_mem_def no_rdata_def)
  ultimately obtain v where v: "pending_entries [] (m_redis w0) (schedule_key (mem_uuid 0) (60 * second)) = Some (60, v)"
    using adds win(3) unfolding adds_entries_def demo_fields by (metis singletonD)
  have "\<not> occurrence_at mem_pg (dv mem_views w) (mem_uuid 0) (60 * second)" by (simp add: occurrence_at_def w_def demo_mem_def no_dbdata_def)
  moreover have "rdata_ok (rv mem_views w0)" "no_orphans (ex_prefix demo_expander) (rv mem_views w0)"
    using adds start by (simp_all add: adds_entries_def demo_fields)
  moreover have "rv mem_views w = move_entries (ex_prefix demo_expander) 120 (rv mem_views w0)" by (simp add: w_def demo_fields)
  ultimately have "\<exists>v'. queued_again [] (mem_uuid 0) (60 * second) v v'
      (rv mem_views (after (expandNonRecurringEvent mem_svc demo_expander demo_event) w))"
    using queued_time_scheduled_again [OF mem_svc_ok mem_reliable, of w0 demo_expander demo_event "60 * second" 60 v 120 w "120 * second"]
      v y demo_years now(2) win mem_sql_answers
    by (simp add: demo_fields demo_window) blast
  then show ?thesis
    unfolding Let_def w0_def [symmetric] w_def [symmetric] by auto
qed

end
