(* ===== verification/Startup.thy ===== *)
theory Startup
  imports Server
begin

text \<open>
  The start of the process (\<open>main.go\<close>, \<open>internal/database/postgres.go\<close>, \<open>internal/logging/logger.go\<close>): the configuration with the
  flags that override it, the connections with their retries, and the wiring of the server. Opening a
  connection, pinging and sleeping are operations of the host (\<open>host\<close>), a parameter.
\<close>

section \<open>Configuration\<close>

record database_config =
  db_host :: string
  db_port :: int
  db_user :: string
  db_password :: string
  db_name :: string
  db_sslmode :: string

record redis_config =
  rs_host :: string
  rs_port :: int
  rs_password :: string
  rs_db :: int

record scheduler_config =
  sch_look_ahead :: duration
  sch_expansion_interval :: duration
  sch_worker_count :: int
  sch_grace_period :: duration

record logging_config =
  lg_level :: string
  lg_file_path :: string
  lg_max_size :: int
  lg_max_backups :: int
  lg_max_age :: int

record config =
  cf_port :: int
  cf_timeout :: duration
  cf_database :: database_config
  cf_redis :: redis_config
  cf_master_token :: string
  cf_jwt_secret :: string
  cf_hmac_secret :: string
  cf_scheduler :: scheduler_config
  cf_retention :: retention_config
  cf_check_period :: duration
  cf_logging :: logging_config
  cf_max_retries :: int
  cf_retry_backoff :: duration

text \<open>The reading of files and of the environment is the viper library's: a parameter. A file is searched for, or named.\<close>

datatype config_source = SearchPaths | ConfigFile string

datatype read_error = ConfigFileNotFoundError string | OtherReadError string

record 's viper =
  ReadInConfig :: "config_source \<Rightarrow> read_error + 's"
  no_settings :: 's
  Unmarshal :: "(string \<times> setting) list \<Rightarrow> 's \<Rightarrow> string + config"

definition Load :: "'s viper \<Rightarrow> config result" where
  "Load V =
     (let decode = (\<lambda>s. case Unmarshal V load_defaults s of
                      Inl e \<Rightarrow> Inl (wrap_err ''error unmarshaling config'' (Errorf e))
                    | Inr c \<Rightarrow> Inr c) in
      case ReadInConfig V SearchPaths of
        Inl (ConfigFileNotFoundError _) \<Rightarrow> decode (no_settings V)
      | Inl (OtherReadError e) \<Rightarrow> Inl (wrap_err ''error reading config file'' (Errorf e))
      | Inr s \<Rightarrow> decode s)"

fun read_error_text :: "read_error \<Rightarrow> string" where
  "read_error_text (ConfigFileNotFoundError e) = e"
| "read_error_text (OtherReadError e) = e"

text \<open>With a path a missing file is an error, too.\<close>

definition LoadWithPath :: "'s viper \<Rightarrow> string \<Rightarrow> config result" where
  "LoadWithPath V path =
     (if path = [] then Load V
      else case ReadInConfig V (ConfigFile path) of
        Inl e \<Rightarrow> Inl (Errorf (read_error_text e))
      | Inr s \<Rightarrow> map_sum Errorf id (Unmarshal V load_with_path_defaults s))"

text \<open>
  The flags given on the command line; one without a default of its own that is absent is \<open>None\<close>. An empty secret does not
  override.
\<close>

record flags =
  fl_config :: string
  fl_migrate :: bool
  fl_version :: bool
  fl_port :: "int option"
  fl_log_level :: "string option"
  fl_master_token :: "string option"
  fl_jwt_secret :: "string option"

definition override_config :: "flags \<Rightarrow> config \<Rightarrow> config" where
  "override_config fl c =
     c\<lparr>cf_port := (case fl_port fl of None \<Rightarrow> cf_port c | Some p \<Rightarrow> p),
       cf_logging := (cf_logging c)\<lparr>lg_level := (case fl_log_level fl of None \<Rightarrow> lg_level (cf_logging c) | Some l \<Rightarrow> l)\<rparr>,
       cf_master_token := (case fl_master_token fl of None \<Rightarrow> cf_master_token c | Some t \<Rightarrow> if t \<noteq> [] then t else cf_master_token c),
       cf_jwt_secret := (case fl_jwt_secret fl of None \<Rightarrow> cf_jwt_secret c | Some t \<Rightarrow> if t \<noteq> [] then t else cf_jwt_secret c)\<rparr>"

datatype zap_level = DebugLevel | InfoLevel | WarnLevel | ErrorLevel

definition level_of :: "string \<Rightarrow> zap_level" where
  "level_of l =
     (if l = ''debug'' then DebugLevel else if l = ''info'' then InfoLevel else if l = ''warn'' then WarnLevel
      else if l = ''error'' then ErrorLevel else InfoLevel)"

record logger =
  lo_level :: zap_level
  lo_filename :: string
  lo_max_size :: int
  lo_max_backups :: int
  lo_max_age :: int
  lo_compress :: bool

text \<open>The console and the file get the same entries; nothing in it fails.\<close>

definition InitLogger :: "logging_config \<Rightarrow> logger result" where
  "InitLogger c = Inr \<lparr>lo_level = level_of (lg_level c), lo_filename = lg_file_path c, lo_max_size = lg_max_size c,
     lo_max_backups = lg_max_backups c, lo_max_age = lg_max_age c, lo_compress = True\<rparr>"

definition release_mode :: "config \<Rightarrow> bool" where
  "release_mode c \<longleftrightarrow> lg_level (cf_logging c) \<noteq> ''debug''"

section \<open>Connections\<close>

text \<open>The two forms of the address of the database. Neither quotes its parts.\<close>

definition dsn :: "database_config \<Rightarrow> string" where
  "dsn c = ''host='' @ db_host c @ '' port='' @ show_int (db_port c) @ '' user='' @ db_user c @ '' password='' @ db_password c
     @ '' dbname='' @ db_name c @ '' sslmode='' @ db_sslmode c"

definition migration_dsn :: "database_config \<Rightarrow> string" where
  "migration_dsn c = ''postgres://'' @ db_user c @ '':'' @ db_password c @ ''@'' @ db_host c @ '':'' @ show_int (db_port c) @ ''/''
     @ db_name c @ ''?sslmode='' @ db_sslmode c"

definition redis_address :: "redis_config \<Rightarrow> string" where
  "redis_address c = rs_host c @ '':'' @ show_int (rs_port c)"

datatype migrate_error = ErrNoChange | MigrateError string

record ('w, 'd) host =
  prepare_migrations :: "string \<Rightarrow> ('w, string option) state"
  migrate_up :: "string \<Rightarrow> ('w, migrate_error option) state"
  open_db :: "string \<Rightarrow> ('w, string + 'd) state"
  pool_sizes :: "'d \<Rightarrow> int \<Rightarrow> int \<Rightarrow> ('w, unit) state"
  ping_db :: "'d \<Rightarrow> ('w, string option) state"
  ping_redis :: "string \<Rightarrow> string \<Rightarrow> int \<Rightarrow> ('w, string option) state"
  sleep :: "duration \<Rightarrow> ('w, unit) state"

text \<open>
  \<open>prepare_migrations\<close> stands for the embedded files, the connection, the driver and the migration object, \<open>migrate_up\<close> for
  \<open>Up\<close> on it.
\<close>

definition runMigrations :: "('w, 'd) host \<Rightarrow> config \<Rightarrow> ('w, string option) state" where
  "runMigrations H c = do {
     p \<leftarrow> prepare_migrations H (migration_dsn (cf_database c));
     (case p of
        Some e \<Rightarrow> State_Monad.return (Some e)
      | None \<Rightarrow> do {
          u \<leftarrow> migrate_up H (migration_dsn (cf_database c));
          State_Monad.return (case u of Some (MigrateError e) \<Rightarrow> Some e | _ \<Rightarrow> None) }) }"

definition Connect :: "('w, 'd) host \<Rightarrow> database_config \<Rightarrow> ('w, 'd result) state" where
  "Connect H c = do {
     r \<leftarrow> open_db H (dsn c);
     (case r of
        Inl e \<Rightarrow> State_Monad.return (Inl (wrap_err ''error connecting to database'' (Errorf e)))
      | Inr d \<Rightarrow> do {
          _ \<leftarrow> pool_sizes H d 25 25;
          p \<leftarrow> ping_db H d;
          State_Monad.return (case p of
             Some e \<Rightarrow> Inl (wrap_err ''error pinging database'' (Errorf e))
           | None \<Rightarrow> Inr d) }) }"

text \<open>A loop of attempts: it ends with the first that succeeds and sleeps after each that fails, the last one included.\<close>

fun attempts_loop :: "('w, 'a result) state \<Rightarrow> ('w, unit) state \<Rightarrow> nat \<Rightarrow> error \<Rightarrow> ('w, 'a result) state" where
  "attempts_loop m pause 0 e = State_Monad.return (Inl e)"
| "attempts_loop m pause (Suc n) e =
     State_Monad.bind m (\<lambda>r. case r of
        Inr x \<Rightarrow> State_Monad.return (Inr x)
      | Inl e' \<Rightarrow> State_Monad.bind pause (\<lambda>_. attempts_loop m pause n e'))"

definition maxDBRetries :: nat where "maxDBRetries = 10"
definition maxRedisRetries :: nat where "maxRedisRetries = 10"

definition connect_db :: "('w, 'd) host \<Rightarrow> config \<Rightarrow> ('w, 'd result) state" where
  "connect_db H c = attempts_loop (Connect H (cf_database c)) (sleep H (2 * second)) maxDBRetries (Errorf [])"

text \<open>A client object exists in any case: after ten failed pings the process goes on without a connection.\<close>

definition connect_redis :: "('w, 'd) host \<Rightarrow> config \<Rightarrow> ('w, unit) state" where
  "connect_redis H c = ignore (attempts_loop
     (State_Monad.bind (ping_redis H (redis_address (cf_redis c)) (rs_password (cf_redis c)) (rs_db (cf_redis c)))
        (\<lambda>p. State_Monad.return (case p of Some e \<Rightarrow> Inl (Errorf e) | None \<Rightarrow> Inr ())))
     (sleep H (2 * second)) maxRedisRetries (Errorf []))"

text \<open>The process up to the point where the server is wired.\<close>

datatype 'd outcome = Exit int | Panic string | Fatal string | Started config retention_durations 'd

definition start_up :: "(nat \<Rightarrow> nat \<Rightarrow> nat \<Rightarrow> nat) \<Rightarrow> ('w, 'd) host \<Rightarrow> config \<Rightarrow> ('w, 'd outcome) state" where
  "start_up fr H c =
     (case InitLogger (cf_logging c) of
        Inl e \<Rightarrow> State_Monad.return (Panic (''Failed to initialize logger: '' @ error_text e))
      | Inr _ \<Rightarrow>
     (case ParseRetentionDurations fr (cf_retention c) of
        Inl _ \<Rightarrow> State_Monad.return (Fatal ''Failed to parse retention durations'')
      | Inr durations \<Rightarrow> do {
          r \<leftarrow> connect_db H c;
          (case r of
             Inl _ \<Rightarrow> State_Monad.return (Fatal ''Failed to connect to database after retries'')
           | Inr d \<Rightarrow> do {
               _ \<leftarrow> connect_redis H c;
               State_Monad.return (Started c durations d) }) }))"

definition main :: "'s viper \<Rightarrow> (nat \<Rightarrow> nat \<Rightarrow> nat \<Rightarrow> nat) \<Rightarrow> ('w, 'd) host \<Rightarrow> flags \<Rightarrow> ('w, 'd outcome) state" where
  "main V fr H fl =
     (if fl_version fl then State_Monad.return (Exit 0)
      else case LoadWithPath V (fl_config fl) of
        Inl e \<Rightarrow> State_Monad.return (Panic (''Failed to load configuration: '' @ error_text e))
      | Inr c \<Rightarrow>
          if fl_migrate fl then do {
            r \<leftarrow> runMigrations H c;
            State_Monad.return (case r of Some _ \<Rightarrow> Exit 1 | None \<Rightarrow> Exit 0) }
          else start_up fr H (override_config fl c))"

section \<open>The wiring\<close>

text \<open>The constructors keep what they are given: the prefix of the scheduler, the window, the retries. The interval of the expander
  matters to its loop only (theory \<open>Lifecycle\<close>).\<close>

definition NewExpander :: "string \<Rightarrow> duration \<Rightarrow> duration \<Rightarrow> expander" where
  "NewExpander scheduler_prefix lookAhead grace = \<lparr>ex_prefix = scheduler_prefix, lookAheadDuration = lookAhead, gracePeriod = grace\<rparr>"

definition NewDispatcher :: "string option \<Rightarrow> int \<Rightarrow> duration \<Rightarrow> string \<Rightarrow> (string \<Rightarrow> string \<Rightarrow> string option) \<Rightarrow> dispatcher" where
  "NewDispatcher hmac retries retry_delay scheduler_prefix re =
     \<lparr>di_prefix = scheduler_prefix, di_maxRetries = retries, di_retryDelay = retry_delay, di_hmac = hmac, di_request_error = re\<rparr>"

text \<open>The server that \<open>main\<close> builds from the configuration. The Redis prefix is empty everywhere.\<close>

definition assemble ::
  "'w svc \<Rightarrow> 'w ttl_redis \<Rightarrow> jwt \<Rightarrow> (string \<Rightarrow> uuid option) \<Rightarrow> (string \<Rightarrow> string \<Rightarrow> string option) \<Rightarrow> instant \<Rightarrow> (duration \<Rightarrow> int)
     \<Rightarrow> (api_request \<Rightarrow> response) \<Rightarrow> int \<Rightarrow> config \<Rightarrow> retention_durations \<Rightarrow> 'w server" where
  "assemble S R J up re t0 secs unrouted off c durations =
     \<lparr>sv_svc = S, sv_ttl = R, sv_limiter = NewRateLimiter [], sv_jwt = J,
      sv_tokens = \<lparr>ts_masterToken = cf_master_token c, ts_jwtSecret = cf_jwt_secret c\<rparr>, sv_master = cf_master_token c,
      sv_expander = NewExpander [] (sch_look_ahead (cf_scheduler c)) (sch_grace_period (cf_scheduler c)),
      sv_dispatcher = NewDispatcher (Some (cf_hmac_secret c)) (cf_max_retries c) (cf_retry_backoff c) [] re,
      sv_uuid = up, sv_start = t0, sv_seconds = secs, sv_unrouted = unrouted, sv_zone = off,
      sv_check_period = cf_check_period c, sv_retention = durations\<rparr>"
section \<open>What the start up decides\<close>

text \<open>The world before attempt \<open>i\<close> of a loop none of whose attempts has succeeded yet.\<close>

fun before_attempt :: "('w, 'a result) state \<Rightarrow> ('w, unit) state \<Rightarrow> nat \<Rightarrow> 'w \<Rightarrow> 'w" where
  "before_attempt m pause 0 w = w"
| "before_attempt m pause (Suc i) w = before_attempt m pause i (snd (run_state pause (snd (run_state m w))))"

definition attempt :: "('w, 'a result) state \<Rightarrow> ('w, unit) state \<Rightarrow> 'w \<Rightarrow> nat \<Rightarrow> 'a result" where
  "attempt m pause w i = fst (run_state m (before_attempt m pause i w))"

lemma attempt_0: "attempt m pause w 0 = fst (run_state m w)"
  by (simp add: attempt_def)

lemma attempt_Suc: "attempt m pause w (Suc i) = attempt m pause (snd (run_state pause (snd (run_state m w)))) i"
  by (simp add: attempt_def)

lemma attempts_loop_step:
  "fst (run_state (attempts_loop m pause (Suc n) e) w) =
     (case attempt m pause w 0 of
        Inr x \<Rightarrow> Inr x
      | Inl e' \<Rightarrow> fst (run_state (attempts_loop m pause n e') (snd (run_state pause (snd (run_state m w))))))"
  by (simp add: attempt_0 State_Monad.bind_def State_Monad.return_def split: prod.splits sum.splits)

lemma all_below_Suc: "(\<forall>i<Suc n. P i) \<longleftrightarrow> P 0 \<and> (\<forall>i<n. P (Suc i))"
  by (metis less_Suc_eq_0_disj)

lemma ex_below_Suc: "(\<exists>i<Suc n. P i) \<longleftrightarrow> P 0 \<or> (\<exists>i<n. P (Suc i))"
  by (metis less_Suc_eq_0_disj)

lemma attempts_loop_gives_up:
  "isl (fst (run_state (attempts_loop m pause n e) w)) \<longleftrightarrow> (\<forall>i<n. isl (attempt m pause w i))"
proof (induction n arbitrary: e w)
  case 0
  then show ?case by (simp add: State_Monad.return_def)
next
  case (Suc n)
  then show ?case
    by (auto simp: attempts_loop_step all_below_Suc attempt_Suc split: sum.splits simp del: attempts_loop.simps)
qed

lemma attempts_loop_first_success:
  "fst (run_state (attempts_loop m pause n e) w) = Inr x \<longleftrightarrow>
     (\<exists>i<n. attempt m pause w i = Inr x \<and> (\<forall>j<i. isl (attempt m pause w j)))"
proof (induction n arbitrary: e w)
  case 0
  then show ?case by (simp add: State_Monad.return_def)
next
  case (Suc n)
  then show ?case
    by (cases "attempt m pause w 0")
      (auto simp: attempts_loop_step ex_below_Suc all_below_Suc attempt_Suc simp del: attempts_loop.simps)
qed

lemma connect_db_result:
  "fst (run_state (connect_db H c) w) = Inr d \<longleftrightarrow>
     (\<exists>i<10. attempt (Connect H (cf_database c)) (sleep H (2 * second)) w i = Inr d
        \<and> (\<forall>j<i. isl (attempt (Connect H (cf_database c)) (sleep H (2 * second)) w j)))"
  unfolding connect_db_def maxDBRetries_def by (rule attempts_loop_first_success)

lemma start_up_Started:
  "fst (run_state (start_up fr H c) w) = Started c' ds d \<longleftrightarrow>
     c' = c \<and> ParseRetentionDurations fr (cf_retention c) = Inr ds \<and> fst (run_state (connect_db H c) w) = Inr d"
  by (auto simp: start_up_def InitLogger_def State_Monad.bind_def State_Monad.return_def split: sum.splits prod.splits)

lemma start_up_Fatal:
  "fst (run_state (start_up fr H c) w) = Fatal ''Failed to connect to database after retries'' \<longleftrightarrow>
     \<not> isl (ParseRetentionDurations fr (cf_retention c)) \<and> isl (fst (run_state (connect_db H c) w))"
  by (auto simp: start_up_def InitLogger_def State_Monad.bind_def State_Monad.return_def split: sum.splits prod.splits)

lemma override_config_same [simp]:
  "cf_retention (override_config fl c) = cf_retention c" "cf_database (override_config fl c) = cf_database c"
  by (simp_all add: override_config_def)

lemma connect_db_override [simp]: "connect_db H (override_config fl c) = connect_db H c"
  by (simp add: connect_db_def)
text \<open>Only one of the ends without a server comes from the connections.\<close>

definition db_attempt :: "('w, 'd) host \<Rightarrow> config \<Rightarrow> 'w \<Rightarrow> nat \<Rightarrow> 'd result" where
  "db_attempt H c w = attempt (Connect H (cf_database c)) (sleep H (2 * second)) w"

lemma main_no_exit_flags:
  assumes "\<not> fl_version fl" "\<not> fl_migrate fl"
  shows "main V fr H fl = (case LoadWithPath V (fl_config fl) of
     Inl e \<Rightarrow> State_Monad.return (Panic (''Failed to load configuration: '' @ error_text e))
   | Inr c \<Rightarrow> start_up fr H (override_config fl c))"
  using assms by (simp add: main_def split: sum.splits)

lemma main_exits_early:
  assumes "fl_version fl \<or> fl_migrate fl"
  shows "\<exists>n. fst (run_state (main V fr H fl) w) = Exit n \<or> (\<exists>e. fst (run_state (main V fr H fl) w) = Panic e)"
  using assms
  by (auto simp: main_def State_Monad.bind_def State_Monad.return_def split: sum.splits prod.splits option.splits)

section \<open>Properties\<close>

text \<open>C33. A process without \<open>--version\<close> and \<open>--migrate\<close> comes to wire its server exactly when its configuration is read, the retention texts in it
  are durations and one of ten attempts to reach the database succeeds, with the connection of the first that does; it ends
  for want of a database exactly when all ten fail. Redis is no condition of either.\<close>

theorem startup_outcome:
  assumes "\<not> fl_version fl" "\<not> fl_migrate fl" "LoadWithPath V (fl_config fl) = Inr c0"
  shows "(fst (run_state (main V fr H fl) w) = Started c ds d \<longleftrightarrow>
       c = override_config fl c0 \<and> ParseRetentionDurations fr (cf_retention c0) = Inr ds
       \<and> (\<exists>i<10. db_attempt H c0 w i = Inr d \<and> (\<forall>j<i. isl (db_attempt H c0 w j))))
   \<and> (fst (run_state (main V fr H fl) w) = Fatal ''Failed to connect to database after retries'' \<longleftrightarrow>
       \<not> isl (ParseRetentionDurations fr (cf_retention c0)) \<and> (\<forall>i<10. isl (db_attempt H c0 w i)))"
proof -
  have gives_up: "isl (fst (run_state (connect_db H c0) w)) \<longleftrightarrow> (\<forall>i<10. isl (db_attempt H c0 w i))"
    unfolding connect_db_def maxDBRetries_def db_attempt_def by (rule attempts_loop_gives_up)
  show ?thesis
    using assms by (simp add: main_no_exit_flags start_up_Started start_up_Fatal gives_up connect_db_result db_attempt_def)
qed

text \<open>
  A host whose world counts attempts: the database answers at the third, and Redis never. The configuration is the default.
\<close>

definition demo_host :: "(nat, string) host" where
  "demo_host =
     \<lparr>prepare_migrations = (\<lambda>_. State_Monad.return None), migrate_up = (\<lambda>_. State_Monad.return (Some ErrNoChange)),
      open_db = (\<lambda>a. State (\<lambda>n. (if n < 2 then Inl ''connection refused'' else Inr a, Suc n))),
      pool_sizes = (\<lambda>_ _ _. State_Monad.return ()), ping_db = (\<lambda>_. State_Monad.return None),
      ping_redis = (\<lambda>_ _ _. State_Monad.return (Some ''connection refused'')), sleep = (\<lambda>_. State_Monad.return ())\<rparr>"

definition demo_config :: config where
  "demo_config =
     \<lparr>cf_port = 8080, cf_timeout = 30 * second,
      cf_database = \<lparr>db_host = ''localhost'', db_port = 5432, db_user = ''postgres'', db_password = ''postgres'',
        db_name = ''qhronos'', db_sslmode = ''disable''\<rparr>,
      cf_redis = \<lparr>rs_host = ''localhost'', rs_port = 6379, rs_password = [], rs_db = 0\<rparr>,
      cf_master_token = ''m4ster'', cf_jwt_secret = ''s3cret'', cf_hmac_secret = ''qhronos.io'',
      cf_scheduler = \<lparr>sch_look_ahead = 24 * hour, sch_expansion_interval = 300 * second, sch_worker_count = 0, sch_grace_period = 0\<rparr>,
      cf_retention = \<lparr>rc_events = ''30d'', rc_occurrences = ''7d'', rc_cleanup_interval = ''1h''\<rparr>, cf_check_period = hour,
      cf_logging = \<lparr>lg_level = ''info'', lg_file_path = ''qhronos.log'', lg_max_size = 10, lg_max_backups = 3, lg_max_age = 7\<rparr>,
      cf_max_retries = 3, cf_retry_backoff = second\<rparr>"

definition demo_viper :: "unit viper" where
  "demo_viper = \<lparr>ReadInConfig = (\<lambda>_. Inr ()), no_settings = (), Unmarshal = (\<lambda>_ _. Inr demo_config)\<rparr>"

definition demo_flags :: flags where
  "demo_flags = \<lparr>fl_config = ''config.yaml'', fl_migrate = False, fl_version = False, fl_port = Some 9090, fl_log_level = None,
     fl_master_token = Some [], fl_jwt_secret = None\<rparr>"

lemma demo_attempts:
  "isl (db_attempt demo_host demo_config 0 0)" "isl (db_attempt demo_host demo_config 0 (Suc 0))"
  "db_attempt demo_host demo_config 0 2 = Inr (dsn (cf_database demo_config))"
  by (simp_all add: db_attempt_def attempt_def demo_host_def Connect_def State_Monad.bind_def State_Monad.return_def
      numeral_2_eq_2)

lemma startup_outcome_witness:
  "fst (run_state (main demo_viper (\<lambda>_ _ _. 0) demo_host demo_flags) 0)
     = Started (demo_config\<lparr>cf_port := 9090\<rparr>)
         \<lparr>rd_events = 720 * hour, rd_occurrences = 168 * hour, rd_cleanup_interval = hour\<rparr>
         ''host=localhost port=5432 user=postgres password=postgres dbname=qhronos sslmode=disable''"
proof -
  have dsn: "dsn (cf_database demo_config)
      = ''host=localhost port=5432 user=postgres password=postgres dbname=qhronos sslmode=disable''"
  proof -
    have "show_nat 5432 = ''5432''"
      by (simp add: show_nat.simps digit_def char_of_def bit_simps)
    then show ?thesis by (simp add: dsn_def demo_config_def show_int_def)
  qed
  have flags: "override_config demo_flags demo_config = demo_config\<lparr>cf_port := 9090\<rparr>"
    by (simp add: override_config_def demo_flags_def demo_config_def)
  have load: "LoadWithPath demo_viper (fl_config demo_flags) = Inr demo_config"
    by (simp add: LoadWithPath_def demo_viper_def demo_flags_def)
  have third: "\<exists>i<10. db_attempt demo_host demo_config 0 i = Inr (dsn (cf_database demo_config))
      \<and> (\<forall>j<i. isl (db_attempt demo_host demo_config 0 j))"
    by (rule exI [of _ 2]) (auto simp: demo_attempts less_2_cases_iff)
  have retention: "ParseRetentionDurations (\<lambda>_ _ _. 0) (cf_retention demo_config)
      = Inr \<lparr>rd_events = 720 * hour, rd_occurrences = 168 * hour, rd_cleanup_interval = hour\<rparr>"
    using default_retention by (simp add: demo_config_def)
  have go: "\<not> fl_version demo_flags" "\<not> fl_migrate demo_flags"
    by (simp_all add: demo_flags_def)
  show ?thesis
    unfolding dsn [symmetric] flags [symmetric]
    by (rule startup_outcome [OF go load, THEN conjunct1, THEN iffD2]) (intro conjI refl retention third)
qed
text \<open>The addresses do not determine their parts, as these are not quoted.\<close>

lemma dsn_unquoted:
  "dsn (c\<lparr>db_password := p @ '' dbname='' @ a, db_name := b\<rparr>) = dsn (c\<lparr>db_password := p, db_name := a @ '' dbname='' @ b\<rparr>)"
  by (simp add: dsn_def)

lemma migration_dsn_unquoted:
  "migration_dsn (c\<lparr>db_password := p @ ''@'' @ a, db_host := b\<rparr>) = migration_dsn (c\<lparr>db_password := p, db_host := a @ ''@'' @ b\<rparr>)"
  by (simp add: migration_dsn_def)

text \<open>A missing file is fatal with a path, though not without one.\<close>

lemma missing_file_with_path:
  "path \<noteq> [] \<Longrightarrow> ReadInConfig V (ConfigFile path) = Inl (ConfigFileNotFoundError e) \<Longrightarrow> LoadWithPath V path = Inl (Errorf e)"
  by (simp add: LoadWithPath_def)

lemma missing_file_without_path:
  "ReadInConfig V SearchPaths = Inl (ConfigFileNotFoundError e) \<Longrightarrow> Unmarshal V load_defaults (no_settings V) = Inr c
     \<Longrightarrow> LoadWithPath V [] = Inr c"
  by (simp add: LoadWithPath_def Load_def)
text \<open>What the server's theorems ask of the wiring: one master token, one prefix, and the default limits.\<close>

lemma assembled:
  "ts_masterToken (sv_tokens (assemble S R J up re t0 secs unrouted off c durations))
     = sv_master (assemble S R J up re t0 secs unrouted off c durations)"
  "ex_prefix (sv_expander (assemble S R J up re t0 secs unrouted off c durations))
     = di_prefix (sv_dispatcher (assemble S R J up re t0 secs unrouted off c durations))"
  "sv_limiter (assemble S R J up re t0 secs unrouted off c durations) = default_limiter"
  by (simp_all add: assemble_def NewExpander_def NewDispatcher_def NewRateLimiter_def)

end
