(* ===== verification/Lifecycle.thy ===== *)
theory Lifecycle
  imports Composition Startup
begin

text \<open>
  The life of the process after the wiring, \<open>main.go\<close> from the start of the loops to its end, with \<open>Expander.Run\<close>, \<open>Dispatcher.Run\<close>
  and \<open>StartArchivalScheduler\<close>: which goroutines there are, when a ticker panics, how many workers pop, what a signal does. Every
  step of this machine is a step of \<open>Server.server_step\<close>, so what holds for all runs of the server holds here; what the
  configuration and the shutdown add to it is shown below.
\<close>

section \<open>The goroutines\<close>

definition NewTicker :: "duration \<Rightarrow> string + duration" where
  "NewTicker d = (if d \<le> 0 then Inl ''non-positive interval for NewTicker'' else Inr d)"

datatype ending = Crashed string | ServerError | ForcedShutdown | MainReturned

datatype phase = Serving | ShuttingDown | Ended ending

text \<open>A loop that has not made its ticker, ticks, is caught in a round that does not return, or has ended.\<close>

datatype loop = Starting | Ticking | Stuck | Stopped

record 'w app =
  ap_process :: "'w process"
  ap_phase :: phase
  ap_expander :: loop
  ap_archiver :: loop
  ap_dispatcher :: loop
  ap_idle :: nat

definition running :: "'w app \<Rightarrow> bool" where
  "running a \<longleftrightarrow> ap_phase a = Serving \<or> ap_phase a = ShuttingDown"

definition on_process :: "('w process \<Rightarrow> 'w process) \<Rightarrow> 'w app \<Rightarrow> 'w app" where
  "on_process f a = a\<lparr>ap_process := f (ap_process a)\<rparr>"

text \<open>At the end of the process, what its goroutines and workers held is gone.\<close>

definition ended :: "ending \<Rightarrow> 'w app \<Rightarrow> 'w app" where
  "ended e a = \<lparr>ap_process = (ap_process a)\<lparr>pr_jobs := {#}, pr_busy := {#}\<rparr>, ap_phase = Ended e,
     ap_expander = Stopped, ap_archiver = Stopped, ap_dispatcher = Stopped, ap_idle = 0\<rparr>"

section \<open>The loops\<close>

text \<open>\<open>Expander.Run\<close>: its start, or a tick. A round that does not return leaves the loop where it is.\<close>

definition expander_Run :: "'w server \<Rightarrow> config \<Rightarrow> 'w app \<Rightarrow> 'w app" where
  "expander_Run G c a =
     (case ap_expander a of
        Starting \<Rightarrow> (case NewTicker (sch_expansion_interval (cf_scheduler c)) of
            Inl e \<Rightarrow> ended (Crashed e) a
          | Inr _ \<Rightarrow> a\<lparr>ap_expander := Ticking\<rparr>)
      | Ticking \<Rightarrow> (case run_state (ExpandEvents (sv_svc G) (sv_expander G)) (pr_world (ap_process a)) of
            (r, w') \<Rightarrow> on_process (\<lambda>p. p\<lparr>pr_world := w'\<rparr>) (a\<lparr>ap_expander := if r = None then Stuck else Ticking\<rparr>))
      | _ \<Rightarrow> a)"

text \<open>\<open>StartArchivalScheduler\<close> makes its ticker before it starts the goroutine of the loop.\<close>

definition StartArchivalScheduler :: "config \<Rightarrow> string + loop" where
  "StartArchivalScheduler c = map_sum id (\<lambda>_. Ticking) (NewTicker (cf_check_period c))"

definition archiver_loop :: "'w server \<Rightarrow> 'w app \<Rightarrow> 'w app" where
  "archiver_loop G a =
     (if ap_archiver a = Ticking
      then on_process (\<lambda>p. p\<lparr>pr_world := after (archive_cycle (sv_zone G) (sv_svc G) (sv_check_period G) (rd_events (sv_retention G)))
        (pr_world p)\<rparr>) a
      else a)"

text \<open>\<open>Dispatcher.Run\<close> starts its poller and as many workers as it is told, none for a count that is not positive.\<close>

definition worker_count :: "config \<Rightarrow> nat" where
  "worker_count c = nat (sch_worker_count (cf_scheduler c))"

definition dispatcher_Run :: "config \<Rightarrow> 'w app \<Rightarrow> 'w app" where
  "dispatcher_Run c a = (if ap_dispatcher a = Starting then a\<lparr>ap_dispatcher := Ticking, ap_idle := worker_count c\<rparr> else a)"

definition poller_loop :: "'w server \<Rightarrow> 'w app \<Rightarrow> 'w app" where
  "poller_loop G a =
     (if ap_dispatcher a = Ticking
      then on_process (\<lambda>p. p\<lparr>pr_world := after (poller_turn (sv_svc G) (sv_dispatcher G)) (pr_world p)\<rparr>) a
      else a)"

text \<open>A worker that waits tries to pop; one that has popped an item processes it and waits again.\<close>

definition worker_pops :: "'w server \<Rightarrow> 'w app \<Rightarrow> 'w app" where
  "worker_pops G a =
     (if ap_idle a = 0 then a
      else case run_state (redis (sv_svc G) (BRPOP (di_prefix (sv_dispatcher G) @ dispatchQueueKey))) (pr_world (ap_process a)) of
        (r, w') \<Rightarrow>
          (case r of
             Inr (RArr [_, item]) \<Rightarrow> on_process (\<lambda>p. p\<lparr>pr_world := w', pr_busy := pr_busy p + {#item#}\<rparr>) (a\<lparr>ap_idle := ap_idle a - 1\<rparr>)
           | _ \<Rightarrow> on_process (\<lambda>p. p\<lparr>pr_world := w'\<rparr>) a))"

definition worker_processes :: "'w server \<Rightarrow> string \<Rightarrow> 'w app \<Rightarrow> 'w app" where
  "worker_processes G item a =
     (if item \<in># pr_busy (ap_process a)
      then on_process (\<lambda>p. p\<lparr>pr_world := after (process_item (sv_uuid G) (sv_svc G) (sv_dispatcher G) item) (pr_world p),
        pr_busy := pr_busy p - {#item#}, pr_turns := item # pr_turns p\<rparr>) (a\<lparr>ap_idle := ap_idle a + 1\<rparr>)
      else a)"

text \<open>The loop of \<open>main\<close> that moves what is due.\<close>

definition mover_loop :: "'w server \<Rightarrow> 'w app \<Rightarrow> 'w app" where
  "mover_loop G a = on_process (\<lambda>p. p\<lparr>pr_world := after (GetDueSchedules (sv_svc G) (ex_prefix (sv_expander G))) (pr_world p)\<rparr>) a"

section \<open>The process\<close>

text \<open>\<open>main\<close> starts the loops: the archiver's itself, the others in goroutines.\<close>

definition launch :: "config \<Rightarrow> 'w process \<Rightarrow> 'w app" where
  "launch c p =
     (let a = \<lparr>ap_process = p\<lparr>pr_jobs := {#}, pr_busy := {#}\<rparr>, ap_phase = Serving,
           ap_expander = Starting, ap_archiver = Starting, ap_dispatcher = Starting, ap_idle = 0\<rparr>
      in case StartArchivalScheduler c of Inl e \<Rightarrow> ended (Crashed e) a | Inr l \<Rightarrow> a\<lparr>ap_archiver := l\<rparr>)"

text \<open>
  The steps. Requests and goroutines may run on while the process shuts down, until \<open>main\<close> returns, which it does when
  \<open>ListenAndServe\<close> returns, and that is as soon as \<open>Shutdown\<close> is called. A computation without a result may also have
  panicked, which ends the process outside of the handlers. The contexts of the loops are never cancelled; the archiver's loop alone ends
  on the signal. After its end the process may be started again.
\<close>

inductive app_step :: "'w server \<Rightarrow> config \<Rightarrow> ('w \<Rightarrow> 'w \<Rightarrow> bool) \<Rightarrow> 'w app \<Rightarrow> 'w app \<Rightarrow> bool" for G c env where
  request: "running a \<Longrightarrow> run_state (serve G q) (pr_world (ap_process a)) = ((rs, job), w') \<Longrightarrow>
    app_step G c env a (on_process (\<lambda>p. p\<lparr>pr_world := w', pr_jobs := pr_jobs p + jobs_of job\<rparr>) a)"
| goroutine: "running a \<Longrightarrow> ev \<in># pr_jobs (ap_process a) \<Longrightarrow>
    app_step G c env a (on_process (\<lambda>p. p\<lparr>pr_world := after (background (sv_svc G) (sv_expander G) (Some ev)) (pr_world p),
      pr_jobs := pr_jobs p - {#ev#}\<rparr>) a)"
| goroutine_panics: "running a \<Longrightarrow> ev \<in># pr_jobs (ap_process a) \<Longrightarrow>
    result_of (expandEvent (sv_svc G) (sv_expander G) ev) (pr_world (ap_process a)) = None \<Longrightarrow>
    app_step G c env a (ended (Crashed e) a)"
| expander: "running a \<Longrightarrow> app_step G c env a (expander_Run G c a)"
| round_panics: "running a \<Longrightarrow> ap_expander a = Stuck \<Longrightarrow> app_step G c env a (ended (Crashed e) a)"
| archiver: "running a \<Longrightarrow> app_step G c env a (archiver_loop G a)"
| archiver_stops: "ap_phase a = ShuttingDown \<Longrightarrow> app_step G c env a (a\<lparr>ap_archiver := Stopped\<rparr>)"
| dispatcher: "running a \<Longrightarrow> app_step G c env a (dispatcher_Run c a)"
| poller: "running a \<Longrightarrow> app_step G c env a (poller_loop G a)"
| worker_pop: "running a \<Longrightarrow> app_step G c env a (worker_pops G a)"
| worker_process: "running a \<Longrightarrow> app_step G c env a (worker_processes G item a)"
| mover: "running a \<Longrightarrow> app_step G c env a (mover_loop G a)"
| signal: "ap_phase a = Serving \<Longrightarrow> app_step G c env a (a\<lparr>ap_phase := ShuttingDown\<rparr>)"
| main_returns: "ap_phase a = ShuttingDown \<Longrightarrow> app_step G c env a (ended MainReturned a)"
| shutdown_times_out: "ap_phase a = ShuttingDown \<Longrightarrow> app_step G c env a (ended ForcedShutdown a)"
| listen_fails: "ap_phase a = Serving \<Longrightarrow> app_step G c env a (ended ServerError a)"
| relaunch: "ap_phase a = Ended e \<Longrightarrow> app_step G c env a (launch c (ap_process a))"
| outside: "env (pr_world (ap_process a)) w' \<Longrightarrow> app_step G c env a (on_process (\<lambda>p. p\<lparr>pr_world := w'\<rparr>) a)"

inductive app_run :: "'w server \<Rightarrow> config \<Rightarrow> ('w \<Rightarrow> 'w \<Rightarrow> bool) \<Rightarrow> 'w app \<Rightarrow> 'w app \<Rightarrow> bool" for G c env where
  start: "app_run G c env a a"
| next_step: "app_run G c env a a' \<Longrightarrow> app_step G c env a' a'' \<Longrightarrow> app_run G c env a a''"

lemma on_process_simps [simp]:
  "ap_process (on_process f a) = f (ap_process a)" "ap_phase (on_process f a) = ap_phase a" "ap_idle (on_process f a) = ap_idle a"
  "ap_expander (on_process f a) = ap_expander a" "ap_archiver (on_process f a) = ap_archiver a" "ap_dispatcher (on_process f a) = ap_dispatcher a"
  by (simp_all add: on_process_def)

lemma ended_simps [simp]:
  "ap_process (ended e a) = (ap_process a)\<lparr>pr_jobs := {#}, pr_busy := {#}\<rparr>" "ap_phase (ended e a) = Ended e" "ap_idle (ended e a) = 0"
  by (simp_all add: ended_def)

lemma launch_simps [simp]:
  "ap_process (launch c p) = p\<lparr>pr_jobs := {#}, pr_busy := {#}\<rparr>" "ap_idle (launch c p) = 0"
  "ap_phase (launch c p) = Serving \<longleftrightarrow> 0 < cf_check_period c" "ap_phase (launch c p) \<noteq> ShuttingDown"
  "ap_dispatcher (launch c p) \<noteq> Ticking"
  by (auto simp: launch_def StartArchivalScheduler_def NewTicker_def Let_def ended_def)

text \<open>An interval that is not positive ends the process, at its launch or when the expander starts.\<close>

lemma bad_intervals_crash:
  "cf_check_period c \<le> 0 \<Longrightarrow> ap_phase (launch c p) = Ended (Crashed ''non-positive interval for NewTicker'')"
  "sch_expansion_interval (cf_scheduler c) \<le> 0 \<Longrightarrow> ap_expander a = Starting
     \<Longrightarrow> ap_phase (expander_Run G c a) = Ended (Crashed ''non-positive interval for NewTicker'')"
  by (simp_all add: launch_def StartArchivalScheduler_def NewTicker_def expander_Run_def Let_def)

section \<open>Every step is one of the server\<close>

lemma no_item: "\<nexists>k item. r = Inr (RArr [k, item]) \<Longrightarrow> (case r of Inr (RArr [_, item]) \<Rightarrow> f item | _ \<Rightarrow> g) = g"
  by (auto split: sum.split rreply.split list.split)

lemma expander_Run_process:
  "ap_process (expander_Run G c a) = ap_process a
     \<or> ap_process (expander_Run G c a) = (ap_process a)\<lparr>pr_jobs := {#}, pr_busy := {#}\<rparr>
     \<or> ap_process (expander_Run G c a) = (ap_process a)\<lparr>pr_world := after (ExpandEvents (sv_svc G) (sv_expander G)) (pr_world (ap_process a))\<rparr>"
  by (auto simp: expander_Run_def after_def split: loop.split sum.split prod.split)

lemma worker_pops_cases:
  obtains (empty) w' r where "run_state (redis (sv_svc G) (BRPOP (di_prefix (sv_dispatcher G) @ dispatchQueueKey))) (pr_world (ap_process a)) = (r, w')"
      "\<nexists>k item. r = Inr (RArr [k, item])" "worker_pops G a = on_process (\<lambda>p. p\<lparr>pr_world := w'\<rparr>) a"
  | (item) w' k item n where "run_state (redis (sv_svc G) (BRPOP (di_prefix (sv_dispatcher G) @ dispatchQueueKey))) (pr_world (ap_process a))
        = (Inr (RArr [k, item]), w')" "ap_idle a = Suc n"
      "worker_pops G a = on_process (\<lambda>p. p\<lparr>pr_world := w', pr_busy := pr_busy p + {#item#}\<rparr>) (a\<lparr>ap_idle := n\<rparr>)"
  | (none) "ap_idle a = 0" "worker_pops G a = a"
proof (cases "ap_idle a")
  case 0
  then show thesis by (intro none) (simp_all add: worker_pops_def)
next
  case (Suc n)
  obtain r w' where r: "run_state (redis (sv_svc G) (BRPOP (di_prefix (sv_dispatcher G) @ dispatchQueueKey))) (pr_world (ap_process a)) = (r, w')"
    by fastforce
  show thesis
  proof (cases "\<exists>k item. r = Inr (RArr [k, item])")
    case True
    then obtain k x where "r = Inr (RArr [k, x])" by blast
    with Suc r show thesis by (intro item) (simp_all add: worker_pops_def)
  next
    case False
    from no_item [OF this] Suc r False show thesis by (intro empty) (simp_all add: worker_pops_def)
  qed
qed

lemma app_step_server:
  assumes "app_step G c env a a'"
  shows "ap_process a' = ap_process a \<or> server_step G env (ap_process a) (ap_process a')"
  using assms
proof (cases rule: app_step.cases)
  case expander
  with expander_Run_process [of G c a] show ?thesis
    using server_step.restart [of G env "ap_process a"] server_step.expander [of G env "ap_process a"] by auto
next
  case worker_pop
  then show ?thesis
  proof (cases rule: worker_pops_cases [of G a])
    case (empty w' r)
    with server_step.worker_pop [OF empty(1), of env] worker_pop(1) show ?thesis by (simp add: no_item [OF empty(2)])
  next
    case (item w' k item n)
    with server_step.worker_pop [OF item(1), of env] worker_pop(1) show ?thesis by simp
  qed simp
qed (auto simp: archiver_loop_def dispatcher_Run_def poller_loop_def worker_processes_def mover_loop_def intro: server_step.intros)

lemma app_run_server: "app_run G c env a a' \<Longrightarrow> server_run G env (ap_process a) (ap_process a')"
proof (induction rule: app_run.induct)
  case (next_step a a' a'')
  then show ?case using app_step_server [OF next_step.hyps(2)] by (auto intro: server_run.intros)
qed (rule server_run.start)

lemma server_run_front: "server_run G env p' p'' \<Longrightarrow> server_step G env p p' \<Longrightarrow> server_run G env p p''"
  by (induction rule: server_run.induct) (auto intro: server_run.intros)

lemma launched_server:
  assumes "app_run G c env (launch c p) a"
  shows "server_run G env p (ap_process a)"
  using server_run_front [OF app_run_server [OF assms], of p] server_step.restart [of G env p] by simp

text \<open>The workers that wait and the items in hand add up to the size of the pool.\<close>

definition pool_ok :: "config \<Rightarrow> 'w app \<Rightarrow> bool" where
  "pool_ok c a \<longleftrightarrow> (if running a \<and> ap_dispatcher a = Ticking then ap_idle a + size (pr_busy (ap_process a)) = worker_count c
     else ap_idle a = 0 \<and> pr_busy (ap_process a) = {#})"

lemma pool_ok_launch: "pool_ok c (launch c p)"
  by (auto simp: pool_ok_def running_def launch_def StartArchivalScheduler_def ended_def NewTicker_def Let_def)

lemma app_step_pool:
  assumes "app_step G c env a a'" "pool_ok c a"
  shows "pool_ok c a'"
  using assms(1)
proof (cases rule: app_step.cases)
  case worker_pop
  then show ?thesis
    using assms(2) by (cases rule: worker_pops_cases [of G a]) (auto simp: pool_ok_def running_def split: if_splits)
qed (use assms(2) in \<open>auto simp: pool_ok_def running_def pool_ok_launch [unfolded pool_ok_def running_def] size_Diff_singleton
    expander_Run_def archiver_loop_def dispatcher_Run_def poller_loop_def worker_processes_def mover_loop_def
    split: if_splits loop.splits sum.splits prod.splits dest: multi_member_split\<close>)

lemma app_run_pool: "app_run G c env a a' \<Longrightarrow> pool_ok c a \<Longrightarrow> pool_ok c a'"
  by (induction rule: app_run.induct) (auto intro: app_step_pool)

section \<open>Only the workers send\<close>

text \<open>The limiter and the world outside send no messages.\<close>

definition limiter_silent :: "'w views \<Rightarrow> 'w ttl_redis \<Rightarrow> bool" where
  "limiter_silent V T \<longleftrightarrow> (\<forall>k w. ov V (after (ttl_get T k) w) = ov V w) \<and> (\<forall>cs w. ov V (after (ttl_exec T cs) w) = ov V w)
     \<and> (\<forall>w. ov V (after (ttl_now T) w) = ov V w)"

definition env_silent :: "'w views \<Rightarrow> ('w \<Rightarrow> 'w \<Rightarrow> bool) \<Rightarrow> bool" where
  "env_silent V env \<longleftrightarrow> (\<forall>w w'. env w w' \<longrightarrow> ov V w' = ov V w)"

locale silent_server = typed_server S P V up pre ids issued T
  for S :: "'w svc" and P and V :: "'w views" and up pre ids and issued :: "'w \<Rightarrow> uuid set" and T :: "'w ttl_redis" +
  assumes silent: "limiter_silent V T"

context silent_server
begin

lemma silently:
  assumes "by_steps (stores_fit V ids) (\<lambda>w. w) (\<lambda>w w'. issued w \<subseteq> issued w') m Q" "\<And>w. ov V (after m w) = ov V w"
  shows "by_steps (stores_fit V ids) (\<lambda>w. w) (\<lambda>w w'. ov V w' = ov V w) m Q"
  unfolding by_steps_def
proof (intro allI impI)
  fix w assume "stores_fit V ids w"
  from by_steps_after [OF assms(1) this] assms(2) [of w]
  show "wp m (\<lambda>x w'. Q x \<and> (\<exists>s'. ov V s' = ov V w \<and> stores_fit V ids s' \<and> s' = w')) w"
    by (simp add: wp_def result_of_def after_def case_prod_unfold)
qed

lemma same_messages:
  "ov V (after (sql S st) w) = ov V w" "ov V (after (redis S c) w) = ov V w" "ov V (after (time_now S) w) = ov V w"
  "ov V (after (new_uuid S) w) = ov V w"
proof -
  have "wp (sql S st) (\<lambda>_ w'. ov V w' = ov V w) w" by (rule wp_sql [OF ok]) simp_all
  from wp_result [OF this] show "ov V (after (sql S st) w) = ov V w" .
  have "wp (redis S c) (\<lambda>_ w'. ov V w' = ov V w) w" by (rule wp_redis [OF ok]) simp_all
  from wp_result [OF this] show "ov V (after (redis S c) w) = ov V w" .
  have "wp (time_now S) (\<lambda>_ w'. ov V w' = ov V w) w" by (rule wp_time [OF ok])
  from wp_result [OF this] show "ov V (after (time_now S) w) = ov V w" .
  have "wp (new_uuid S) (\<lambda>_ w'. ov V w' = ov V w) w" by (rule wp_uuid [OF ok])
  from wp_result [OF this] show "ov V (after (new_uuid S) w) = ov V w" .
qed

lemma silent_retry:
  "ov V (after (State_Monad.bind (new_uuid S) (\<lambda>oid. scheduleWithRetry S pre (pending_occurrence oid (ev_id ev) t now) ev)) w) = ov V w"
proof -
  have "wp (State_Monad.bind (new_uuid S) (\<lambda>oid. scheduleWithRetry S pre (pending_occurrence oid (ev_id ev) t now) ev)) (\<lambda>_ w'. ov V w' = ov V w) w"
    unfolding wp_bind scheduleWithRetry_def
    by (rule wp_uuid [OF ok]) (auto intro: wp_mono [OF schedule_attempts_wp [OF ok]])
  from wp_result [OF this] show ?thesis .
qed

lemma silent_loops: "ov V (after (GetDueSchedules S pre) w) = ov V w" "ov V (after (poller_turn S D) w) = ov V w"
proof -
  have "wp (GetDueSchedules S pre) (\<lambda>_ w'. ov V w' = ov V w) w"
    unfolding GetDueSchedules_def wp_bind wp_attempt by (rule wp_time [OF ok], rule wp_redis [OF ok]) auto
  from wp_result [OF this] show "ov V (after (GetDueSchedules S pre) w) = ov V w" .
  have "wp (poller_turn S D) (\<lambda>_ w'. ov V w' = ov V w) w"
    unfolding poller_turn_def wp_bind wp_ignore by (rule wp_time [OF ok], rule wp_redis [OF ok]) auto
  from wp_result [OF this] show "ov V (after (poller_turn S D) w) = ov V w" .
qed

end

sublocale silent_server \<subseteq> quiet: server_logic "stores_fit V ids" "\<lambda>w. w" "\<lambda>w w'. ov V w' = ov V w" S up pre ids T
proof unfold_locales
  show "stmt_fits ids st \<Longrightarrow>
      by_steps (stores_fit V ids) (\<lambda>w. w) (\<lambda>w w'. ov V w' = ov V w) (sql S st) (pred_sum (\<lambda>_. True) (reply_fits ids))" for st
    by (rule silently [OF sql_typed]) (simp_all add: same_messages)
  show "by_steps (stores_fit V ids) (\<lambda>w. w) (\<lambda>w w'. ov V w' = ov V w) (time_now S) (\<lambda>_. True)"
    "by_steps (stores_fit V ids) (\<lambda>w. w) (\<lambda>w w'. ov V w' = ov V w) (new_uuid S) ids"
    by (rule silently [OF other_typed(1)] silently [OF uuid_typed], simp add: same_messages)+
  show "string_command cm \<Longrightarrow> by_steps (stores_fit V ids) (\<lambda>w. w) (\<lambda>w w'. ov V w' = ov V w) (redis S cm) (\<lambda>_. True)" for cm
    by (rule silently [OF fit.string_steps]) (simp_all add: same_messages)
  show "event_fits ids ev \<Longrightarrow> by_steps (stores_fit V ids) (\<lambda>w. w) (\<lambda>w w'. ov V w' = ov V w)
      (State_Monad.bind (new_uuid S) (\<lambda>oid. scheduleWithRetry S pre (pending_occurrence oid (ev_id ev) t now) ev)) (\<lambda>_. True)" for ev t now
    by (rule silently [OF fit.schedule_steps]) (simp_all add: silent_retry)
  have "wp (RemoveEventOccurrencesFromRedis up S pre i) (\<lambda>_ w'. ov V w' = ov V w) w" for i w
    by (rule wp_mono [OF RemoveEventOccurrences_wp [OF ok]]) simp
  then show "by_steps (stores_fit V ids) (\<lambda>w. w) (\<lambda>w w'. ov V w' = ov V w) (RemoveEventOccurrencesFromRedis up S pre i) (\<lambda>_. True)" for i
    by (auto intro!: silently [OF remove_typed] dest: wp_result)
  show "by_steps (stores_fit V ids) (\<lambda>w. w) (\<lambda>w w'. ov V w' = ov V w) (ttl_get T k) (\<lambda>_. True)"
    "by_steps (stores_fit V ids) (\<lambda>w. w) (\<lambda>w w'. ov V w' = ov V w) (ttl_exec T cs) (\<lambda>_. True)"
    "by_steps (stores_fit V ids) (\<lambda>w. w) (\<lambda>w w'. ov V w' = ov V w) (ttl_now T) (\<lambda>_. True)" for k cs
    using silent by (auto simp: limiter_silent_def intro!: silently [OF srv.limiter_steps(1)] silently [OF srv.limiter_steps(2)] silently [OF srv.limiter_steps(3)])
qed simp_all

context silent_server
begin

lemma quiet_step:
  assumes "server_step G env p p'" "process_fits V ids p" "env_silent V env"
    "sv_svc G = S" "sv_uuid G = up" "ex_prefix (sv_expander G) = pre" "sv_ttl G = T" "pr_turns p' = pr_turns p"
  shows "ov V (pr_world p') = ov V (pr_world p)"
proof -
  have w: "stores_fit V ids (pr_world p)" and jobs: "\<forall>ev \<in># pr_jobs p. event_fits ids ev"
    using assms(2) by (simp_all add: process_fits_def)
  have ran: "ov V (after m (pr_world p)) = ov V (pr_world p)"
    if "by_steps (stores_fit V ids) (\<lambda>w. w) (\<lambda>w w'. ov V w' = ov V w) m Q" for m :: "('w, 'x) state" and Q
    using by_steps_after [OF that w] by simp
  from assms(1) show ?thesis
  proof (cases rule: server_step.cases)
    case (request q rs job w')
    then have "w' = after (serve G q) (pr_world p)" by (simp add: after_def)
    with ran [OF quiet.serve_steps [OF assms(4-7), of q]] request(1) show ?thesis by simp
  next
    case (goroutine ev)
    with jobs ran [OF quiet.background_steps [OF _ assms(6), of "Some ev"]] show ?thesis by (simp add: assms(4))
  next
    case (worker_pop r w')
    then have "w' = after (redis S (BRPOP (di_prefix (sv_dispatcher G) @ dispatchQueueKey))) (pr_world p)" by (simp add: after_def assms(4))
    with worker_pop(1) show ?thesis by (simp add: same_messages)
  next
    case (worker_process item)
    then show ?thesis using assms(8) by simp
  next
    case (outside w')
    with assms(3) show ?thesis by (simp add: env_silent_def)
  qed (simp_all add: assms(4,6) silent_loops ran [OF quiet.ExpandEvents_steps [OF assms(6)]] ran [OF quiet.archive_cycle_steps])
qed

end

lemma server_step_turns: "server_step G env p p' \<Longrightarrow> \<exists>vs. pr_turns p' = vs @ pr_turns p"
  by (induction rule: server_step.induct) auto

lemma server_run_turns: "server_run G env p p' \<Longrightarrow> \<exists>vs. pr_turns p' = vs @ pr_turns p"
proof (induction rule: server_run.induct)
  case (next_step p p' p'')
  then show ?case using server_step_turns [OF next_step.hyps(2)] by auto
qed simp

context silent_server
begin

lemma quiet_run:
  assumes "server_run G env p p'" "process_fits V ids p" "env_apart V env" "env_silent V env"
    "sv_svc G = S" "sv_uuid G = up" "ex_prefix (sv_expander G) = pre" "sv_ttl G = T" "pr_turns p' = pr_turns p"
  shows "ov V (pr_world p') = ov V (pr_world p)"
  using assms(1,2,9)
proof (induction rule: server_run.induct)
  case (next_step p p' p'')
  obtain vs us where "pr_turns p' = vs @ pr_turns p" "pr_turns p'' = us @ pr_turns p'"
    using server_run_turns [OF next_step.hyps(1)] server_step_turns [OF next_step.hyps(2)] by blast
  with next_step.prems(2) have t: "pr_turns p' = pr_turns p" "pr_turns p'' = pr_turns p'" by simp_all
  from quiet_step [OF next_step.hyps(2) run_fits [OF next_step.hyps(1) next_step.prems(1) assms(3,5-8)] assms(4-8) t(2)]
    next_step.IH [OF next_step.prems(1) t(1)] show ?case by simp
qed simp

end

section \<open>Properties\<close>

text \<open>C11. The application refines the server: from its launch on, over signals, crashes and relaunches, whatever the
  goroutines of \<open>main\<close> do is a run of the server's steps, so the properties of all runs hold for it. While the dispatcher runs, the workers
  that wait and the items in hand add up to the configured number of workers; otherwise nothing is in hand.\<close>

theorem application_refines_server:
  assumes "app_run G c env (launch c p) a"
  shows "server_run G env p (ap_process a)
    \<and> (if running a \<and> ap_dispatcher a = Ticking then ap_idle a + size (pr_busy (ap_process a)) = worker_count c
        else pr_busy (ap_process a) = {#})"
  using launched_server [OF assms] app_run_pool [OF assms pool_ok_launch] by (auto simp: pool_ok_def split: if_splits)

text \<open>C12. Without workers nothing is ever sent: where the configuration gives no positive \<open>dispatch_worker_count\<close>, for which the program
  has neither a default nor a check, the process comes up and serves, but through all its life and over any restarts it
  processes no item and sends no message, whatever is due.\<close>

theorem no_workers_no_messages:
  assumes "svc_ok (sv_svc G) P V" "pg_ok P" "limiter_apart V (sv_ttl G)" "limiter_silent V (sv_ttl G)" "env_apart V env" "env_silent V env"
    "stores_typed V (pr_world p)" "sch_worker_count (cf_scheduler c) \<le> 0" "app_run G c env (launch c p) a"
  shows "pr_turns (ap_process a) = pr_turns p \<and> pr_busy (ap_process a) = {#} \<and> ov V (pr_world (ap_process a)) = ov V (pr_world p)"
proof -
  have server: "silent_server (sv_svc G) P V (\<lambda>_. True) (\<lambda>_. {}) (sv_ttl G)"
    using assms(1-4) by unfold_locales (simp_all add: issues_def limiter_remembers_def remembers_def)
  have idle: "ap_idle b = 0 \<and> pr_busy (ap_process b) = {#}" if "app_run G c env (launch c p) b" for b
    using app_run_pool [OF that pool_ok_launch] assms(8) by (auto simp: pool_ok_def worker_count_def split: if_splits)
  have turns: "pr_turns (ap_process a) = pr_turns p"
    using assms(9)
  proof (induction "launch c p" a rule: app_run.induct)
    case (next_step a' a'')
    from next_step.hyps(3) have "pr_turns (ap_process a'') = pr_turns (ap_process a')"
      by (cases rule: app_step.cases) (use idle [OF next_step.hyps(1)] in
        \<open>auto simp: worker_pops_def worker_processes_def archiver_loop_def dispatcher_Run_def poller_loop_def mover_loop_def
          expander_Run_def split: loop.splits sum.splits prod.splits\<close>)
    with next_step.hyps(2) show ?case by simp
  qed simp
  have "process_fits V (\<lambda>_. True) (ap_process (launch c p))" using assms(7) by (simp add: process_fits_def stores_fit_def)
  from silent_server.quiet_run [OF server app_run_server [OF assms(9)] this assms(5,6) refl refl refl refl] turns idle [OF assms(9)]
  show ?thesis by simp
qed

text \<open>The turns of an occurrence.\<close>

definition handled :: "'w server \<Rightarrow> uuid \<Rightarrow> 'w process \<Rightarrow> nat" where
  "handled G oid p = length (filter (\<lambda>v. fst (entry_item (sv_uuid G) v) = oid) (pr_turns p))"

lemma handled_turns:
  "rn_turns r = pr_turns p \<Longrightarrow> turns_of (pipeline_of (sv_uuid G) pre V r) oid = handled G oid p"
  by (simp add: handled_def turns_of_def pipeline_of_def Let_def filter_map comp_def eq_commute)

lemma dropped_gone:
  assumes "pipe_ok limit q" "x \<in># busy q" "fst x = oid" "items q' = items q - busy q" "entered q \<subseteq> entered q'"
  shows "gone oid q'"
  unfolding gone_def
proof (intro conjI ballI)
  obtain n B where x: "x = (oid, n)" "busy q = add_mset x B" using assms(2,3) by (metis multi_member_split prod.collapse)
  have all: "items q = add_mset (oid, n) (waiting q + queued q + retrying q + B)" by (simp add: items_def x)
  note sole = sole_item [OF assms(1) all]
  show "oid \<in> entered q'" using assms(1,5) all by (auto simp: pipe_ok_def)
  have "items q' = waiting q + queued q + retrying q" unfolding assms(4) by (simp add: items_def)
  with sole(1) show "fst y \<noteq> oid" if "y \<in># items q'" for y using that by force
qed

context delivering_server
begin

text \<open>An item in hand when the process ends.\<close>

lemma dropped_never_handled:
  assumes inv: "run_inv up V D r" and lim: "is_int64 (di_maxRetries D)" and r: "linked up V issued p r" "v \<in># pr_busy p"
    and run: "server_run G env (p\<lparr>pr_jobs := {#}, pr_busy := {#}\<rparr>) p''" and env: "env_apart V env" "env_remembers issued env"
    and G: "sv_svc G = S" "sv_uuid G = up" "ex_prefix (sv_expander G) = pre" "sv_ttl G = T" "sv_dispatcher G = D"
  shows "handled G (fst (entry_item up v)) p'' = handled G (fst (entry_item up v)) p"
proof -
  let ?p = "p\<lparr>pr_jobs := {#}, pr_busy := {#}\<rparr>" and ?q = "pipeline_of up (di_prefix D) V"
  obtain r' where r': "code_run up S V D r r'" "linked up V issued ?p r'"
    using server_step_linked [OF server_step.restart r(1) env G] by blast
  obtain r'' where r'': "code_run up S V D r' r''" "linked up V issued p'' r''"
    using server_run_linked [OF run r'(2) env G] by blast
  note s' = code_run_simulated [OF r'(1) ok inv lim]
  note s'' = code_run_simulated [OF r''(1) ok _ lim]
  have "items (?q r') = items (?q r) - busy (?q r)"
    using r(1) r'(2) by (simp add: items_def pipeline_of_def Let_def linked_def)
  moreover have "entered (?q r) \<subseteq> entered (?q r')" using s' by (auto simp: simulates_def dest: entered_steps)
  ultimately have "gone (fst (entry_item up v)) (?q r')"
    using inv r by (intro dropped_gone [where q = "?q r" and x = "entry_item up v"])
      (auto simp: run_inv_def linked_def pipeline_of_def Let_def)
  moreover have "pipe_steps (di_maxRetries D) (?q r') (?q r'')" using s' s'' by (simp add: simulates_def)
  ultimately have "turns_of (?q r'') (fst (entry_item up v)) = turns_of (?q r') (fst (entry_item up v))" using gone_steps by blast
  moreover have "rn_turns r' = pr_turns p" "rn_turns r'' = pr_turns p''" using r'(2) r''(2) by (simp_all add: linked_def)
  ultimately show ?thesis using handled_turns [of _ _ G] unfolding G(2) by metis
qed

end

text \<open>C13. The shutdown waits for nothing. \<open>main\<close> returns as soon as \<open>ListenAndServe\<close> does, which is when \<open>Shutdown\<close> is called, not when it is
  done, and the workers are told nothing. So a signal can end the process at once with an item in a worker's hand; as it is in no
  queue any more, its occurrence is lost: through all relaunches it is never processed again, however many of its
  retries are left.\<close>

theorem shutdown_loses_items_in_hand:
  assumes "svc_ok (sv_svc G) P V" "pg_ok P" "limiter_apart V (sv_ttl G)" "env_apart V env" "fresh_ids G issued env"
    "ex_prefix (sv_expander G) = di_prefix (sv_dispatcher G)" "is_int64 (di_maxRetries (sv_dispatcher G))"
    "stores_fit V (\<lambda>i. sv_uuid G i = Some i) (pr_world p)" "payloads (di_prefix (sv_dispatcher G)) (rv V (pr_world p)) = {}" "pr_turns p = []"
    "app_run G c env (launch c p) a" "ap_phase a = Serving" "v \<in># pr_busy (ap_process a)" "oid = fst (entry_item (sv_uuid G) v)"
  shows "\<exists>a'. app_run G c env a a' \<and> ap_phase a' = Ended MainReturned \<and> pr_world (ap_process a') = pr_world (ap_process a)
    \<and> (\<forall>a''. app_run G c env a' a'' \<longrightarrow> handled G oid (ap_process a'') = handled G oid (ap_process a))"
proof (intro exI conjI allI impI)
  let ?a1 = "a\<lparr>ap_phase := ShuttingDown\<rparr>" and ?D = "sv_dispatcher G"
  have "app_step G c env a ?a1" "app_step G c env ?a1 (ended MainReturned ?a1)"
    using assms(12) by (auto intro: app_step.intros)
  then show "app_run G c env a (ended MainReturned ?a1)" by (blast intro: app_run.intros)
  show "ap_phase (ended MainReturned ?a1) = Ended MainReturned" "pr_world (ap_process (ended MainReturned ?a1)) = pr_world (ap_process a)"
    by simp_all
  fix a'' assume a'': "app_run G c env (ended MainReturned ?a1) a''"
  have "delivering_server (sv_svc G) P V (sv_uuid G) (di_prefix ?D) issued (sv_ttl G) ?D"
    using assms(1-3,5) by unfold_locales (simp_all add: fresh_ids_def)
  note server = this
  from delivering_server.server_run_linked [OF server app_run_server [OF assms(11)] _ assms(4), of "fresh_run (pr_world p)"] assms(5,6,8,10)
  obtain r where r: "code_run (sv_uuid G) (sv_svc G) V ?D (fresh_run (pr_world p)) r" "linked (sv_uuid G) V issued (ap_process a) r"
    by (auto simp: fresh_ids_def linked_def tracked_def fresh_run_def)
  have "run_inv (sv_uuid G) V ?D (fresh_run (pr_world p))"
    using assms(8,9) by (intro fresh_run_inv) (simp_all add: stores_fit_rows)
  with code_run_simulated [OF r(1) assms(1) _ assms(7)] have "run_inv (sv_uuid G) V ?D r" by simp
  from delivering_server.dropped_never_handled [OF server this assms(7) r(2) assms(13), of G env "ap_process a''"]
    app_run_server [OF a''] assms(4-6) show "handled G oid (ap_process a'') = handled G oid (ap_process a)"
    unfolding assms(14) by (simp add: fresh_ids_def)
qed

section \<open>A concrete application\<close>

text \<open>The round of the expander finds the event of the installation.\<close>

lemma demo_listed:
  obtains ev where "run_state (ListActive mem_svc) (pr_world demo_start) = (Inr [ev], pr_world demo_start)"
    "ev_id ev = mem_uuid 0" "ev_start_time ev = 60 * second" "ev_schedule ev = None"
proof -
  have "row_typed demo_row" using demo_typed by (simp add: stores_typed_def tables_typed_def) (simp add: demo_mem_def)
  then obtain ev where ev: "event_of_row demo_row = Inr ev" by (auto simp: row_typed_def is_ok_def split: sum.splits)
  then have "ev_id ev = mem_uuid 0" "ev_start_time ev = 60 * second" "ev_schedule ev = None"
    by (auto simp: event_of_row_def demo_row_def scan_column_def split: sum.splits)
  then show thesis
    using ev
    by (intro that [of "populateWebhookFromAction ev"])
      (auto simp: ListActive_def list_events_def Services.attempt_def sql_def mem_svc_def State_Monad.bind_def State_Monad.return_def
        demo_start_def demo_mem_def demo_row_def newest_first_def populateWebhookFromAction_def Let_def split: option.split sum.split)
qed

text \<open>A configuration with one worker.\<close>

definition one_worker :: config where
  "one_worker = demo_config\<lparr>cf_scheduler := (cf_scheduler demo_config)\<lparr>sch_worker_count := 1\<rparr>\<rparr>"

lemma demo_expanded:
  defines "w1 \<equiv> after (ExpandEvents mem_svc (sv_expander demo_server)) (pr_world demo_start)"
  obtains v where "rdata_ok (m_redis w1)" "pending_entries [] (m_redis w1) (schedule_key (mem_uuid 0) (60 * second)) = Some (60, v)"
    "result_of (ExpandEvents mem_svc (sv_expander demo_server)) (pr_world demo_start) = Some (Inr ())"
proof -
  obtain ev where ev: "run_state (ListActive mem_svc) (pr_world demo_start) = (Inr [ev], pr_world demo_start)"
    "ev_id ev = mem_uuid 0" "ev_start_time ev = 60 * second" "ev_schedule ev = None" by (rule demo_listed)
  define X where "X = sv_expander demo_server"
  have X: "ex_prefix X = []" "window_opens X 0 = 0" "window_closes X 0 = 86400 * second"
    by (simp_all add: X_def demo_server_def window_opens_def window_closes_def add_dur_def hour_def minute_def second_def)
  have t: "unix (60 * second) = 60" "0 \<le> 60 * second" "60 * second \<le> 86400 * second" by (simp_all add: unix_def second_def)
  have now: "result_of (time_now mem_svc) (pr_world demo_start) = 0" by (simp add: mem_svc_def result_of_def demo_start_def)
  have none: "pending_entries [] (m_redis (pr_world demo_start)) k = None" "no_orphans [] (m_redis (pr_world demo_start))"
    "rdata_ok (m_redis (pr_world demo_start))" for k
    by (simp_all add: pending_entries_def no_orphans_def demo_start_def demo_mem_def) (simp_all add: no_rdata_def)
  have years: "year_ok 0" "year_ok (60 * second)"
    by (rule year_ok_between [OF demo_years(1,2)]; simp add: second_def)+
  have w1: "w1 = after (expandNonRecurringEvent mem_svc X ev) (pr_world demo_start)"
    "result_of (ExpandEvents mem_svc (sv_expander demo_server)) (pr_world demo_start) = Some (Inr ())"
    by (simp_all add: w1_def X_def ExpandEvents_def after_def result_of_def State_Monad.bind_def ev(1) expandEvent_def ev(4) State_Monad.return_def split: prod.split)
  have "adds_entries [] ev 0 {60 * second} (m_redis (pr_world demo_start)) (m_redis w1)"
    using wp_result [OF expandNonRecurring_wp [OF mem_svc_ok _ now [symmetric], of X ev]] none(3) X t
    by (simp add: w1(1) ev window_opens_def window_closes_def)
  moreover from one_time_reliable [OF mem_svc_ok mem_reliable, of "pr_world demo_start" X 0 ev] none X years now ev t
  have "pending_entries [] (m_redis w1) (schedule_key (mem_uuid 0) (60 * second)) \<noteq> None"
    by (simp add: w1(1))
  ultimately obtain v where "rdata_ok (m_redis w1)" "pending_entries [] (m_redis w1) (schedule_key (mem_uuid 0) (60 * second)) = Some (60, v)"
    using none(1) t(1) unfolding adds_entries_def ev(2) by (metis singletonD)
  then show thesis using w1(2) by (rule that)
qed

text \<open>Its time comes, the entry moves to the queue, and a worker can pop it.\<close>

lemma demo_popped:
  defines "w1 \<equiv> after (ExpandEvents mem_svc (sv_expander demo_server)) (pr_world demo_start)"
  obtains w2 w4 item where "mem_env w1 w2"
    "run_state (redis mem_svc (BRPOP dispatchQueueKey)) (after (GetDueSchedules mem_svc []) w2) = (Inr (RArr [dispatchQueueKey, item]), w4)"
proof -
  obtain v where v: "rdata_ok (m_redis w1)" "pending_entries [] (m_redis w1) (schedule_key (mem_uuid 0) (60 * second)) = Some (60, v)"
    unfolding w1_def by (rule demo_expanded)
  define w2 where "w2 = w1\<lparr>m_time := max (m_time w1) (120 * second)\<rparr>"
  define w3 where "w3 = after (GetDueSchedules mem_svc []) w2"
  have "60 \<le> unix (m_time w2)" by (simp add: w2_def unix_def second_def)
  moreover have "m_redis w3 = move_entries [] (unix (m_time w2)) (m_redis w2)"
    by (simp add: w3_def GetDueSchedules_def Services.attempt_def redis_def mem_svc_def after_def State_Monad.bind_def
        State_Monad.return_def move_entries_def split: prod.split)
  ultimately have "v \<in> set (dispatch_queue [] (m_redis w3))"
    using redis_store.due_moves [OF v, of "unix (m_time w2)"] by (simp add: w2_def)
  then obtain x xs where q: "rd_lists (m_redis w3) dispatchQueueKey = x # xs"
    by (cases "rd_lists (m_redis w3) dispatchQueueKey") (auto simp: dispatch_queue_def)
  have "run_state (redis mem_svc (BRPOP dispatchQueueKey)) w3
      = (Inr (RArr [dispatchQueueKey, last (x # xs)]), w3\<lparr>m_redis := upd_list dispatchQueueKey butlast (m_redis w3)\<rparr>)"
    by (simp add: redis_def mem_svc_def State_Monad.bind_def State_Monad.return_def q)
  moreover have "mem_env w1 w2" unfolding mem_env_def w2_def by (intro exI [of _ "max (m_time w1) (120 * second)"]) simp
  ultimately show thesis using that by (simp add: w3_def)
qed

lemma demo_app:
  obtains a v where "app_run demo_server one_worker mem_env (launch one_worker demo_start) a" "ap_phase a = Serving"
    "ap_dispatcher a = Ticking" "v \<in># pr_busy (ap_process a)"
proof -
  let ?step = "app_step demo_server one_worker mem_env"
  have D: "sv_svc demo_server = mem_svc" "ex_prefix (sv_expander demo_server) = []" "di_prefix (sv_dispatcher demo_server) = []"
    by (simp_all add: demo_server_def)
  define w1 where "w1 = after (ExpandEvents mem_svc (sv_expander demo_server)) (pr_world demo_start)"
  have "result_of (ExpandEvents mem_svc (sv_expander demo_server)) (pr_world demo_start) = Some (Inr ())" by (rule demo_expanded)
  then have round: "run_state (ExpandEvents mem_svc (sv_expander demo_server)) (pr_world demo_start) = (Some (Inr ()), w1)"
    by (simp add: w1_def after_def result_of_def prod_eq_iff)
  obtain w2 w4 item where w2: "mem_env w1 w2" and
    pop: "run_state (redis mem_svc (BRPOP dispatchQueueKey)) (after (GetDueSchedules mem_svc []) w2) = (Inr (RArr [dispatchQueueKey, item]), w4)"
    unfolding w1_def by (rule demo_popped)
  define a0 where "a0 = launch one_worker demo_start"
  have a0: "ap_phase a0 = Serving" "ap_expander a0 = Starting" "ap_dispatcher a0 = Starting" "pr_world (ap_process a0) = pr_world demo_start"
    by (simp_all add: a0_def launch_def StartArchivalScheduler_def NewTicker_def one_worker_def demo_config_def hour_def minute_def second_def)
  define a1 where "a1 = expander_Run demo_server one_worker a0"
  define a2 where "a2 = expander_Run demo_server one_worker a1"
  define a3 where "a3 = on_process (\<lambda>p. p\<lparr>pr_world := w2\<rparr>) a2"
  define a4 where "a4 = mover_loop demo_server a3"
  define a5 where "a5 = dispatcher_Run one_worker a4"
  define a6 where "a6 = worker_pops demo_server a5"
  have a1: "a1 = a0\<lparr>ap_expander := Ticking\<rparr>"
    by (simp add: a1_def expander_Run_def a0 NewTicker_def one_worker_def demo_config_def second_def)
  have a2: "a2 = on_process (\<lambda>p. p\<lparr>pr_world := w1\<rparr>) a1" by (simp add: a2_def expander_Run_def a1 a0 D round)
  have a5: "a5 = a4\<lparr>ap_dispatcher := Ticking, ap_idle := 1\<rparr>"
    by (simp add: a5_def dispatcher_Run_def a4_def mover_loop_def a3_def a2 a1 a0 worker_count_def one_worker_def)
  have w5: "pr_world (ap_process a5) = after (GetDueSchedules mem_svc []) w2" by (simp add: a5 a4_def mover_loop_def a3_def D)
  have a6: "a6 = on_process (\<lambda>p. p\<lparr>pr_world := w4, pr_busy := pr_busy p + {#item#}\<rparr>) (a5\<lparr>ap_idle := 0\<rparr>)"
    by (simp add: a6_def worker_pops_def D w5 pop) (simp add: a5)
  have run: "running a0" "running a1" "running a3" "running a4" "running a5"
    by (simp_all add: running_def a5 a4_def mover_loop_def a3_def a2 a1 a0)
  have s1: "?step a0 a1" "?step a1 a2" unfolding a1_def a2_def by (rule app_step.expander, use run in \<open>simp add: a1_def\<close>)+
  have s3: "?step a2 a3" unfolding a3_def by (rule app_step.outside) (simp add: a2 w2)
  have s4: "?step a3 a4" "?step a4 a5" "?step a5 a6"
    unfolding a4_def a5_def a6_def by (rule app_step.mover app_step.dispatcher app_step.worker_pop, use run in \<open>simp add: a4_def a5_def\<close>)+
  have "app_run demo_server one_worker mem_env a0 a6"
    by (rule app_run.next_step [OF app_run.next_step [OF app_run.next_step [OF app_run.next_step [OF app_run.next_step
        [OF app_run.next_step [OF app_run.start s1(1)] s1(2)] s3] s4(1)] s4(2)] s4(3)])
  then show thesis
    by (rule that [where v = item, folded a0_def]) (simp_all add: a6 a5 a4_def mover_loop_def a3_def a2 a1 a0)
qed

theorem application_refines_server_witness:
  "\<exists>a. app_run demo_server one_worker mem_env (launch one_worker demo_start) a \<and> server_run demo_server mem_env demo_start (ap_process a)
     \<and> size (pr_busy (ap_process a)) = 1"
proof -
  obtain a v where a: "app_run demo_server one_worker mem_env (launch one_worker demo_start) a" "ap_phase a = Serving"
    "ap_dispatcher a = Ticking" "v \<in># pr_busy (ap_process a)" by (rule demo_app)
  have "worker_count one_worker = 1" by (simp add: worker_count_def one_worker_def)
  moreover from a(4) have "0 < size (pr_busy (ap_process a))" by (metis nonempty_has_size empty_iff set_mset_empty)
  ultimately show ?thesis
    using application_refines_server [OF a(1)] a by (intro exI [of _ a]) (auto simp: running_def)
qed

theorem no_workers_no_messages_witness:
  "\<exists>a. app_run demo_server demo_config mem_env (launch demo_config demo_start) a \<and> ap_dispatcher a = Ticking
     \<and> pr_busy (ap_process a) = {#} \<and> m_out (pr_world (ap_process a)) = []"
proof -
  define a where "a = dispatcher_Run demo_config (launch demo_config demo_start)"
  have l: "ap_dispatcher (launch demo_config demo_start) = Starting" "running (launch demo_config demo_start)"
    by (simp_all add: running_def launch_def StartArchivalScheduler_def NewTicker_def demo_config_def hour_def minute_def second_def)
  then have "app_step demo_server demo_config mem_env (launch demo_config demo_start) a" unfolding a_def by (intro app_step.dispatcher)
  then have run: "app_run demo_server demo_config mem_env (launch demo_config demo_start) a" by (blast intro: app_run.intros)
  have svc: "svc_ok (sv_svc demo_server) mem_pg mem_views" "limiter_apart mem_views (sv_ttl demo_server)" "limiter_silent mem_views (sv_ttl demo_server)"
    by (simp_all add: demo_server_def mem_svc_ok mem_ttl_apart) (simp add: limiter_silent_def mem_ttl_def after_def)
  have rest: "env_silent mem_views mem_env" "stores_typed mem_views (pr_world demo_start)" "sch_worker_count (cf_scheduler demo_config) \<le> 0"
    using demo_typed by (auto simp: env_silent_def mem_env_def demo_config_def stores_typed_def demo_start_def)
  from no_workers_no_messages [OF svc(1) mem_pg_ok svc(2,3) mem_env_apart rest run] run show ?thesis
    using l by (intro exI [of _ a]) (simp add: a_def dispatcher_Run_def demo_start_def demo_mem_def)
qed

theorem shutdown_loses_items_in_hand_witness:
  "\<exists>a a' v. app_run demo_server one_worker mem_env (launch one_worker demo_start) a \<and> v \<in># pr_busy (ap_process a)
     \<and> app_run demo_server one_worker mem_env a a' \<and> ap_phase a' = Ended MainReturned
     \<and> handled demo_server (fst (entry_item Some v)) (ap_process a') = handled demo_server (fst (entry_item Some v)) (ap_process a)"
proof -
  obtain a v where a: "app_run demo_server one_worker mem_env (launch one_worker demo_start) a" "ap_phase a = Serving"
    "v \<in># pr_busy (ap_process a)" by (rule demo_app)
  have svc: "svc_ok (sv_svc demo_server) mem_pg mem_views" "limiter_apart mem_views (sv_ttl demo_server)"
    "ex_prefix (sv_expander demo_server) = di_prefix (sv_dispatcher demo_server)" "is_int64 (di_maxRetries (sv_dispatcher demo_server))"
    "sv_uuid demo_server = Some"
    by (simp_all add: demo_server_def mem_svc_ok mem_ttl_apart is_int64_def)
  have "stores_fit mem_views (\<lambda>i. sv_uuid demo_server i = Some i) (pr_world demo_start)"
    using demo_typed by (simp add: stores_fit_def stores_typed_def demo_start_def svc(5))
  moreover have "payloads (di_prefix (sv_dispatcher demo_server)) (rv mem_views (pr_world demo_start)) = {}"
    using demo_empty(1) by (simp add: demo_dispatcher_def) (simp add: demo_server_def demo_start_def)
  moreover have "pr_turns demo_start = []" by (simp add: demo_start_def)
  ultimately obtain a' where "app_run demo_server one_worker mem_env a a'" "ap_phase a' = Ended MainReturned"
    "handled demo_server (fst (entry_item Some v)) (ap_process a') = handled demo_server (fst (entry_item Some v)) (ap_process a)"
    using shutdown_loses_items_in_hand [OF svc(1) mem_pg_ok svc(2) mem_env_apart mem_fresh_ids svc(3,4) _ _ _ a refl] app_run.start
    unfolding svc(5) by metis
  with a show ?thesis by blast
qed

interpretation mem_silent: silent_server mem_svc mem_pg mem_views Some "[]" "\<lambda>_. True" "\<lambda>_. {}" mem_ttl
  by unfold_locales (auto simp: limiter_silent_def mem_ttl_def after_def)

end
