(* ===== verification/Dispatch.thy ===== *)
theory Dispatch
  imports Dispatcher
begin

text \<open>
  What a dispatch promises: a message to the recipient that the event's action names, the record of its
  outcome, the end of an event whose last occurrence it was, and the signature a webhook carries.
\<close>

section \<open>Signatures\<close>

text \<open>C35. A webhook carries a signature of its very body: it is in the request's headers, has 64 hexadecimal characters, and
  validates with the event's secret, or with the service's default secret when the event has none; any other
  string does not validate.\<close>

theorem webhook_signature_validates:
  "let secret = (case ev_hmac_secret ev of None \<Rightarrow> [] | Some s \<Rightarrow> s); mac = SignPayload ds payload secret
   in map_of (rq_headers (webhook_request (Some ds) ev url payload)) ''X-Qhronos-Signature'' = Some mac
     \<and> length mac = 64 \<and> ValidateSignature ds payload sig secret = (sig = mac)"
proof -
  have h: "canonical_header ''X-Qhronos-Signature'' = ''X-Qhronos-Signature''" "canonical_header ''Content-Type'' = ''Content-Type''"
    by code_simp+
  have "signature_headers (Some ds) ev payload
      = [(''X-Qhronos-Signature'', SignPayload ds payload (case ev_hmac_secret ev of None \<Rightarrow> [] | Some s \<Rightarrow> s))]"
    by (simp add: signature_headers_def split: option.split)
  then show ?thesis
    using h by (simp add: webhook_request_def set_header_def ValidateSignature_iff) (simp add: SignPayload_def Let_def)
qed

lemma has_eventI: "row \<in> set (db_events db) \<Longrightarrow> er_id row = i \<Longrightarrow> has_event db i"
  by (auto simp: has_event_iff)

section \<open>One message, to the named recipient\<close>

text \<open>C17. A successful dispatch has sent exactly one message, to the recipient that the action of the event's row names
  (the webhook's or the API call's URL, the websocket client); a failed one has sent none, or one to that
  recipient.\<close>

theorem dispatch_sends_to_recipient:
  assumes "svc_ok S P V"
  shows "let r = result_of (DispatchAction S D sched) w; old = ov V w; new = ov V (after (DispatchAction S D sched) w)
    in (new = old \<and> r \<noteq> Inr ())
     \<or> (\<exists>row ev a m. row \<in> set (db_events (dv V w)) \<and> er_id row = oc_event_id sched \<and> event_of_row row = Inr ev
          \<and> ev_action ev = Some a \<and> new = old @ [m] \<and> addressed_to a m)"
  using wp_result [OF DispatchAction_wp [OF assms, of D sched w]]
  by (cases "result_of (DispatchAction S D sched) w") (auto simp: dispatch_effect_def Let_def)

theorem dispatch_sends_to_recipient_witness:
  "let D = \<lparr>di_prefix = [], di_maxRetries = 3, di_retryDelay = 5 * second, di_hmac = Some ''secret'', di_request_error = \<lambda>_ _. None\<rparr>;
       sched = zero_schedule\<lparr>oc_event_id := mem_uuid 0\<rparr>; new = m_out (after (DispatchAction mem_svc D sched) demo_mem)
   in new = [] \<or> (\<exists>m. new = [m])"
  using dispatch_sends_to_recipient [OF mem_svc_ok, of "\<lparr>di_prefix = [], di_maxRetries = 3, di_retryDelay = 5 * second,
      di_hmac = Some ''secret'', di_request_error = \<lambda>_ _. None\<rparr>" "zero_schedule\<lparr>oc_event_id := mem_uuid 0\<rparr>" demo_mem]
  by (auto simp: Let_def demo_mem_def)

section \<open>Failures\<close>

text \<open>A failed dispatch changes no event, and of the occurrences it records at most one more: failed, for this entry's
  event, occurrence and time. In Redis it removes at most the entry's own schedule key.\<close>

theorem failed_dispatch_keeps_events:
  assumes "svc_ok S P V" "result_of (DispatchAction S D sched) w = Inl e"
  shows "let db = dv V w; w' = after (DispatchAction S D sched) w; db' = dv V w' in
     db_events db' = db_events db
   \<and> (db' = db \<or> (\<exists>oc. db_occs db' = db_occs db @ [oc] \<and> oc_event_id oc = oc_event_id sched
        \<and> oc_occurrence_id oc = oc_occurrence_id sched \<and> oc_status oc = OccurrenceStatusFailed))
   \<and> rv V w' \<in> orphan_cleanup (di_prefix D) sched (rv V w)"
  using wp_result [OF DispatchAction_wp [OF assms(1), of D sched w]] assms(2)
  by (auto simp: dispatch_effect_def Let_def may_record_def add_occurrence_def outcome_def round_occ_def)

text \<open>An entry of an event that is gone: the dispatch fails, with nothing to do about it.\<close>

theorem failed_dispatch_keeps_events_witness:
  "let D = \<lparr>di_prefix = [], di_maxRetries = 3, di_retryDelay = 5 * second, di_hmac = None, di_request_error = \<lambda>_ _. None\<rparr>;
       w' = after (DispatchAction mem_svc D (zero_schedule\<lparr>oc_event_id := mem_uuid 5\<rparr>)) demo_mem
   in db_events (m_db w') = [demo_row]"
proof -
  let ?D = "\<lparr>di_prefix = [], di_maxRetries = 3, di_retryDelay = 5 * second, di_hmac = None, di_request_error = \<lambda>_ _. None\<rparr>"
  let ?s = "zero_schedule\<lparr>oc_event_id := mem_uuid 5\<rparr>"
  have "mem_uuid 5 \<noteq> mem_uuid 0" by code_simp
  then have "\<not> has_event (m_db demo_mem) (mem_uuid 5)"
    by (simp add: has_event_iff demo_mem_def demo_row_def)
  then have "wp (DispatchAction mem_svc ?D ?s) (\<lambda>r _. \<exists>e. r = Inl e) demo_mem"
    unfolding DispatchAction_def wp_bind
    by (intro wp_mono [OF GetByID_wp [OF mem_svc_ok]]) (auto split: sum.split option.split simp: Let_def dest: has_eventI)
  from wp_result [OF this] obtain e where "result_of (DispatchAction mem_svc ?D ?s) demo_mem = Inl e" by blast
  from failed_dispatch_keeps_events [OF mem_svc_ok this] show ?thesis by (simp add: Let_def demo_mem_def)
qed

section \<open>Completion\<close>

text \<open>A database that answers every statement that its constraints admit.\<close>

definition sql_serves :: "'w svc \<Rightarrow> pg \<Rightarrow> 'w views \<Rightarrow> bool" where
  "sql_serves S P V \<longleftrightarrow> (\<forall>st w. (\<exists>x d'. sql_effect P st (dv V w) x d') \<longrightarrow> is_ok (result_of (sql_do S st) w))"

lemma wp_sql_serves:
  assumes "svc_ok S P V" "sql_serves S P V" "sql_effect P st (dv V w) x0 d0"
    "\<And>x w'. sql_effect P st (dv V w) x (dv V w') \<Longrightarrow> rv V w' = rv V w \<Longrightarrow> ov V w' = ov V w \<Longrightarrow> Q (Inr x) w'"
  shows "wp (sql S st) Q w"
proof -
  obtain r w' where r: "run_state (sql_do S st) w = (r, w')" by fastforce
  have "is_ok (result_of (sql_do S st) w)" using assms(2,3) by (auto simp: sql_serves_def)
  with r obtain x where x: "r = Inr x" by (auto simp: result_of_def elim: is_okE)
  have "wp (sql S st) (\<lambda>r w'. is_ok r \<longrightarrow> Q r w') w"
    by (rule wp_sql [OF assms(1)]) (auto intro: assms(4))
  with r x show ?thesis by (simp add: wp_def sql_def State_Monad.bind_def)
qed

lemma record_serves:
  assumes "svc_ok S P V" "sql_serves S P V" "has_event (dv V w) (oc_event_id oc)"
  shows "wp (ignore (occ_Create S oc)) (\<lambda>_ w'. rv V w' = rv V w \<and> dv V w' = add_occurrence P oc (dv V w)) w"
  unfolding wp_ignore occ_Create_def wp_attempt
  by (rule wp_sql_serves [OF assms(1,2) insert_occurrence_effect [THEN iffD2]])
     (use assms(3) in \<open>auto simp: insert_occurrence_effect\<close>)

lemma updated_status [simp]: "ev_status (updated now ev) = ev_status ev"
  by (simp add: updated_def deriveAndSetAction_def populateWebhookFromAction_def split: option.split sum.split)

lemma inactivate_serves:
  assumes "svc_ok S P V" "sql_serves S P V" "ev_tags ev = Some ts"
  shows "wp (inactivate S ev) (\<lambda>_ w'. db_occs (dv V w') = db_occs (dv V w)
     \<and> (\<forall>row \<in> set (db_events (dv V w')). er_id row = ev_id ev \<longrightarrow> er_status row = EventStatusInactive)) w"
  unfolding inactivate_def wp_ignore Update_def Let_def wp_bind wp_attempt
proof (rule wp_time [OF assms(1)], fold updated_def, goal_cases)
  case (1 now w1)
  let ?ev = "updated now (ev\<lparr>ev_status := EventStatusInactive\<rparr>)"
  have tags: "ev_tags ?ev = Some ts" using assms(3) by simp
  let ?st = "UpdateEventRow (ev_name ?ev) (ev_description ?ev) (map_option enc_schedule_config (ev_schedule ?ev))
         (ev_start_time ?ev) (ev_metadata ?ev) (ev_webhook ?ev) (ev_tags ?ev) (ev_status ?ev) (ev_updated_at ?ev)
         (map_option enc_action (ev_action ?ev)) (ev_id ?ev)"
  have ex: "\<exists>x d'. sql_effect P ?st (dv V w1) x d'"
    unfolding sql_effect_def tags by (auto intro!: exI [of _ id])
  then obtain x0 d0 where "sql_effect P ?st (dv V w1) x0 d0" by blast
  then show ?case
  proof (rule wp_sql_serves [OF assms(1,2)], goal_cases)
    case (1 x w2)
    with update_event_effect [OF 1(1)] tags \<open>dv V w1 = dv V w\<close> show ?case
      by (auto simp: update_row_def row_of_event_def split: if_splits dest: has_eventI)
  qed
qed

lemma populate_keeps_rest [simp]: "ev_schedule (populateWebhookFromAction ev) = ev_schedule ev"
  "ev_status (populateWebhookFromAction ev) = ev_status ev" "ev_tags (populateWebhookFromAction ev) = ev_tags ev"
  by (simp_all add: populateWebhookFromAction_def split: option.split sum.split)

definition completed_record :: "schedule \<Rightarrow> dbdata \<Rightarrow> bool" where
  "completed_record sched db \<longleftrightarrow> (\<exists>oc \<in> set (db_occs db). oc_event_id oc = oc_event_id sched
     \<and> oc_occurrence_id oc = oc_occurrence_id sched \<and> oc_status oc = OccurrenceStatusCompleted)"

lemma completed_log:
  "completed_record sched (add_occurrence P (log_occurrence sched ev (Inr ()) n1 n2) db)" if "ev_id ev = oc_event_id sched"
  using that by (simp add: completed_record_def add_occurrence_def log_occurrence_def round_occ_def)

lemma event_of_row_fields:
  "event_of_row row = Inr ev \<Longrightarrow> er_schedule row = None \<Longrightarrow> ev_schedule ev = None"
  "event_of_row row = Inr ev \<Longrightarrow> ev_status ev = er_status row \<and> ev_tags ev = Some (er_tags row) \<and> ev_id ev = er_id row"
  by (auto simp: event_of_row_def scan_column_def split: sum.splits option.splits)

text \<open>C24. A one-time event completes: with a database that answers, a successful dispatch of an active event without a
  schedule leaves a completed occurrence for the entry, and the event inactive, so it is not expanded again.\<close>

theorem one_time_event_completes:
  assumes "svc_ok S P V" "sql_serves S P V" "result_of (DispatchAction S D sched) w = Inr ()"
    "\<And>row. row \<in> set (db_events (dv V w)) \<Longrightarrow> er_id row = oc_event_id sched \<Longrightarrow> er_schedule row = None \<and> er_status row = EventStatusActive"
  shows "let db = dv V (after (DispatchAction S D sched) w) in completed_record sched db
     \<and> (\<forall>row \<in> set (db_events db). er_id row = oc_event_id sched \<longrightarrow> er_status row = EventStatusInactive)"
proof -
  let ?done = "\<lambda>db. completed_record sched db
     \<and> (\<forall>row \<in> set (db_events db). er_id row = oc_event_id sched \<longrightarrow> er_status row = EventStatusInactive)"
  have "wp (DispatchAction S D sched) (\<lambda>r w'. r = Inr () \<longrightarrow> ?done (dv V w')) w"
    unfolding DispatchAction_def wp_bind
  proof (rule wp_mono [OF GetByID_wp [OF assms(1)]], goal_cases)
    case (1 r w1)
    show ?case
    proof (cases "\<exists>ev. r = Inr (Some ev) \<and> ev_action ev \<noteq> None")
      case False
      then show ?thesis by (auto split: sum.split option.split simp: Let_def)
    next
      case True
      then obtain ev a where r: "r = Inr (Some ev)" "ev_action ev = Some a" by auto
      with 1 obtain row ev0 where row: "row \<in> set (db_events (dv V w))" "er_id row = oc_event_id sched"
        "event_of_row row = Inr ev0" "ev = populateWebhookFromAction ev0" by auto
      with assms(4) have ev: "ev_schedule ev = None" "ev_status ev = EventStatusActive" "ev_id ev = oc_event_id sched"
        "ev_tags ev = Some (er_tags row)" by (simp_all add: event_of_row_fields)
      have tail: "wp (ignore (occ_Create S (log_occurrence sched ev (Inr ()) n1 n2))) (\<lambda>_ w'. wp (auto_inactivate S ev (Inr ()))
          (\<lambda>_ w'. ?done (dv V w')) w') w2" if "dv V w2 = dv V w" for n1 n2 w2
      proof (rule wp_mono [OF record_serves [OF assms(1,2)]], goal_cases)
        case 1
        show ?case using has_eventI [OF row(1,2)] that ev(3) by (simp add: log_occurrence_def)
      next
        case (2 x w3)
        then show ?case
          using completed_log [OF ev(3)] wp_mono [OF inactivate_serves [OF assms(1,2) ev(4)]]
          by (auto simp: auto_inactivate_def ev is_ok_def completed_record_def)
      qed
      have "wp (Execute (dispatch_manager S (di_hmac D) (di_request_error D)) ev) (\<lambda>dr w'. dv V w' = dv V w) w1"
        by (rule wp_mono [OF Execute_wp [OF assms(1)]]) (use 1 in auto)
      then show ?thesis
        using r by (simp, elim wp_mono, intro wp_time [OF assms(1)])
          (rename_tac dr w2 n1 w3 n2 w4, case_tac dr, auto intro: tail [simplified])
    qed
  qed
  from wp_result [OF this] assms(3) show ?thesis by (simp add: Let_def)
qed

definition quiet_dispatcher :: dispatcher where
  "quiet_dispatcher = \<lparr>di_prefix = [], di_maxRetries = 3, di_retryDelay = 5 * second, di_hmac = None, di_request_error = \<lambda>_ _. None\<rparr>"

lemma wp_const: "wp m (\<lambda>_ _. c) w = c"
  by (simp add: wp_def split: prod.split)

lemma demo_dispatch: "result_of (DispatchAction mem_svc quiet_dispatcher (zero_schedule\<lparr>oc_event_id := mem_uuid 0\<rparr>)) demo_mem = Inr ()"
proof -
  have action: "dec_action (JObj [(''type'', JStr ''webhook''), (''params'', JObj [(''url'', JStr ''http://host/hook'')])])
      = Some \<lparr>act_type = ActionTypeWebhook, act_params = Some (JObj [(''url'', JStr ''http://host/hook'')])\<rparr>"
    "dec_webhook_params (JObj [(''url'', JStr ''http://host/hook'')]) = Some \<lparr>wh_url = ''http://host/hook''\<rparr>"
    by code_simp+
  have times: "marshal_time (120 * second) \<noteq> None" "marshal_time (60 * second) \<noteq> None"
    by code_simp+
  then obtain a b where times: "marshal_time (120 * second) = Some a" "marshal_time (60 * second) = Some b" by auto
  have "wp (DispatchAction mem_svc quiet_dispatcher (zero_schedule\<lparr>oc_event_id := mem_uuid 0\<rparr>)) (\<lambda>r _. r = Inr ()) demo_mem"
    by (simp add: DispatchAction_def GetByID_def mem_wp demo_mem_def demo_row_def event_of_row_def scan_column_def action
        populateWebhookFromAction_def Execute_def dispatch_manager_def Register_def action_type_defs WebhookExecutor_def decode_params_def
        times wp_const GetWebhookParams_def webhook_payload_def quiet_dispatcher_def send_request_def success_status_def)
       (simp add: mem_at_def success_status_def)
  from wp_result [OF this] show ?thesis .
qed

lemma mem_sql_serves: "sql_serves mem_svc mem_pg mem_views"
proof -
  have "sql_sem P now eo oo st d = Some xd \<Longrightarrow> \<exists>xd'. sql_sem P t id id st d = Some xd'" for P now t eo oo st d xd
    by (cases st) (auto split: option.splits if_splits)
  then show ?thesis
    unfolding sql_serves_def sql_effect_def
    by (auto simp: mem_svc_def result_of_def is_ok_def split: option.split) (metis not_None_eq surj_pair)
qed

theorem one_time_event_completes_witness:
  "let db = m_db (after (DispatchAction mem_svc quiet_dispatcher (zero_schedule\<lparr>oc_event_id := mem_uuid 0\<rparr>)) demo_mem)
   in \<forall>row \<in> set (db_events db). er_id row = mem_uuid 0 \<longrightarrow> er_status row = EventStatusInactive"
  using one_time_event_completes [OF mem_svc_ok mem_sql_serves demo_dispatch] by (simp add: Let_def demo_mem_def demo_row_def)

section \<open>Retries\<close>

text \<open>C25. An entry whose dispatch failed goes to the retry queue once more or is dropped: dropped without a trace when this was
  the last of \<open>maxRetries\<close> attempts, otherwise, with services that answer, in the retry queue with its attempt
  count one higher and nothing else changed, due when the delay has passed.\<close>

theorem failed_entry_is_retried_or_dropped:
  assumes "svc_ok S P V" "reliable S" "ok_schedule up sched" "is_int64 (oc_attempt_count sched + 1)"
  shows "let a = oc_attempt_count sched + 1; d = rv V w; d' = rv V (after (retry_later S D sched) w);
             now = result_of (time_now S) w
    in if a < di_maxRetries D
       then \<exists>v. unmarshal_schedule up v = Inr (sched\<lparr>oc_attempt_count := a\<rparr>)
          \<and> d' = call (ZADD (di_prefix D @ retryQueueKey) (unix (add_dur now (di_retryDelay D))) v) d
       else d' = d"
proof -
  let ?a = "oc_attempt_count sched + 1"
  note w = wrap64_id [OF assms(4)]
  show ?thesis
  proof (cases "?a < di_maxRetries D")
    case False
    with w show ?thesis by (simp add: Let_def retry_later_def after_def)
  next
    case True
    have "ok_schedule up (sched\<lparr>oc_attempt_count := ?a\<rparr>)" using assms(3,4) by (simp add: ok_schedule_def)
    then obtain v where v: "marshal_schedule (sched\<lparr>oc_attempt_count := ?a\<rparr>) = Inr v"
      "unmarshal_schedule up v = Inr (sched\<lparr>oc_attempt_count := ?a\<rparr>)" by (rule marshal_schedule_ok)
    have "wp (retry_later S D sched) (\<lambda>_ w'. rv V w' = call (ZADD (di_prefix D @ retryQueueKey)
        (unix (add_dur (result_of (time_now S) w) (di_retryDelay D))) v) (rv V w)) w"
      unfolding retry_later_def Let_def
      using True w v by (auto intro!: wp_time_now [OF assms(1)] wp_redis_reliable [OF assms(1,2)] dest!: redis_sem_call)
    from wp_result [OF this] v True show ?thesis by (auto simp: Let_def)
  qed
qed

theorem failed_entry_is_retried_or_dropped_witness:
  "\<exists>v. unmarshal_schedule Some v = Inr (zero_schedule\<lparr>oc_attempt_count := 1\<rparr>)
     \<and> m_redis (after (retry_later mem_svc quiet_dispatcher zero_schedule) demo_mem) = call (ZADD retryQueueKey 125 v) no_rdata"
proof -
  have "printable 0 zero_time" by code_simp
  then have "ok_schedule Some zero_schedule" "is_int64 (oc_attempt_count zero_schedule + 1)"
    by (simp_all add: ok_schedule_def zero_schedule_def is_int64_def)
  moreover have "unix (add_dur (120 * second) (5 * second)) = 125" by (simp add: unix_def add_dur_def second_def)
  ultimately show ?thesis
    using failed_entry_is_retried_or_dropped [OF mem_svc_ok mem_reliable, of Some zero_schedule demo_mem quiet_dispatcher]
    by (simp add: Let_def quiet_dispatcher_def zero_schedule_def mem_svc_def result_of_def demo_mem_def)
qed

end
