(* ===== verification/Spec2Isabelle.thy ===== *)
theory Spec2Isabelle
  imports Composition Granularity Duplicates Lifecycle Dispatch EventApi OccurrenceHandlers RateLimit Clients Config Startup Rfc3339 Struct_Fields
begin

text \<open>
  A verification development for Qhronos, a scheduler of events with an HTTP API (Go, under \<open>src/\<close>).

  The program. Clients create events over the API (\<open>internal/handlers\<close>, \<open>internal/api/routes.go\<close>,
  \<open>internal/middleware\<close>). An event is a row in PostgreSQL (\<open>internal/repository\<close>) with a start time, perhaps a rule of
  recurrence, and an action. The expander (\<open>internal/scheduler/expander.go\<close>) computes, at intervals, the times of every active
  event that lie in a window around the present, and puts an entry for each into Redis: a member of the sorted set
  \<open>schedules\<close> and a payload in the hash \<open>schedule:data\<close> (\<open>scheduler.go\<close>). Each second the due entries move to the list
  \<open>dispatch:queue\<close>. The workers of the dispatcher (\<open>dispatcher.go\<close>) pop entries, execute the action of the event
  (\<open>internal/actions\<close>: a webhook, a message to a websocket client, an API call), record an occurrence and put a failed entry
  into \<open>retry:queue\<close>, from which a poller returns it. The archiver (\<open>archiver.go\<close>) moves old rows away. Tokens
  (\<open>internal/services/token_service.go\<close>), rate limits and websocket connections are components of their own.

  How it is modelled. Effects on the outside are calls of a record of services (\<open>Services.svc\<close>: Redis, SQL, clock, identifiers,
  HTTP client, websocket notifier) on a world of any type; the functions of the program are computations of \<open>State_Monad\<close>
  over that world, and a Go error is the left value of a sum. \<open>svc_ok\<close> states what the services are documented to do, over
  three views of the world: a failing call leaves its store as it was or as the call would have left it. Where the
  code may panic or not return, the result is an \<open>option\<close>. Integers are unbounded with the wrap-around of 64 bits written
  out (\<open>wrap64\<close>); times are nanoseconds since 1970. \<open>Memory\<close> is a concrete world that meets \<open>svc_ok\<close>; witnesses run on it.

  The theories, from the bottom.
  \<^item> \<open>Prelude\<close>: results, decimal text, splitting, codecs (locale \<open>codec\<close>). \<open>GoTime\<close>, \<open>Rfc3339\<close>: \<open>time.Time\<close>, its calendar
    and its text. \<open>Json\<close>, \<open>Struct_Fields\<close>: \<open>encoding/json\<close>, printing, parsing, the matching of fields.
  \<^item> \<open>Models\<close>, \<open>Requests\<close>: \<open>internal/models\<close>, the records with their JSON and database values, and the bodies of the API.
  \<^item> \<open>Recurrence\<close>, \<open>ScheduleRules\<close>: loops over times, and \<open>schedule.go\<close> (parsing, validation and evaluation of rules).
  \<^item> \<open>Redis\<close>, \<open>Sql\<close>, \<open>Services\<close>, \<open>Memory\<close>: the stores with the commands and statements that the program sends, and the calls.
  \<^item> \<open>EventRepository\<close>, \<open>OccurrenceRepository\<close>: \<open>internal/repository\<close>. \<open>Scheduler\<close>: \<open>scheduler.go\<close> with its Lua script
    (locale \<open>schedule_store\<close>). \<open>Expander\<close>, \<open>Expansion\<close>: \<open>expander.go\<close> and what an expansion achieves.
  \<^item> \<open>Sha256\<close>, \<open>Actions\<close>, \<open>Dispatcher\<close>, \<open>Dispatch\<close>: signatures, \<open>internal/actions\<close>, \<open>dispatcher.go\<close> and what a dispatch achieves.
  \<^item> \<open>Pipeline\<close>, \<open>Delivery\<close>: an abstract machine that hands items from the schedule to the workers and back, and the proof that
    every interleaving of the program's steps is a run of it.
  \<^item> \<open>EventHandlers\<close>, \<open>EventApi\<close>, \<open>OccurrenceHandlers\<close>: \<open>internal/handlers/event_handler.go\<close> and \<open>occurrence_handler.go\<close>.
  \<^item> \<open>Tokens\<close>, \<open>Middleware\<close>, \<open>RateLimit\<close>: \<open>token_service.go\<close>, \<open>token_handler.go\<close>, \<open>internal/middleware\<close> (locale
    \<open>expiring_store\<close>). \<open>Clients\<close>: \<open>websocket_handler.go\<close> (locale \<open>conn_index\<close>), with its connections as interleaved steps.
  \<^item> \<open>Archiver\<close>, \<open>Config\<close>: \<open>archiver.go\<close>, and the durations and defaults of \<open>internal/config/config.go\<close>.
  \<^item> \<open>Steps\<close>: a logic of invariants and steps (locale \<open>step_logic\<close>), and the walk of it through the handlers, the repositories, the
    expander, the archiver and the dispatcher (locales \<open>program_logic\<close>, \<open>dispatch_logic\<close>, \<open>worker_logic\<close>), done once for every
    invariant.
  \<^item> \<open>Typing\<close>: the types of the stores as one such invariant (locale \<open>typed_services\<close>). \<open>Server\<close>: the assembled server with its routes
    and background loops (locales \<open>server_logic\<close>, \<open>typed_server\<close>).
  \<^item> \<open>Composition\<close>: the deliveries as another (locale \<open>delivering_server\<close>): every run of the server is a run of \<open>Delivery\<close>.
  \<^item> \<open>Threads\<close>, \<open>Interleaving\<close>, \<open>Replay\<close>, \<open>Granularity\<close>: the same program one service call at a time. A thread is its code with the calls
    it has made and their answers, replayed on services that answer from this trace (locale \<open>script_server\<close>); a machine lets any
    number of threads take turns between their calls. It refines the pipeline, too, and runs every large step.
  \<^item> \<open>Duplicates\<close>: the two ways in which a time enters the pipeline twice.
  \<^item> \<open>Lifecycle\<close>: the process from the start of the loops to its end and its next launch: the tickers and loops of \<open>Expander.Run\<close>,
    \<open>Dispatcher.Run\<close> and \<open>StartArchivalScheduler\<close>, the pool of workers, crashes and the shutdown (locale \<open>silent_server\<close>: only the
    workers send).
  \<^item> \<open>Startup\<close>: \<open>main.go\<close> up to the wired server (flags, configuration, migrations, connections with their retries),
    \<open>internal/database/postgres.go\<close> and the settings of \<open>internal/logging/logger.go\<close>.

  What is shown. Delivery: the Redis structures refine the abstract pipeline, no occurrence is in two places, and none is dispatched
  more often than the retry limit; this holds for the whole server, under any requests and any interleaving of whole turns, and
  of single service calls as long as no \<open>HSET\<close> fails after taking effect; where it does, or where the expander comes around before a queued
  entry is dispatched, the time is queued twice. The life of the process: its steps are runs of the server; without workers nothing is sent;
  the shutdown loses what is in hand. Expansion:
  it returns for rules within the interval limits, fills exactly the window, and misses no repetition of a simple rule. The API: what is accepted is stored as requested, with errors on every branch; round trips
  of rows, queue entries, tokens and signatures. The server: every run keeps the stores typed; who gets past which route. The limiter
  bounds requests that come one after another, and not those that overlap (\<open>RateLimit.rl_run\<close>, \<open>rl_race\<close>). The archiver: what a
  cycle moves, by which clocks, and that it does when its calls are answered.
  Some theorems record what the code does against its intent; the manifest lists them as findings.

  Bounds and fuel. A loop over times is bounded by the range of 64-bit seconds (\<open>Recurrence.for_loop\<close> gives \<open>None\<close> when the step does
  not advance, and \<open>recurring_expansion_returns\<close> shows when it does). The JSON parser has fuel of twice the length of the text plus
  two, each value consuming a character. Durations consume a character for each number.

  Assumptions. A request, a goroutine, a turn of a loop, the pop and the processing of a worker are each one step of
  \<open>Server.server_step\<close>; in \<open>Delivery.code_step\<close> a whole \<open>scheduleWithRetry\<close> is one. In \<open>Interleaving.machine_step\<close> the steps are
  single calls, which are atomic: a command, a script or a statement. New identifiers are canonical and new (\<open>fresh_ids\<close>). The limiter's keys are plain keys apart from the
  others (\<open>limiter_apart\<close>). A statement is carried out at the time of the database's clock when it is issued (\<open>Archiver.db_clock\<close>, a
  hypothesis of the archiver's property only). The JWT library, \<open>uuid.Parse\<close>, gin's matching of paths, floating-point seconds and fractions of
  durations are parameters.

  Not modelled: the writing of log lines; real time (a tick may come at any moment, a sleep is no step); the inside of viper,
  of the migration library and of the drivers, which are parameters of \<open>Startup\<close>; the wire protocol of websockets; data races on
  a websocket connection; the analytics tables of the migrations, which no code uses; tests and test utilities.
\<close>

end
